(* ===== verification/Prelude.thy ===== *)
theory Prelude
  imports Main "HOL-Library.Word" "HOL-Library.Monad_Syntax"
begin

text \<open>
  What every component shares.

  \<^item> The integer types of \<^verbatim>\<open>kernel/types.h\<close> as fixed-width words.  The C type
    \<^verbatim>\<open>int\<close> is the unbounded \<^typ>\<open>int\<close> (or \<^typ>\<open>nat\<close> for an index or a counter that the
    code never decrements below zero); its overflow is undefined behaviour in C and is not
    given a meaning here.
  \<^item> Running C code: a statement that changes the state is a function into \<^typ>\<open>'a option\<close>,
    chained by the option monad.  \<^term>\<open>None\<close> means that the call does not return: the kernel
    panicked (\<open>panic\<close>), left the bounds of an array (\<open>check\<close>) or would have to wait for
    another thread.  A theorem that shows a result \<^term>\<open>Some\<close> therefore shows that none of
    these happens.
  \<^item> \<open>runs m P\<close>, total correctness: \<open>m\<close> returns, and returns a value that satisfies \<open>P\<close>.
    Its rewrite rules (collection \<open>wp\<close>) compute weakest preconditions.
  \<^item> \<open>for_each\<close>, the C loop over a fixed index range, and its invariant rule.
\<close>

section \<open>Machine types\<close>

type_synonym uint8 = "8 word"
type_synonym uint16 = "16 word"
type_synonym uint32 = "32 word"
type_synonym uint64 = "64 word"
type_synonym uchar = "8 word"
type_synonym ushort = "16 word"
type_synonym uint_t = "32 word"

section \<open>Statements that may not return\<close>

named_theorems wp \<open>weakest preconditions of the statement combinators\<close>

definition panic :: "string \<Rightarrow> 'a option" where
  "panic msg = None"

definition check :: "bool \<Rightarrow> unit option" where
  "check b = (if b then Some () else None)"

definition runs :: "'a option \<Rightarrow> ('a \<Rightarrow> bool) \<Rightarrow> bool" where
  "runs m P \<longleftrightarrow> (\<exists>x. m = Some x \<and> P x)"

lemma runs_Some [simp, wp]: "runs (Some x) P \<longleftrightarrow> P x"
  by (simp add: runs_def)

lemma runs_None [simp, wp]: "\<not> runs None P"
  by (simp add: runs_def)

lemma runs_panic [simp, wp]: "\<not> runs (panic msg) P"
  by (simp add: panic_def)

lemma panic_simp [simp]: "panic msg = Some x \<longleftrightarrow> False" "Some x = panic msg \<longleftrightarrow> False"
  by (simp_all add: panic_def)

lemma bind_panic [simp]: "Option.bind (panic msg) f = None"
  by (simp add: panic_def)

lemma check_simp [simp]: "check True = Some ()" "check False = None"
  by (simp_all add: check_def)

lemma runs_check [simp, wp]: "runs (check b) P \<longleftrightarrow> b \<and> P ()"
  by (cases b) simp_all

lemma runs_bind [simp, wp]: "runs (Option.bind m f) P \<longleftrightarrow> runs m (\<lambda>x. runs (f x) P)"
  by (cases m) simp_all

lemma runs_if [wp]: "runs (if b then m else n) P \<longleftrightarrow> (b \<longrightarrow> runs m P) \<and> (\<not> b \<longrightarrow> runs n P)"
  by simp

lemma runs_Let [wp]: "runs (let x = e in m x) P \<longleftrightarrow> runs (m e) P"
  by (simp add: Let_def)

lemma runs_case_prod [wp]: "runs (case p of (x, y) \<Rightarrow> m x y) P \<longleftrightarrow> runs (m (fst p) (snd p)) P"
  by (simp add: case_prod_beta)

lemma runs_mono: "runs m P \<Longrightarrow> (\<And>x. P x \<Longrightarrow> Q x) \<Longrightarrow> runs m Q"
  by (auto simp: runs_def)

lemma runs_conj: "runs m P \<Longrightarrow> runs m Q \<Longrightarrow> runs m (\<lambda>x. P x \<and> Q x)"
  by (auto simp: runs_def)

lemma runs_eq: "runs m (\<lambda>x. x = y) \<longleftrightarrow> m = Some y"
  by (auto simp: runs_def)

lemma runsE:
  assumes "runs m P"
  obtains x where "m = Some x" and "P x"
  using assms by (auto simp: runs_def)

lemma bind_Some_E:
  assumes "Option.bind m f = Some y"
  obtains x where "m = Some x" and "f x = Some y"
  using assms by (cases m) simp_all

section \<open>Loops over an index range\<close>

fun for_each :: "('i \<Rightarrow> 's \<Rightarrow> 's option) \<Rightarrow> 'i list \<Rightarrow> 's \<Rightarrow> 's option" where
  "for_each f [] s = Some s"
| "for_each f (i # is) s = Option.bind (f i s) (for_each f is)"

lemma for_each_append:
  "for_each f (xs @ ys) s = Option.bind (for_each f xs s) (for_each f ys)"
proof (induction xs arbitrary: s)
  case (Cons x xs)
  then show ?case by (cases "f x s") simp_all
qed simp

text \<open>The loop rule: \<open>I done s\<close> holds when the indices \<open>done\<close> have been processed.\<close>

lemma runs_for_each:
  assumes "I [] s"
    and "\<And>done i rest t. is = done @ i # rest \<Longrightarrow> I done t \<Longrightarrow> runs (f i t) (I (done @ [i]))"
  shows "runs (for_each f is s) (I is)"
proof -
  have "runs (for_each f rest t) (I is)"
    if "is = done @ rest" and "I done t" for "done" rest t
    using that
  proof (induction rest arbitrary: "done" t)
    case Nil
    then show ?case by simp
  next
    case (Cons i rest)
    have "runs (f i t) (I (done @ [i]))"
      using assms(2) Cons.prems by blast
    then show ?case
      using Cons.IH [of "done @ [i]"] Cons.prems(1) by (auto elim!: runs_mono)
  qed
  from this [of "[]" "is" s] assms(1) show ?thesis by simp
qed

lemma for_each_keeps:
  assumes "\<And>i t. i \<in> set is \<Longrightarrow> I t \<Longrightarrow> runs (f i t) I" and "I s"
  shows "runs (for_each f is s) I"
  by (rule runs_for_each [where I = "\<lambda>_. I"]) (use assms in auto)

text \<open>Loops that copy one array slot per iteration are folds of function updates.\<close>

lemma for_each_Some: "for_each (\<lambda>i s. Some (g i s)) is s = Some (fold g is s)"
  by (induction "is" arbitrary: s) auto

lemma upt_eq_append_Cons:
  "[m..<n] = done @ i # rest \<Longrightarrow> i = m + length done \<and> i < n \<and> done = [m..<i]"
proof -
  assume *: "[m..<n] = done @ i # rest"
  then have len: "length done < n - m"
    by (metis length_upt length_append length_Cons less_add_same_cancel1 zero_less_Suc)
  from * have "[m..<n] ! length done = i" by (metis nth_append_length)
  with len have i: "i = m + length done" by simp
  have "done = take (length done) [m..<n]" using * by simp
  with i len show ?thesis by (simp add: take_upt)
qed

section \<open>Lists\<close>

text \<open>A search of a table by index: the least index that satisfies the test.\<close>

lemma find_upt_Some:
  "find P [0..<n] = Some i \<longleftrightarrow> i < n \<and> P i \<and> (\<forall>j < i. \<not> P j)"
  by (auto simp: find_Some_iff)

lemma find_upt_None: "find P [0..<n] = None \<longleftrightarrow> (\<forall>i < n. \<not> P i)"
  by (auto simp: find_None_iff)

lemma map_upt_shift: "map f [Suc m..<Suc n] = map (\<lambda>i. f (Suc i)) [m..<n]"
  by (simp add: map_Suc_upt [symmetric] comp_def del: upt_Suc)

end
