(* ===== verification/Spinlock.thy ===== *)
theory Spinlock
  imports Prelude
begin

text \<open>
  \<^verbatim>\<open>kernel/spinlock.c\<close>: spin locks and the nesting of interrupt disabling.

  The first part is the code itself, over the lock words, the per-CPU nesting counters and the
  supervisor interrupt-enable bit of every hart.  \<open>acquire\<close> and \<open>release\<close> are built from the
  pieces that the hardware executes atomically, and the same pieces are the steps of a machine in
  which all CPUs run concurrently (\<open>lock_step\<close>).

  The second part is the contract the rest of the kernel relies on: a thread has a set of
  locks it holds; acquiring one it already holds panics, as does releasing one it does not hold.
  The locale \<open>lock_spec\<close> states it, the code and the abstract lock set \<open>held\<close> are both
  interpretations.  All other components take locks through the abstract set.
\<close>

section \<open>Names of the kernel's spin locks\<close>

datatype lockid =
    PidLock | WaitLock | TicksLock | ProcLock nat | QueueLock nat
  | FrametableLock | SwapLock | KmemLock
  | BcacheLock | LogLock | ItableLock | FtableLock
  | BufSleepLk nat | InodeSleepLk nat
  | PipeLock uint64 | ConsLock | TxLock | VdiskLock | PrLock

section \<open>The code\<close>

record spinlock =
  lk_locked :: uint_t
  lk_name :: string
  lk_cpu :: "nat option"

record cpu_intr =
  noff :: int
  intena :: bool

record lkstate =
  locks :: "lockid \<Rightarrow> spinlock"
  cpus :: "nat \<Rightarrow> cpu_intr"
  sie :: "nat \<Rightarrow> bool"

definition initlock :: "lockid \<Rightarrow> string \<Rightarrow> 'a lkstate_scheme \<Rightarrow> 'a lkstate_scheme" where
  "initlock l name s =
     s\<lparr>locks := (locks s)(l := \<lparr>lk_locked = 0, lk_name = name, lk_cpu = None\<rparr>)\<rparr>"

definition intr_get :: "nat \<Rightarrow> 'a lkstate_scheme \<Rightarrow> bool" where
  "intr_get c s = sie s c"

definition intr_on :: "nat \<Rightarrow> 'a lkstate_scheme \<Rightarrow> 'a lkstate_scheme" where
  "intr_on c s = s\<lparr>sie := (sie s)(c := True)\<rparr>"

definition intr_off :: "nat \<Rightarrow> 'a lkstate_scheme \<Rightarrow> 'a lkstate_scheme" where
  "intr_off c s = s\<lparr>sie := (sie s)(c := False)\<rparr>"

definition push_off :: "nat \<Rightarrow> 'a lkstate_scheme \<Rightarrow> 'a lkstate_scheme" where
  "push_off c s =
     (let old = intr_get c s;
          s = intr_off c s;
          s = (if noff (cpus s c) = 0
               then s\<lparr>cpus := (cpus s)(c := (cpus s c)\<lparr>intena := old\<rparr>)\<rparr> else s)
      in s\<lparr>cpus := (cpus s)(c := (cpus s c)\<lparr>noff := noff (cpus s c) + 1\<rparr>)\<rparr>)"

definition pop_off :: "nat \<Rightarrow> 'a lkstate_scheme \<Rightarrow> 'a lkstate_scheme option" where
  "pop_off c s =
     (if intr_get c s then panic ''pop_off - interruptible''
      else if noff (cpus s c) < 1 then panic ''pop_off''
      else
        let s = s\<lparr>cpus := (cpus s)(c := (cpus s c)\<lparr>noff := noff (cpus s c) - 1\<rparr>)\<rparr>
        in Some (if noff (cpus s c) = 0 \<and> intena (cpus s c) then intr_on c s else s))"

definition holding :: "nat \<Rightarrow> lockid \<Rightarrow> 'a lkstate_scheme \<Rightarrow> bool" where
  "holding c l s \<longleftrightarrow> lk_locked (locks s l) \<noteq> 0 \<and> lk_cpu (locks s l) = Some c"

text \<open>The atomic pieces of \<open>acquire\<close>: disabling interrupts and the self-deadlock check, one
  atomic swap on the lock word, recording the owner.\<close>

definition acquire_enter :: "nat \<Rightarrow> lockid \<Rightarrow> 'a lkstate_scheme \<Rightarrow> 'a lkstate_scheme option" where
  "acquire_enter c l s =
     (let s = push_off c s in if holding c l s then panic ''acquire'' else Some s)"

definition test_and_set :: "lockid \<Rightarrow> 'a lkstate_scheme \<Rightarrow> uint_t \<times> 'a lkstate_scheme" where
  "test_and_set l s =
     (lk_locked (locks s l), s\<lparr>locks := (locks s)(l := (locks s l)\<lparr>lk_locked := 1\<rparr>)\<rparr>)"

definition acquire_done :: "nat \<Rightarrow> lockid \<Rightarrow> 'a lkstate_scheme \<Rightarrow> 'a lkstate_scheme" where
  "acquire_done c l s = s\<lparr>locks := (locks s)(l := (locks s l)\<lparr>lk_cpu := Some c\<rparr>)\<rparr>"

definition acquire :: "nat \<Rightarrow> lockid \<Rightarrow> 'a lkstate_scheme \<Rightarrow> 'a lkstate_scheme option" where
  "acquire c l s = do {
     s \<leftarrow> acquire_enter c l s;
     let (old, s) = test_and_set l s;
     if old \<noteq> 0 then None  \<comment> \<open>spins until another CPU releases the lock\<close>
     else Some (acquire_done c l s)
   }"

text \<open>The atomic pieces of \<open>release\<close>: the ownership check and clearing the owner, the atomic
  store to the lock word.\<close>

definition release_enter :: "nat \<Rightarrow> lockid \<Rightarrow> 'a lkstate_scheme \<Rightarrow> 'a lkstate_scheme option" where
  "release_enter c l s =
     (if \<not> holding c l s then panic ''release''
      else Some (s\<lparr>locks := (locks s)(l := (locks s l)\<lparr>lk_cpu := None\<rparr>)\<rparr>))"

definition release_store :: "lockid \<Rightarrow> 'a lkstate_scheme \<Rightarrow> 'a lkstate_scheme" where
  "release_store l s = s\<lparr>locks := (locks s)(l := (locks s l)\<lparr>lk_locked := 0\<rparr>)\<rparr>"

definition release :: "nat \<Rightarrow> lockid \<Rightarrow> 'a lkstate_scheme \<Rightarrow> 'a lkstate_scheme option" where
  "release c l s = do {
     s \<leftarrow> release_enter c l s;
     let s = release_store l s;
     pop_off c s
   }"

lemmas spin_defs = intr_get_def intr_on_def intr_off_def push_off_def pop_off_def holding_def
  acquire_enter_def test_and_set_def acquire_done_def release_enter_def release_store_def Let_def

section \<open>All CPUs at once\<close>

text \<open>Where a CPU is in the two routines: outside (\<open>Run\<close>), spinning on a lock, past the swap
  but not yet recorded as owner, past clearing the owner but not yet past the store, about to
  call \<open>pop_off\<close>.\<close>

datatype pc = Run | Spin lockid | Got lockid | Rel lockid | Pop

record machine = lkstate +
  pcs :: "nat \<Rightarrow> pc"

definition goto :: "nat \<Rightarrow> pc \<Rightarrow> machine \<Rightarrow> machine" where
  "goto c p m = m\<lparr>pcs := (pcs m)(c := p)\<rparr>"

inductive lock_step :: "machine \<Rightarrow> machine \<Rightarrow> bool" where
  enter: "pcs m c = Run \<Longrightarrow> acquire_enter c l m = Some m' \<Longrightarrow> lock_step m (goto c (Spin l) m')"
| spin: "pcs m c = Spin l \<Longrightarrow> test_and_set l m = (old, m') \<Longrightarrow> old \<noteq> 0 \<Longrightarrow> lock_step m m'"
| swap: "pcs m c = Spin l \<Longrightarrow> test_and_set l m = (0, m') \<Longrightarrow> lock_step m (goto c (Got l) m')"
| own: "pcs m c = Got l \<Longrightarrow> lock_step m (goto c Run (acquire_done c l m))"
| leave: "pcs m c = Run \<Longrightarrow> release_enter c l m = Some m' \<Longrightarrow> lock_step m (goto c (Rel l) m')"
| store: "pcs m c = Rel l \<Longrightarrow> lock_step m (goto c Pop (release_store l m))"
| pop: "pcs m c = Pop \<Longrightarrow> pop_off c m = Some m' \<Longrightarrow> lock_step m (goto c Run m')"
| irq: "pcs m c = Run \<Longrightarrow> noff (cpus m c) = 0 \<Longrightarrow> lock_step m (m\<lparr>sie := (sie m)(c := b)\<rparr>)"

definition machine_init :: machine where
  "machine_init =
     \<lparr>locks = (\<lambda>_. \<lparr>lk_locked = 0, lk_name = '''', lk_cpu = None\<rparr>),
      cpus = (\<lambda>_. \<lparr>noff = 0, intena = False\<rparr>), sie = (\<lambda>_. False), pcs = (\<lambda>_. Run)\<rparr>"

inductive lock_reach :: "machine \<Rightarrow> bool" where
  start: "lock_reach machine_init"
| step: "lock_reach m \<Longrightarrow> lock_step m m' \<Longrightarrow> lock_reach m'"

text \<open>A CPU is inside the section of lock \<open>l\<close> from its successful swap to its store.\<close>

definition inside :: "machine \<Rightarrow> nat \<Rightarrow> lockid \<Rightarrow> bool" where
  "inside m c l \<longleftrightarrow> pcs m c = Got l \<or> pcs m c = Rel l \<or> lk_cpu (locks m l) = Some c"

definition recorded :: "'a lkstate_scheme \<Rightarrow> nat \<Rightarrow> lockid set" where
  "recorded m c = {l. lk_cpu (locks m l) = Some c}"

text \<open>The lock invariant names the owner of every lock: the lock word is set exactly when there
  is an owner, the owner is the only CPU inside, and while the owner is between swap and
  bookkeeping no owner is recorded in the lock.\<close>

definition owned_by :: "machine \<Rightarrow> lockid \<Rightarrow> nat option \<Rightarrow> bool" where
  "owned_by m l own \<longleftrightarrow>
     (lk_locked (locks m l) \<noteq> 0 \<longleftrightarrow> own \<noteq> None) \<and>
     (\<forall>c. inside m c l \<longleftrightarrow> own = Some c) \<and>
     (\<forall>c. pcs m c = Got l \<or> pcs m c = Rel l \<longrightarrow> lk_cpu (locks m l) = None)"

definition lock_inv :: "machine \<Rightarrow> bool" where
  "lock_inv m \<longleftrightarrow> (\<forall>l. \<exists>own. owned_by m l own)"

definition intr_inv :: "machine \<Rightarrow> bool" where
  "intr_inv m \<longleftrightarrow>
     (\<forall>c. finite (recorded m c)) \<and>
     (\<forall>c. noff (cpus m c) = int (card (recorded m c)) + (if pcs m c = Run then 0 else 1)) \<and>
     (\<forall>c. noff (cpus m c) > 0 \<longrightarrow> \<not> sie m c)"

lemma goto_simps [simp]:
  "locks (goto c p m) = locks m" "cpus (goto c p m) = cpus m" "sie (goto c p m) = sie m"
  "pcs (goto c p m) = (pcs m)(c := p)"
  by (simp_all add: goto_def)

text \<open>What each piece changes.\<close>

lemma acquire_enter_SomeD:
  assumes "acquire_enter c l m = Some m'"
  shows "locks m' = locks m \<and> m' = push_off c m \<and> \<not> holding c l m"
  using assms by (auto simp: spin_defs split: if_splits)

lemma push_off_simps [simp]:
  "locks (push_off c m) = locks m"
  "noff (cpus (push_off c m) d) = noff (cpus m d) + (if d = c then 1 else 0)"
  "sie (push_off c m) = (sie m)(c := False)"
  by (simp_all add: spin_defs)

lemma push_off_pcs [simp]: "pcs (push_off c m) = pcs m"
  by (simp add: spin_defs)

lemma pop_off_SomeD:
  assumes "pop_off c m = Some m'"
  shows "locks m' = locks m \<and> noff (cpus m' d) = noff (cpus m d) - (if d = c then 1 else 0)
    \<and> (d \<noteq> c \<longrightarrow> sie m' d = sie m d) \<and> (noff (cpus m' c) > 0 \<longrightarrow> \<not> sie m' c)"
  using assms by (auto simp: spin_defs split: if_splits)

lemma pop_off_pcs: "pop_off c m = Some m' \<Longrightarrow> pcs m' = pcs m"
  by (auto simp: spin_defs split: if_splits)

lemma owned_by_cong:
  "locks m' l = locks m l \<Longrightarrow>
    (\<And>d. (pcs m' d = Got l \<or> pcs m' d = Rel l) = (pcs m d = Got l \<or> pcs m d = Rel l)) \<Longrightarrow>
    owned_by m' l = owned_by m l"
  by (auto simp: owned_by_def inside_def fun_eq_iff)

lemma lock_inv_inside: "lock_inv m \<Longrightarrow> inside m c l \<Longrightarrow> owned_by m l (Some c)"
  unfolding lock_inv_def owned_by_def by metis

text \<open>A step touches the words of one lock at most.\<close>

lemma lock_invI:
  assumes "lock_inv m" and "owned_by m' k own"
    and "\<And>l. l \<noteq> k \<Longrightarrow> locks m' l = locks m l"
    and "\<And>l d. l \<noteq> k \<Longrightarrow>
      (pcs m' d = Got l \<or> pcs m' d = Rel l) = (pcs m d = Got l \<or> pcs m d = Rel l)"
  shows "lock_inv m'"
  using assms owned_by_cong unfolding lock_inv_def by (metis (no_types))

lemma lock_step_inv: "lock_step m m' \<Longrightarrow> lock_inv m \<Longrightarrow> lock_inv m'"
proof (induction rule: lock_step.induct)
  case (enter m c l m')
  have "owned_by (goto c (Spin l) m') k = owned_by m k" for k
    using enter by (intro owned_by_cong) (auto dest: acquire_enter_SomeD)
  then show ?case using enter by (simp add: lock_inv_def)
next
  case (spin m c l old m')
  then obtain own where "owned_by m l own" by (auto simp: lock_inv_def)
  with spin have "owned_by m' l own"
    by (auto simp: owned_by_def inside_def spin_defs)
  with spin show ?case
    by (elim lock_invI) (auto simp: spin_defs)
next
  case (swap m c l m')
  then obtain own where "owned_by m l own" by (auto simp: lock_inv_def)
  with swap have "owned_by (goto c (Got l) m') l (Some c)"
    by (cases "lk_cpu (locks m l)") (auto simp: owned_by_def inside_def spin_defs)
  with swap show ?case
    by (elim lock_invI) (auto simp: spin_defs)
next
  case (own m c l)
  then have "owned_by m l (Some c)"
    by (intro lock_inv_inside) (auto simp: inside_def spin_defs split: if_splits)
  with own have "owned_by (goto c Run (acquire_done c l m)) l (Some c)"
    by (auto simp: owned_by_def inside_def spin_defs)
  with own show ?case
    by (elim lock_invI) (auto simp: spin_defs)
next
  case (leave m c l m')
  then have "owned_by m l (Some c)"
    by (intro lock_inv_inside) (auto simp: inside_def spin_defs split: if_splits)
  with leave have "owned_by (goto c (Rel l) m') l (Some c)"
    by (auto simp: owned_by_def inside_def spin_defs split: if_splits)
  with leave show ?case
    by (elim lock_invI) (auto simp: spin_defs split: if_splits)
next
  case (store m c l)
  then have "owned_by m l (Some c)"
    by (intro lock_inv_inside) (auto simp: inside_def spin_defs split: if_splits)
  with store have "owned_by (goto c Pop (release_store l m)) l None"
    by (auto simp: owned_by_def inside_def spin_defs)
  with store show ?case
    by (elim lock_invI) (auto simp: spin_defs)
next
  case (pop m c m')
  have "owned_by (goto c Run m') k = owned_by m k" for k
    using pop by (intro owned_by_cong) (auto dest: pop_off_SomeD pop_off_pcs)
  then show ?case using pop by (simp add: lock_inv_def)
next
  case (irq m c b)
  have "owned_by (m\<lparr>sie := (sie m)(c := b)\<rparr>) k = owned_by m k" for k
    by (intro owned_by_cong) auto
  then show ?case using irq by (simp add: lock_inv_def)
qed

text \<open>The interrupt invariant: a CPU's nesting depth is the number of locks it is recorded to own,
  plus one while it is inside \<open>acquire\<close> or \<open>release\<close>; while it is positive, interrupts are off.\<close>

lemma recorded_goto [simp]: "recorded (goto c p m) d = recorded m d"
  by (simp add: recorded_def)

lemma recorded_locks: "locks m' = locks m \<Longrightarrow> recorded m' c = recorded m c"
  by (simp add: recorded_def)

lemma recorded_unlocked:
  "(\<And>l. lk_cpu (locks m' l) = lk_cpu (locks m l)) \<Longrightarrow> recorded m' c = recorded m c"
  by (simp add: recorded_def)

lemma recorded_done:
  assumes "lk_cpu (locks m l) = None"
  shows "recorded (acquire_done c l m) d = (if d = c then insert l (recorded m d) else recorded m d)"
    and "l \<notin> recorded m d"
  using assms by (auto simp: recorded_def spin_defs split: if_splits)

lemma recorded_release:
  assumes "release_enter c l m = Some m'"
  shows "recorded m' d = (if d = c then recorded m d - {l} else recorded m d)" and "l \<in> recorded m c"
  using assms by (auto simp: recorded_def spin_defs split: if_splits)

lemma lock_step_intr:
  "lock_step m m' \<Longrightarrow> lock_inv m \<Longrightarrow> intr_inv m \<Longrightarrow> intr_inv m'"
proof (induction rule: lock_step.induct)
  case (enter m c l m')
  then have "m' = push_off c m" by (auto dest: acquire_enter_SomeD)
  moreover have "recorded (push_off c m) d = recorded m d" for d by (simp add: recorded_def)
  ultimately show ?case using enter by (auto simp: intr_inv_def)
next
  case (spin m c l old m')
  then have "recorded m' d = recorded m d" "cpus m' = cpus m" "sie m' = sie m" "pcs m' = pcs m" for d
    by (auto simp: spin_defs recorded_def split: if_splits)
  with spin show ?case by (simp add: intr_inv_def)
next
  case (swap m c l m')
  then have "recorded m' d = recorded m d" "cpus m' = cpus m" "sie m' = sie m" "pcs m' = pcs m" for d
    by (auto simp: spin_defs recorded_def split: if_splits)
  with swap show ?case by (auto simp: intr_inv_def)
next
  case (own m c l)
  then have free: "lk_cpu (locks m l) = None"
    by (auto simp: lock_inv_def owned_by_def)
  have "cpus (acquire_done c l m) = cpus m" "sie (acquire_done c l m) = sie m"
    "pcs (acquire_done c l m) = pcs m"
    by (simp_all add: acquire_done_def)
  with own recorded_done [OF free] show ?case by (auto simp: intr_inv_def)
next
  case (leave m c l m')
  then have "cpus m' = cpus m" "sie m' = sie m" "pcs m' = pcs m"
    by (auto simp: spin_defs split: if_splits)
  moreover have "int (card (recorded m c)) = int (card (recorded m c - {l})) + 1"
    using leave card.remove [OF _ recorded_release(2) [OF leave.hyps(2)]]
    by (simp add: intr_inv_def)
  ultimately show ?case
    using leave recorded_release(1) [OF leave.hyps(2)] by (auto simp: intr_inv_def)
next
  case (store m c l)
  have "recorded (release_store l m) d = recorded m d" "cpus (release_store l m) = cpus m"
    "sie (release_store l m) = sie m" "pcs (release_store l m) = pcs m" for d
    by (auto simp: spin_defs recorded_def split: if_splits)
  with store show ?case by (auto simp: intr_inv_def)
next
  case (pop m c m')
  note D = pop_off_SomeD [OF pop.hyps(2)] and P = pop_off_pcs [OF pop.hyps(2)]
  have R: "recorded m' d = recorded m d" for d using D by (simp add: recorded_def)
  show ?case unfolding intr_inv_def
  proof (intro conjI allI)
    fix d
    show "finite (recorded (goto c Run m') d)"
      using pop.prems by (simp add: R intr_inv_def)
    show "noff (cpus (goto c Run m') d) = int (card (recorded (goto c Run m') d))
        + (if pcs (goto c Run m') d = Run then 0 else 1)"
      using pop D [of d] by (simp add: R P intr_inv_def)
    show "0 < noff (cpus (goto c Run m') d) \<longrightarrow> \<not> sie (goto c Run m') d"
      using pop.prems D [of d] by (auto simp: intr_inv_def split: if_splits)
  qed
next
  case (irq m c b)
  have "recorded (m\<lparr>sie := (sie m)(c := b)\<rparr>) d = recorded m d" for d
    by (simp add: recorded_def)
  with irq show ?case by (auto simp: intr_inv_def)
qed

lemma lock_reach_inv: "lock_reach m \<Longrightarrow> lock_inv m \<and> intr_inv m"
proof (induction rule: lock_reach.induct)
  case start
  show ?case
    by (auto simp: lock_inv_def owned_by_def inside_def intr_inv_def machine_init_def recorded_def)
next
  case (step m m')
  then show ?case by (blast intro: lock_step_inv lock_step_intr)
qed

text \<open>C2.  Mutual exclusion and interrupt safety of the spin locks, for any number of CPUs and any
  interleaving of their atomic steps: at most one CPU is between its successful swap and its
  releasing store on a given lock; that CPU has interrupts disabled, so no handler on it can try
  to take the lock again; and its \<open>pop_off\<close> never panics.\<close>

theorem spinlock_mutual_exclusion:
  assumes "lock_reach m" and "inside m c l"
  shows "(\<forall>d. inside m d l \<longrightarrow> d = c) \<and> lk_locked (locks m l) \<noteq> 0 \<and> \<not> sie m c
    \<and> (pcs m c = Pop \<longrightarrow> pop_off c m \<noteq> None)"
proof -
  from assms(1) have inv: "lock_inv m" "intr_inv m" by (auto dest: lock_reach_inv)
  from inv(1) assms(2) have "\<forall>d. inside m d l \<longrightarrow> d = c" "lk_locked (locks m l) \<noteq> 0"
    unfolding lock_inv_def owned_by_def by (metis option.distinct(1) option.inject)+
  moreover have pos: "0 < noff (cpus m c)"
  proof (cases "pcs m c = Run")
    case True
    with assms(2) have "l \<in> recorded m c" by (simp add: inside_def recorded_def)
    with inv(2) show ?thesis by (auto simp: intr_inv_def card_gt_0_iff intro: add_pos_nonneg)
  next
    case False
    with inv(2) show ?thesis by (auto simp: intr_inv_def)
  qed
  moreover from pos inv(2) have "\<not> sie m c" by (auto simp: intr_inv_def)
  ultimately show ?thesis by (simp add: spin_defs)
qed

lemma lock_reach_example:
  "lock_reach (goto 1 (Got KmemLock)
     (snd (test_and_set KmemLock (goto 1 (Spin KmemLock) (push_off 1 machine_init)))))"
proof (rule lock_reach.step [OF lock_reach.step [OF lock_reach.start]])
  show "lock_step machine_init (goto 1 (Spin KmemLock) (push_off 1 machine_init))"
    by (rule lock_step.enter) (simp_all add: acquire_enter_def holding_def machine_init_def Let_def)
  show "lock_step (goto 1 (Spin KmemLock) (push_off 1 machine_init)) (goto 1 (Got KmemLock)
     (snd (test_and_set KmemLock (goto 1 (Spin KmemLock) (push_off 1 machine_init)))))"
    by (rule lock_step.swap) (simp_all add: test_and_set_def machine_init_def)
qed

theorem spinlock_mutual_exclusion_witness:
  "let m = goto 1 (Got KmemLock)
      (snd (test_and_set KmemLock (goto 1 (Spin KmemLock) (push_off 1 machine_init))))
   in inside m 1 KmemLock \<and> \<not> sie m 1"
proof -
  have "inside (goto 1 (Got KmemLock)
     (snd (test_and_set KmemLock (goto 1 (Spin KmemLock) (push_off 1 machine_init))))) 1 KmemLock"
    by (simp add: inside_def)
  from this spinlock_mutual_exclusion [OF lock_reach_example this] show ?thesis
    by (simp only: Let_def simp_thms)
qed

section \<open>The contract of the locks\<close>

text \<open>\<open>avail l s\<close>: nobody holds \<open>l\<close>; \<open>held s\<close>: the locks this thread holds.\<close>

locale lock_spec =
  fixes acq :: "'l \<Rightarrow> 's \<Rightarrow> 's option"
    and rel :: "'l \<Rightarrow> 's \<Rightarrow> 's option"
    and held :: "'s \<Rightarrow> 'l set"
    and avail :: "'l \<Rightarrow> 's \<Rightarrow> bool"
    and invar :: "'s \<Rightarrow> bool"
  assumes acq_avail: "invar s \<Longrightarrow> avail l s \<Longrightarrow>
      runs (acq l s) (\<lambda>t. invar t \<and> held t = insert l (held s) \<and> (\<forall>k. avail k t \<longleftrightarrow> avail k s \<and> k \<noteq> l))"
    and acq_held: "invar s \<Longrightarrow> l \<in> held s \<Longrightarrow> acq l s = None"
    and rel_held: "invar s \<Longrightarrow> l \<in> held s \<Longrightarrow>
      runs (rel l s) (\<lambda>t. invar t \<and> held t = held s - {l} \<and> (\<forall>k. avail k t \<longleftrightarrow> avail k s \<or> k = l))"
    and rel_not_held: "invar s \<Longrightarrow> l \<notin> held s \<Longrightarrow> rel l s = None"
    and held_not_avail: "invar s \<Longrightarrow> l \<in> held s \<Longrightarrow> \<not> avail l s"
begin

lemma critical_section:
  assumes "invar s" and "avail l s"
    and "\<And>t. invar t \<Longrightarrow> held t = insert l (held s) \<Longrightarrow>
      runs (body t) (\<lambda>u. invar u \<and> held u = held t \<and> (\<forall>k. avail k u = avail k t))"
  shows "runs (do {t \<leftarrow> acq l s; u \<leftarrow> body t; rel l u})
    (\<lambda>t. invar t \<and> held t = held s \<and> (\<forall>k. avail k t = avail k s))"
proof -
  have l: "l \<notin> held s" using assms(1,2) held_not_avail by blast
  have "runs (do {u \<leftarrow> body t; rel l u}) (\<lambda>t. invar t \<and> held t = held s \<and> (\<forall>k. avail k t = avail k s))"
    if "invar t" "held t = insert l (held s)" "\<forall>k. avail k t \<longleftrightarrow> avail k s \<and> k \<noteq> l" for t
  proof -
    have "runs (rel l u) (\<lambda>v. invar v \<and> held v = held s \<and> (\<forall>k. avail k v = avail k s))"
      if "invar u" "held u = held t" "\<forall>k. avail k u = avail k t" for u
      using rel_held [of u l] that \<open>held t = _\<close> \<open>\<forall>k. avail k t \<longleftrightarrow> _\<close> l assms(2)
      by (auto elim!: runs_mono)
    with assms(3) [OF that(1,2)] show ?thesis by (auto elim: runs_mono)
  qed
  with acq_avail [OF assms(1,2)] show ?thesis by (auto elim!: runs_mono)
qed

lemma acquire_twice_panics:
  "invar s \<Longrightarrow> avail l s \<Longrightarrow> do {t \<leftarrow> acq l s; acq l t} = None"
  using acq_avail [of s l] acq_held by (auto elim!: runsE)

end

text \<open>The lock set the other components use.\<close>

record lock_state =
  held :: "lockid set"

definition acq :: "lockid \<Rightarrow> 'a lock_state_scheme \<Rightarrow> 'a lock_state_scheme option" where
  "acq l s = (if l \<in> held s then panic ''acquire'' else Some (s\<lparr>held := insert l (held s)\<rparr>))"

definition rel :: "lockid \<Rightarrow> 'a lock_state_scheme \<Rightarrow> 'a lock_state_scheme option" where
  "rel l s = (if l \<notin> held s then panic ''release'' else Some (s\<lparr>held := held s - {l}\<rparr>))"

interpretation lock_set: lock_spec acq rel held "\<lambda>l s. l \<notin> held s" "\<lambda>_. True"
  by unfold_locales (auto simp: acq_def rel_def panic_def)

text \<open>The state of one CPU's locks between two calls.\<close>

definition cpu_inv :: "nat \<Rightarrow> 'a lkstate_scheme \<Rightarrow> bool" where
  "cpu_inv c s \<longleftrightarrow> finite (recorded s c) \<and> noff (cpus s c) = int (card (recorded s c)) \<and>
     (noff (cpus s c) > 0 \<longrightarrow> \<not> sie s c) \<and>
     (\<forall>l. lk_locked (locks s l) = 0 \<longrightarrow> lk_cpu (locks s l) = None)"

lemma holding_recorded: "cpu_inv c s \<Longrightarrow> holding c l s \<longleftrightarrow> l \<in> recorded s c"
  by (auto simp: cpu_inv_def holding_def recorded_def)

lemma acquire_free:
  assumes "cpu_inv c s" and "lk_locked (locks s l) = 0"
  shows "runs (acquire c l s) (\<lambda>t. cpu_inv c t \<and> recorded t c = insert l (recorded s c)
    \<and> (\<forall>k. lk_locked (locks t k) = 0 \<longleftrightarrow> lk_locked (locks s k) = 0 \<and> k \<noteq> l))"
proof -
  let ?t = "acquire_done c l (snd (test_and_set l (push_off c s)))"
  have free: "lk_cpu (locks s l) = None" using assms by (simp add: cpu_inv_def)
  have "acquire c l s = Some ?t"
    using assms(2) by (simp add: acquire_def acquire_enter_def holding_def test_and_set_def Let_def)
  moreover have rec: "recorded ?t c = insert l (recorded s c)"
    using free by (auto simp: recorded_def acquire_done_def test_and_set_def)
  moreover have "l \<notin> recorded s c" using free by (simp add: recorded_def)
  moreover have "noff (cpus ?t c) = noff (cpus s c) + 1" "sie ?t c = False"
    by (simp_all add: acquire_done_def test_and_set_def)
  moreover have "locks ?t = (locks s)(l := (locks s l)\<lparr>lk_locked := 1, lk_cpu := Some c\<rparr>)"
    by (simp add: acquire_done_def test_and_set_def)
  ultimately show ?thesis using assms(1) by (simp add: cpu_inv_def)
qed

lemma release_held:
  assumes "cpu_inv c s" and "l \<in> recorded s c"
  shows "runs (release c l s) (\<lambda>t. cpu_inv c t \<and> recorded t c = recorded s c - {l}
    \<and> (\<forall>k. lk_locked (locks t k) = 0 \<longleftrightarrow> lk_locked (locks s k) = 0 \<or> k = l))"
proof -
  from assms have hold: "holding c l s" by (simp add: holding_recorded)
  let ?u = "release_store l (s\<lparr>locks := (locks s)(l := (locks s l)\<lparr>lk_cpu := None\<rparr>)\<rparr>)"
  have fin: "finite (recorded s c)" and card: "noff (cpus s c) = int (card (recorded s c))"
    using assms(1) by (simp_all add: cpu_inv_def)
  have pos: "0 < card (recorded s c)" using assms(2) fin by (auto simp: card_gt_0_iff)
  then have "\<not> sie s c" using assms(1) by (simp add: cpu_inv_def)
  then obtain t where t: "pop_off c ?u = Some t"
    using card pos by (auto simp: spin_defs)
  from pop_off_SomeD [OF t, of c] have D: "locks t = locks ?u" "noff (cpus t c) = noff (cpus s c) - 1"
      "noff (cpus t c) > 0 \<longrightarrow> \<not> sie t c"
    by (simp_all add: release_store_def)
  have locks_t: "locks t = (locks s)(l := (locks s l)\<lparr>lk_cpu := None, lk_locked := 0\<rparr>)"
    by (simp add: D(1) release_store_def)
  have rec: "recorded t c = recorded s c - {l}"
    by (auto simp: recorded_def locks_t split: if_splits)
  have "release c l s = Some t"
    using hold t by (simp add: release_def release_enter_def Let_def)
  moreover have "cpu_inv c t"
    using assms D(2,3) card pos fin
    by (auto simp: cpu_inv_def rec locks_t card_Diff_singleton Suc_leI)
  ultimately show ?thesis by (auto simp: rec locks_t)
qed

interpretation spin: lock_spec "acquire c" "release c" "\<lambda>s. recorded s c"
    "\<lambda>l s. lk_locked (locks s l) = 0" "cpu_inv c"
proof
  show "runs (acquire c l s) (\<lambda>t. cpu_inv c t \<and> recorded t c = insert l (recorded s c)
    \<and> (\<forall>k. lk_locked (locks t k) = 0 \<longleftrightarrow> lk_locked (locks s k) = 0 \<and> k \<noteq> l))"
    if "cpu_inv c s" "lk_locked (locks s l) = 0" for s l
    using that by (rule acquire_free)
  show "acquire c l s = None" if "cpu_inv c s" "l \<in> recorded s c" for s l
    using that by (simp add: acquire_def acquire_enter_def holding_recorded holding_def
        cpu_inv_def recorded_def Let_def) (auto simp: panic_def)
  show "runs (release c l s) (\<lambda>t. cpu_inv c t \<and> recorded t c = recorded s c - {l}
    \<and> (\<forall>k. lk_locked (locks t k) = 0 \<longleftrightarrow> lk_locked (locks s k) = 0 \<or> k = l))"
    if "cpu_inv c s" "l \<in> recorded s c" for s l
    using that by (rule release_held)
  show "release c l s = None" if "cpu_inv c s" "l \<notin> recorded s c" for s l
    using that by (simp add: release_def release_enter_def holding_recorded)
  show "lk_locked (locks s l) \<noteq> 0" if "cpu_inv c s" "l \<in> recorded s c" for s l
    using that by (auto simp: cpu_inv_def recorded_def)
qed

end
