(* ===== verification/Sched.thy ===== *)
theory Sched
  imports Spinlock
begin

text \<open>
  \<^verbatim>\<open>kernel/proc.h\<close> and the scheduling half of \<^verbatim>\<open>kernel/proc.c\<close>: the process table,
  the multi-level feedback queue (\<open>qinit\<close>, \<open>push_proc\<close>, \<open>pop_proc\<close>, \<open>SC_MLFQ\<close>, \<open>event_tick\<close>),
  \<open>sched\<close>, \<open>yield\<close>, \<open>sleep\<close>, \<open>wakeup\<close>, \<open>kkill\<close> and the killed flag.

  A pointer into \<^verbatim>\<open>proc[]\<close> is its index; a null pointer is \<^term>\<open>None\<close>.  Control that leaves
  a thread through \<open>swtch\<close> is a result \<open>Switched\<close>: the state is then the one in which the
  scheduler of that CPU has finished its turn (\<open>c->proc = 0; release(&p->lock)\<close>).  What the thread
  does when it is next scheduled is a function of its own (\<open>yield_resume\<close>, \<open>sleep_resume\<close>).
\<close>

section \<open>Constants and data\<close>

definition NPROC :: nat where "NPROC = 64"
definition NCPU :: nat where "NCPU = 8"
definition NOFILE :: nat where "NOFILE = 16"
definition LEVELS :: nat where "LEVELS = 4"

datatype procstate = UNUSED | USED | SLEEPING | RUNNABLE | RUNNING | ZOMBIE

text \<open>Sleep channels: the addresses the kernel sleeps on.\<close>

datatype chan =
    ChanProc nat | ChanTicks | ChanLog | ChanPipeRead uint64 | ChanPipeWrite uint64
  | ChanCons | ChanTx | ChanBuf nat | ChanDiskFree | ChanBufLock nat | ChanInodeLock nat

record kcontext =
  ctx_ra :: uint64
  ctx_sp :: uint64
  ctx_s :: "uint64 list"

record proc =
  p_state :: procstate
  p_chan :: "chan option"
  p_killed :: int
  p_xstate :: int
  p_pid :: int
  p_sysCount :: int
  p_pticks :: int
  p_qticks :: "nat \<Rightarrow> int"
  p_tsched :: int
  p_dSysCount :: int
  p_qlevel :: nat
  p_parent :: "nat option"
  p_kstack :: uint64
  p_sz :: uint64
  p_pagetable :: uint64
  p_trapframe :: uint64
  p_context :: kcontext
  p_ofile :: "nat \<Rightarrow> nat option"
  p_cwd :: "nat option"
  p_name :: "uint8 list"
  p_page_faults :: int
  p_page_evicted :: int
  p_pages_swapped_in :: int
  p_pages_swapped_out :: int
  p_resident_pages :: int

record queue =
  q_proc :: "nat \<Rightarrow> nat option"
  q_tail :: nat

record sched_state = lock_state +
  procs :: "nat \<Rightarrow> proc"
  pqueue :: "nat \<Rightarrow> queue"
  ticks_max :: "nat \<Rightarrow> int"
  cpu_proc :: "nat \<Rightarrow> nat option"
  tp :: nat
  initproc :: "nat option"
  nextpid :: int
  ticks :: uint_t
  last_mod128 :: uint_t

definition upd_proc :: "nat \<Rightarrow> (proc \<Rightarrow> proc) \<Rightarrow> 'a sched_state_scheme \<Rightarrow> 'a sched_state_scheme" where
  "upd_proc i f s = s\<lparr>procs := (procs s)(i := f (procs s i))\<rparr>"

definition upd_queue :: "nat \<Rightarrow> (queue \<Rightarrow> queue) \<Rightarrow> 'a sched_state_scheme \<Rightarrow> 'a sched_state_scheme" where
  "upd_queue l f s = s\<lparr>pqueue := (pqueue s)(l := f (pqueue s l))\<rparr>"

definition myproc :: "'a sched_state_scheme \<Rightarrow> nat option" where
  "myproc s = cpu_proc s (tp s)"

datatype flow = Returned | Switched

section \<open>The queues\<close>

definition qinit :: "'a sched_state_scheme \<Rightarrow> 'a sched_state_scheme" where
  "qinit s =
     (let s = fold (\<lambda>i. upd_queue i (q_tail_update (\<lambda>_. 0))) [0..<LEVELS] s;
          s = s\<lparr>ticks_max := (ticks_max s)(0 := 2)\<rparr>
      in fold (\<lambda>i s. s\<lparr>ticks_max := (ticks_max s)(i := ticks_max s (i - 1) * 2)\<rparr>) [1..<LEVELS] s)"

definition queue_push :: "nat \<Rightarrow> queue \<Rightarrow> queue" where
  "queue_push p q =
     (if q_tail q < NPROC
      then q\<lparr>q_proc := (q_proc q)(q_tail q := Some p), q_tail := q_tail q + 1\<rparr> else q)"

definition push_proc :: "nat \<Rightarrow> 'a sched_state_scheme \<Rightarrow> 'a sched_state_scheme option" where
  "push_proc p s = do {
     let level = p_qlevel (procs s p);
     check (level < LEVELS);
     s \<leftarrow> acq (QueueLock level) s;
     let s = upd_queue level (queue_push p) s;
     rel (QueueLock level) s
   }"

definition queue_pop :: "queue \<Rightarrow> queue" where
  "queue_pop q =
     (if q_tail q < 1 then q
      else
        let a = fold (\<lambda>i a. a(i - 1 := a i)) [1..<q_tail q] (q_proc q)
        in q\<lparr>q_proc := a, q_tail := q_tail q - 1\<rparr>)"

definition pop_proc :: "nat \<Rightarrow> 'a sched_state_scheme \<Rightarrow> 'a sched_state_scheme" where
  "pop_proc level s = upd_queue level queue_pop s"

text \<open>The processes a queue holds, head first.\<close>

definition qlist :: "queue \<Rightarrow> nat list" where
  "qlist q = map (\<lambda>i. the (q_proc q i)) [0..<q_tail q]"

section \<open>The scheduler\<close>

text \<open>The global boost of \<open>SC_MLFQ\<close> (every 128 ticks, on CPU 0): all queues are emptied, then every
  process that is neither free, a zombie nor asleep restarts at level 0.\<close>

definition boost_proc :: "nat \<Rightarrow> 'a sched_state_scheme \<Rightarrow> 'a sched_state_scheme option" where
  "boost_proc p s = do {
     s \<leftarrow> acq (ProcLock p) s;
     s \<leftarrow> (if p_state (procs s p) \<noteq> UNUSED \<and> p_state (procs s p) \<noteq> ZOMBIE
            \<and> p_state (procs s p) \<noteq> SLEEPING
          then do {
            let s = upd_proc p (\<lambda>x. x\<lparr>p_qlevel := 0, p_pticks := 0, p_dSysCount := p_sysCount x\<rparr>) s;
            s \<leftarrow> acq (QueueLock 0) s;
            let s = upd_queue 0 (queue_push p) s;
            rel (QueueLock 0) s
          }
          else Some s);
     rel (ProcLock p) s
   }"

definition clear_queue :: "nat \<Rightarrow> 'a sched_state_scheme \<Rightarrow> 'a sched_state_scheme option" where
  "clear_queue i s = do {
     s \<leftarrow> acq (QueueLock i) s;
     let s = upd_queue i (q_tail_update (\<lambda>_. 0)) s;
     rel (QueueLock i) s
   }"

definition mlfq_boost :: "'a sched_state_scheme \<Rightarrow> 'a sched_state_scheme option" where
  "mlfq_boost s = do {
     s \<leftarrow> acq TicksLock s;
     let gtick = ticks s;
     s \<leftarrow> rel TicksLock s;
     if tp s = 0 \<and> gtick > 0 \<and> gtick mod 128 = 0 \<and> gtick \<noteq> last_mod128 s
     then do {
       let s = s\<lparr>last_mod128 := gtick\<rparr>;
       s \<leftarrow> for_each clear_queue [0..<LEVELS] s;
       for_each boost_proc [0..<NPROC] s
     }
     else Some s
   }"

text \<open>The scan of \<open>SC_MLFQ\<close>: one entry per level is popped, in level order, until one is
  runnable; that one is dispatched with its lock held.\<close>

fun mlfq_scan :: "nat list \<Rightarrow> 'a sched_state_scheme \<Rightarrow> (nat option \<times> 'a sched_state_scheme) option" where
  "mlfq_scan [] s = Some (None, s)"
| "mlfq_scan (i # is) s = do {
     s \<leftarrow> acq (QueueLock i) s;
     if q_tail (pqueue s i) > 0
     then (case q_proc (pqueue s i) 0 of
         None \<Rightarrow> None  \<comment> \<open>a null pointer in the queue\<close>
       | Some p \<Rightarrow> do {
           let s = pop_proc i s;
           s \<leftarrow> rel (QueueLock i) s;
           s \<leftarrow> acq (ProcLock p) s;
           if p_state (procs s p) = RUNNABLE
           then
             let s = upd_proc p (\<lambda>x. x\<lparr>p_state := RUNNING\<rparr>) s;
                 s = s\<lparr>cpu_proc := (cpu_proc s)(tp s := Some p)\<rparr>;
                 s = upd_proc p (\<lambda>x. x\<lparr>p_tsched := p_tsched x + 1\<rparr>) s
             in Some (Some p, s)
           else do {
             s \<leftarrow> rel (ProcLock p) s;
             mlfq_scan is s
           }
         })
     else do {
       s \<leftarrow> rel (QueueLock i) s;
       mlfq_scan is s
     }
   }"

text \<open>One turn of \<open>SC_MLFQ\<close> up to its \<open>swtch\<close> (or up to \<open>wfi\<close>, result \<open>None\<close>).\<close>

definition SC_MLFQ :: "'a sched_state_scheme \<Rightarrow> (nat option \<times> 'a sched_state_scheme) option" where
  "SC_MLFQ s = do {
     s \<leftarrow> mlfq_boost s;
     mlfq_scan [0..<LEVELS] s
   }"

text \<open>The turn after \<open>swtch\<close> has come back from process \<open>p\<close>.\<close>

definition SC_MLFQ_back :: "nat \<Rightarrow> 'a sched_state_scheme \<Rightarrow> 'a sched_state_scheme option" where
  "SC_MLFQ_back p s = do {
     let s = s\<lparr>cpu_proc := (cpu_proc s)(tp s := None)\<rparr>;
     rel (ProcLock p) s
   }"

section \<open>Giving up the CPU\<close>

text \<open>\<open>sched\<close>: the checks, the switch, and the scheduler's half after it.  The nesting depth
  \<open>noff\<close> is the number of locks held, and interrupts are off while it is positive (theory
  \<open>Spinlock\<close>), so the test \<open>intr_get()\<close> cannot fire.\<close>

definition sched :: "'a sched_state_scheme \<Rightarrow> 'a sched_state_scheme option" where
  "sched s =
     (case myproc s of
       None \<Rightarrow> None
     | Some p \<Rightarrow>
         if ProcLock p \<notin> held s then panic ''sched p->lock''
         else if card (held s) \<noteq> 1 then panic ''sched locks''
         else if p_state (procs s p) = RUNNING then panic ''sched RUNNING''
         else SC_MLFQ_back p s)"

definition yield :: "'a sched_state_scheme \<Rightarrow> 'a sched_state_scheme option" where
  "yield s =
     (case myproc s of
       None \<Rightarrow> None
     | Some p \<Rightarrow> do {
         s \<leftarrow> acq (ProcLock p) s;
         let s = upd_proc p (\<lambda>x. x\<lparr>p_state := RUNNABLE\<rparr>) s;
         sched s
       })"

definition yield_resume :: "nat \<Rightarrow> 'a sched_state_scheme \<Rightarrow> 'a sched_state_scheme option" where
  "yield_resume p s = rel (ProcLock p) s"

text \<open>The scan of the higher-priority queues in \<open>event_tick\<close>.\<close>

fun higher_waiting :: "nat list \<Rightarrow> 'a sched_state_scheme \<Rightarrow> (bool \<times> 'a sched_state_scheme) option" where
  "higher_waiting [] s = Some (False, s)"
| "higher_waiting (i # is) s = do {
     s \<leftarrow> acq (QueueLock i) s;
     if q_tail (pqueue s i) \<noteq> 0
     then do { s \<leftarrow> rel (QueueLock i) s; Some (True, s) }
     else do { s \<leftarrow> rel (QueueLock i) s; higher_waiting is s }
   }"

definition event_tick :: "nat \<Rightarrow> 'a sched_state_scheme \<Rightarrow> (flow \<times> 'a sched_state_scheme) option" where
  "event_tick p s = do {
     s \<leftarrow> acq (ProcLock p) s;
     let s = upd_proc p (\<lambda>x. x\<lparr>p_pticks := p_pticks x + 1\<rparr>) s;
     let ptick = p_pticks (procs s p);
     let level = p_qlevel (procs s p);
     check (level < LEVELS);
     let s = upd_proc p (\<lambda>x. x\<lparr>p_qticks := (p_qticks x)(level := p_qticks x level + 1)\<rparr>) s;
     let delta_S = p_sysCount (procs s p) - p_dSysCount (procs s p);
     (should_yield, s) \<leftarrow>
       (if p_pticks (procs s p) \<ge> ticks_max s level
        then
          let s = upd_proc p (\<lambda>x. x\<lparr>p_pticks := 0, p_dSysCount := p_sysCount x\<rparr>) s;
              s = (if delta_S < ptick \<and> level < LEVELS - 1
                   then upd_proc p (\<lambda>x. x\<lparr>p_qlevel := p_qlevel x + 1\<rparr>) s else s)
          in Some (True, s)
        else higher_waiting [0..<level] s);
     if should_yield
     then do {
       let s = upd_proc p (\<lambda>x. x\<lparr>p_state := RUNNABLE\<rparr>) s;
       s \<leftarrow> push_proc p s;
       s \<leftarrow> sched s;
       Some (Switched, s)
     }
     else do { s \<leftarrow> rel (ProcLock p) s; Some (Returned, s) }
   }"

section \<open>Sleeping and waking\<close>

text \<open>\<open>sleep\<close> and the body of the loop of \<open>wakeup\<close> are given as sequences of atomic actions, so that theory \<open>Wakeup\<close>
  can interleave the actions of several CPUs; a call runs its sequence.\<close>

primrec run_code :: "('s \<Rightarrow> 's option) list \<Rightarrow> 's \<Rightarrow> 's option" where
  "run_code [] s = Some s"
| "run_code (a # as) s = do { s \<leftarrow> a s; run_code as s }"

definition sleep_code :: "chan \<Rightarrow> lockid \<Rightarrow> nat \<Rightarrow> ('a sched_state_scheme \<Rightarrow> 'a sched_state_scheme option) list" where
  "sleep_code chan lk p =
     [acq (ProcLock p),
      rel lk,
      \<lambda>s. Some (upd_proc p (\<lambda>x. x\<lparr>p_chan := Some chan\<rparr>) s),
      \<lambda>s. Some (upd_proc p (\<lambda>x. x\<lparr>p_state := SLEEPING\<rparr>) s),
      sched]"

definition sleep :: "chan \<Rightarrow> lockid \<Rightarrow> 'a sched_state_scheme \<Rightarrow> 'a sched_state_scheme option" where
  "sleep chan lk s =
     (case myproc s of
       None \<Rightarrow> None
     | Some p \<Rightarrow> run_code (sleep_code chan lk p) s)"

definition sleep_resume :: "nat \<Rightarrow> lockid \<Rightarrow> 'a sched_state_scheme \<Rightarrow> 'a sched_state_scheme option" where
  "sleep_resume p lk s = do {
     let s = upd_proc p (\<lambda>x. x\<lparr>p_chan := None\<rparr>) s;
     s \<leftarrow> rel (ProcLock p) s;
     acq lk s
   }"

definition wakeup_test :: "chan \<Rightarrow> nat \<Rightarrow> 'a sched_state_scheme \<Rightarrow> 'a sched_state_scheme option" where
  "wakeup_test chan p s =
     (if p_state (procs s p) = SLEEPING \<and> p_chan (procs s p) = Some chan
      then do {
        let s = upd_proc p (\<lambda>x. x\<lparr>p_state := RUNNABLE\<rparr>) s;
        push_proc p s
      }
      else Some s)"

definition wakeup_code :: "chan \<Rightarrow> nat \<Rightarrow> ('a sched_state_scheme \<Rightarrow> 'a sched_state_scheme option) list" where
  "wakeup_code chan p = [acq (ProcLock p), wakeup_test chan p, rel (ProcLock p)]"

definition wakeup1 :: "chan \<Rightarrow> nat \<Rightarrow> 'a sched_state_scheme \<Rightarrow> 'a sched_state_scheme option" where
  "wakeup1 chan p s =
     (if Some p \<noteq> myproc s then run_code (wakeup_code chan p) s else Some s)"

definition wakeup :: "chan \<Rightarrow> 'a sched_state_scheme \<Rightarrow> 'a sched_state_scheme option" where
  "wakeup chan s = for_each (wakeup1 chan) [0..<NPROC] s"

text \<open>\<open>kkill\<close>: the first slot with the given pid.\<close>

fun kkill_scan :: "int \<Rightarrow> nat list \<Rightarrow> 'a sched_state_scheme \<Rightarrow> (int \<times> 'a sched_state_scheme) option" where
  "kkill_scan pid [] s = Some (- 1, s)"
| "kkill_scan pid (p # ps) s = do {
     s \<leftarrow> acq (ProcLock p) s;
     if p_pid (procs s p) = pid
     then do {
       let s = upd_proc p (\<lambda>x. x\<lparr>p_killed := 1\<rparr>) s;
       let s = (if p_state (procs s p) = SLEEPING
                then upd_proc p (\<lambda>x. x\<lparr>p_state := RUNNABLE\<rparr>) s else s);
       s \<leftarrow> rel (ProcLock p) s;
       Some (0, s)
     }
     else do { s \<leftarrow> rel (ProcLock p) s; kkill_scan pid ps s }
   }"

definition kkill :: "int \<Rightarrow> 'a sched_state_scheme \<Rightarrow> (int \<times> 'a sched_state_scheme) option" where
  "kkill pid s = kkill_scan pid [0..<NPROC] s"

definition setkilled :: "nat \<Rightarrow> 'a sched_state_scheme \<Rightarrow> 'a sched_state_scheme option" where
  "setkilled p s = do {
     s \<leftarrow> acq (ProcLock p) s;
     let s = upd_proc p (\<lambda>x. x\<lparr>p_killed := 1\<rparr>) s;
     rel (ProcLock p) s
   }"

definition killed :: "nat \<Rightarrow> 'a sched_state_scheme \<Rightarrow> (int \<times> 'a sched_state_scheme) option" where
  "killed p s = do {
     s \<leftarrow> acq (ProcLock p) s;
     let k = p_killed (procs s p);
     s \<leftarrow> rel (ProcLock p) s;
     Some (k, s)
   }"

definition allocpid :: "'a sched_state_scheme \<Rightarrow> (int \<times> 'a sched_state_scheme) option" where
  "allocpid s = do {
     s \<leftarrow> acq PidLock s;
     let pid = nextpid s;
     let s = s\<lparr>nextpid := nextpid s + 1\<rparr>;
     s \<leftarrow> rel PidLock s;
     Some (pid, s)
   }"

section \<open>Queues are bounded FIFOs\<close>

text \<open>The contract of a run queue: enqueueing appends unless the queue is full, when it does
  nothing; dequeueing drops the head.\<close>

datatype 'a qop = Enq 'a | Deq

locale bounded_fifo =
  fixes enq :: "'a \<Rightarrow> 'q \<Rightarrow> 'q"
    and deq :: "'q \<Rightarrow> 'q"
    and contents :: "'q \<Rightarrow> 'a list"
    and cap :: nat
  assumes enq_room: "length (contents q) < cap \<Longrightarrow> contents (enq x q) = contents q @ [x]"
    and enq_full: "\<not> length (contents q) < cap \<Longrightarrow> contents (enq x q) = contents q"
    and deq_tl: "contents (deq q) = tl (contents q)"
begin

fun run_ops :: "'a qop list \<Rightarrow> 'q \<Rightarrow> 'q" where
  "run_ops [] q = q"
| "run_ops (Enq x # os) q = run_ops os (enq x q)"
| "run_ops (Deq # os) q = run_ops os (deq q)"

lemma enq_prefix: "\<exists>zs. contents (enq x q) = contents q @ zs"
  by (cases "length (contents q) < cap") (simp_all add: enq_room enq_full)

lemma enq_bound: "length (contents q) \<le> cap \<Longrightarrow> length (contents (enq x q)) \<le> cap"
  by (cases "length (contents q) < cap") (simp_all add: enq_room enq_full)

lemma no_overtaking:
  "contents q = ys @ x # zs \<Longrightarrow> count_list os Deq = length ys \<Longrightarrow>
     \<exists>us. contents (run_ops os q) = x # us"
proof (induction os q arbitrary: ys zs rule: run_ops.induct)
  case (2 y os q)
  obtain us where "contents (enq y q) = contents q @ us" using enq_prefix by blast
  with 2 show ?case by simp
next
  case (3 os q)
  then show ?case by (cases ys) (auto simp: deq_tl)
qed auto

end

lemma fold_shift:
  "fold (\<lambda>i a. a(i - 1 := a i)) [1..<n] a = (\<lambda>j. if j + 1 < n then a (j + 1) else a j)"
proof (induction n)
  case (Suc n)
  then show ?case by (cases "n = 0") (auto simp: fun_eq_iff)
qed simp

lemma length_qlist [simp]: "length (qlist q) = q_tail q"
  by (simp add: qlist_def)

lemma qlist_push:
  "qlist (queue_push p q) = (if q_tail q < NPROC then qlist q @ [p] else qlist q)"
  by (auto simp: queue_push_def qlist_def)

lemma qlist_pop: "qlist (queue_pop q) = tl (qlist q)"
proof (cases "q_tail q")
  case (Suc n)
  then have "qlist (queue_pop q) = map (\<lambda>j. the (q_proc q (Suc j))) [0..<n]"
    by (simp add: queue_pop_def qlist_def fold_shift [simplified] Let_def del: upt_Suc)
  moreover have "tl (qlist q) = map (\<lambda>j. the (q_proc q j)) [Suc 0..<Suc n]"
    using Suc by (simp add: qlist_def upt_conv_Cons map_tl [symmetric] del: upt_Suc)
  ultimately show ?thesis
    by (simp add: map_upt_shift del: upt_Suc)
qed (simp add: queue_pop_def qlist_def)

lemma qlist_clear [simp]: "qlist (q\<lparr>q_tail := 0\<rparr>) = []"
  by (simp add: qlist_def)

interpretation run_queue: bounded_fifo queue_push queue_pop qlist NPROC
  by unfold_locales (simp_all add: qlist_push qlist_pop)

text \<open>A queue is well formed when its slots below the tail hold pointers into the process table.\<close>

definition queue_ok :: "queue \<Rightarrow> bool" where
  "queue_ok q \<longleftrightarrow> q_tail q \<le> NPROC \<and> (\<forall>i < q_tail q. \<exists>p < NPROC. q_proc q i = Some p)"

lemma queue_ok_push: "queue_ok q \<Longrightarrow> p < NPROC \<Longrightarrow> queue_ok (queue_push p q)"
  by (auto simp: queue_ok_def queue_push_def less_Suc_eq)

lemma queue_ok_pop: "queue_ok q \<Longrightarrow> queue_ok (queue_pop q)"
  by (auto simp: queue_ok_def queue_pop_def fold_shift [simplified] Let_def)

lemma queue_ok_clear: "queue_ok (q\<lparr>q_tail := 0\<rparr>)"
  by (simp add: queue_ok_def)

lemma queue_ok_set: "queue_ok q \<Longrightarrow> p \<in> set (qlist q) \<Longrightarrow> p < NPROC"
  by (fastforce simp: queue_ok_def qlist_def)

lemma queue_ok_head:
  "queue_ok q \<Longrightarrow> 0 < q_tail q \<Longrightarrow> q_proc q 0 = Some (hd (qlist q))"
  by (force simp: queue_ok_def qlist_def hd_map)

section \<open>Bookkeeping lemmas\<close>

lemma upd_proc_simps [simp]:
  "procs (upd_proc i f s) = (procs s)(i := f (procs s i))"
  "pqueue (upd_proc i f s) = pqueue s" "held (upd_proc i f s) = held s"
  "ticks_max (upd_proc i f s) = ticks_max s" "cpu_proc (upd_proc i f s) = cpu_proc s"
  "tp (upd_proc i f s) = tp s" "initproc (upd_proc i f s) = initproc s"
  "ticks (upd_proc i f s) = ticks s" "last_mod128 (upd_proc i f s) = last_mod128 s"
  "nextpid (upd_proc i f s) = nextpid s"
  by (simp_all add: upd_proc_def)

lemma upd_queue_simps [simp]:
  "pqueue (upd_queue l g s) = (pqueue s)(l := g (pqueue s l))"
  "procs (upd_queue l g s) = procs s" "held (upd_queue l g s) = held s"
  "ticks_max (upd_queue l g s) = ticks_max s" "cpu_proc (upd_queue l g s) = cpu_proc s"
  "tp (upd_queue l g s) = tp s" "initproc (upd_queue l g s) = initproc s"
  "ticks (upd_queue l g s) = ticks s" "last_mod128 (upd_queue l g s) = last_mod128 s"
  "nextpid (upd_queue l g s) = nextpid s"
  by (simp_all add: upd_queue_def)

lemma acq_free: "l \<notin> held s \<Longrightarrow> acq l s = Some (s\<lparr>held := insert l (held s)\<rparr>)"
  by (simp add: acq_def)

lemma rel_held': "l \<in> held s \<Longrightarrow> rel l s = Some (s\<lparr>held := held s - {l}\<rparr>)"
  by (simp add: rel_def)

lemmas lock_simps = acq_free rel_held'

lemma held_restore: "l \<notin> held s \<Longrightarrow> s\<lparr>held := held s - {l}\<rparr> = s"
  by simp

lemma upd_queue_held [simp]:
  "upd_queue l g (s\<lparr>held := h\<rparr>) = (upd_queue l g s)\<lparr>held := h\<rparr>"
  by (simp add: upd_queue_def)

lemma upd_proc_held [simp]:
  "upd_proc i f (s\<lparr>held := h\<rparr>) = (upd_proc i f s)\<lparr>held := h\<rparr>"
  by (simp add: upd_proc_def)

lemma push_proc_eq:
  assumes "p_qlevel (procs s p) < LEVELS" and "QueueLock (p_qlevel (procs s p)) \<notin> held s"
  shows "push_proc p s = Some (upd_queue (p_qlevel (procs s p)) (queue_push p) s)"
  using assms by (simp add: push_proc_def lock_simps Let_def)

section \<open>The run-queue invariant\<close>

text \<open>\<open>sched_ok\<close>: the tables are in range.  \<open>ready_exact\<close>: the queues hold exactly the
  runnable processes, each once, each in the queue of its level.\<close>

definition sched_ok :: "'a sched_state_scheme \<Rightarrow> bool" where
  "sched_ok s \<longleftrightarrow>
     (\<forall>l < LEVELS. queue_ok (pqueue s l)) \<and> (\<forall>p < NPROC. p_qlevel (procs s p) < LEVELS)"

definition entries :: "'a sched_state_scheme \<Rightarrow> nat \<Rightarrow> nat" where
  "entries s p = (\<Sum>l < LEVELS. count_list (qlist (pqueue s l)) p)"

definition ready_exact :: "'a sched_state_scheme \<Rightarrow> bool" where
  "ready_exact s \<longleftrightarrow> sched_ok s \<and>
     (\<forall>p < NPROC. entries s p = (if p_state (procs s p) = RUNNABLE then 1 else 0)) \<and>
     (\<forall>l < LEVELS. \<forall>p \<in> set (qlist (pqueue s l)). p_qlevel (procs s p) = l)"

lemma entries_held [simp]: "entries (s\<lparr>held := h\<rparr>) p = entries s p"
  by (simp add: entries_def)

lemma sched_ok_held [simp]: "sched_ok (s\<lparr>held := h\<rparr>) = sched_ok s"
  by (simp add: sched_ok_def)

lemma ready_exact_held [simp]: "ready_exact (s\<lparr>held := h\<rparr>) = ready_exact s"
  by (simp add: ready_exact_def)

lemma ready_exact_cong:
  assumes "pqueue t = pqueue s"
    and "\<And>p. (p_state (procs t p) = RUNNABLE) = (p_state (procs s p) = RUNNABLE)"
    and "\<And>p. p_qlevel (procs t p) = p_qlevel (procs s p)"
  shows "ready_exact t = ready_exact s"
  using assms by (simp add: ready_exact_def sched_ok_def entries_def)

lemma entries_0: "entries s p = 0 \<longleftrightarrow> (\<forall>l < LEVELS. p \<notin> set (qlist (pqueue s l)))"
  by (auto simp: entries_def count_list_0_iff)

lemma entries_queue: "l < LEVELS \<Longrightarrow> count_list (qlist (pqueue s l)) p \<le> entries s p"
  unfolding entries_def
  by (rule member_le_sum [where f = "\<lambda>l. count_list (qlist (pqueue s l)) p"]) auto

lemma queued_runnable:
  assumes "ready_exact s" and "l < LEVELS" and "p \<in> set (qlist (pqueue s l))"
  shows "p < NPROC" and "p_state (procs s p) = RUNNABLE" and "p_qlevel (procs s p) = l"
proof -
  show p: "p < NPROC" using assms by (auto simp: ready_exact_def sched_ok_def intro: queue_ok_set)
  have "entries s p \<noteq> 0" using assms(2,3) entries_0 by blast
  with p assms(1) show "p_state (procs s p) = RUNNABLE" by (auto simp: ready_exact_def split: if_splits)
  from assms show "p_qlevel (procs s p) = l" by (simp add: ready_exact_def)
qed

lemma distinct_count_listI: "(\<And>x. count_list xs x \<le> 1) \<Longrightarrow> distinct xs"
proof (induction xs)
  case (Cons a xs)
  have "count_list xs x \<le> 1" for x using Cons.prems [of x] by (simp split: if_splits)
  moreover have "count_list xs a = 0" using Cons.prems [of a] by simp
  ultimately show ?case using Cons.IH by (simp add: count_list_0_iff)
qed simp

lemma queue_distinct:
  assumes "ready_exact s" and "l < LEVELS" shows "distinct (qlist (pqueue s l))"
proof (rule distinct_count_listI)
  fix x
  show "count_list (qlist (pqueue s l)) x \<le> 1"
  proof (cases "x \<in> set (qlist (pqueue s l))")
    case True
    then have "x < NPROC" using assms queued_runnable by blast
    with assms(1) have "entries s x \<le> 1" by (simp add: ready_exact_def)
    then show ?thesis using entries_queue [OF assms(2), of s x] by linarith
  next
    case False
    then show ?thesis by (simp add: count_list_0_iff)
  qed
qed

text \<open>No push is ever dropped: a queue that holds only runnable processes, each once, has room
  for one that is not runnable.\<close>

lemma queue_room:
  assumes "ready_exact s" and "p < NPROC" and "p_state (procs s p) \<noteq> RUNNABLE" and "l < LEVELS"
  shows "q_tail (pqueue s l) < NPROC"
proof -
  let ?q = "qlist (pqueue s l)"
  have "set ?q \<subseteq> {..<NPROC} - {p}"
    using queued_runnable [OF assms(1,4)] assms(3) by auto
  then have "card (set ?q) \<le> card ({..<NPROC} - {p})" by (intro card_mono) auto
  also have "\<dots> < NPROC" using assms(2) by (simp add: NPROC_def)
  finally show ?thesis
    using queue_distinct [OF assms(1,4)] by (simp add: distinct_card)
qed

lemma sum_upd:
  assumes "l < (n::nat)"
  shows "(\<Sum>k<n. (f(l := v)) k) + f l = (\<Sum>k<n. f k) + (v::nat)"
  using assms by (simp add: sum.remove [of _ l] add_ac)

lemma entries_upd_queue:
  assumes "l < LEVELS"
  shows "entries (upd_queue l g s) p + count_list (qlist (pqueue s l)) p
     = entries s p + count_list (qlist (g (pqueue s l))) p"
proof -
  let ?f = "\<lambda>k. count_list (qlist (pqueue s k)) p"
  have "(\<lambda>k. count_list (qlist (pqueue (upd_queue l g s) k)) p)
      = ?f(l := count_list (qlist (g (pqueue s l))) p)"
    by auto
  with sum_upd [OF assms, of ?f] show ?thesis by (simp only: entries_def)
qed

text \<open>The step every path to the ready state takes: mark the process runnable, push it.\<close>

definition make_ready :: "nat \<Rightarrow> 'a sched_state_scheme \<Rightarrow> 'a sched_state_scheme" where
  "make_ready p s = upd_queue (p_qlevel (procs s p)) (queue_push p)
     (upd_proc p (\<lambda>x. x\<lparr>p_state := RUNNABLE\<rparr>) s)"

lemma push_ready:
  assumes "p_qlevel (procs s p) < LEVELS" and "QueueLock (p_qlevel (procs s p)) \<notin> held s"
  shows "push_proc p (upd_proc p (\<lambda>x. x\<lparr>p_state := RUNNABLE\<rparr>) s) = Some (make_ready p s)"
  using assms by (subst push_proc_eq) (simp_all add: make_ready_def)

lemma make_ready_exact:
  assumes "ready_exact s" and "p < NPROC" and "p_state (procs s p) \<noteq> RUNNABLE"
  shows "ready_exact (make_ready p s)"
    and "qlist (pqueue (make_ready p s) (p_qlevel (procs s p))) = qlist (pqueue s (p_qlevel (procs s p))) @ [p]"
proof -
  let ?l = "p_qlevel (procs s p)" and ?t = "make_ready p s"
  have l: "?l < LEVELS" using assms by (simp add: ready_exact_def sched_ok_def)
  have room: "q_tail (pqueue s ?l) < NPROC" using queue_room [OF assms l] .
  show push: "qlist (pqueue ?t ?l) = qlist (pqueue s ?l) @ [p]"
    using room by (simp add: make_ready_def qlist_push)
  have other: "pqueue ?t k = pqueue s k" if "k \<noteq> ?l" for k
    using that by (simp add: make_ready_def)
  have ent: "entries ?t q = entries s q + (if q = p then 1 else 0)" for q
    using entries_upd_queue [OF l, where s = "upd_proc p (\<lambda>x. x\<lparr>p_state := RUNNABLE\<rparr>) s"
        and g = "queue_push p" and p = q] room
    by (simp add: make_ready_def qlist_push entries_def)
  have ok: "sched_ok ?t"
    using assms(1,2) by (auto simp: ready_exact_def sched_ok_def make_ready_def queue_ok_push)
  moreover have "entries ?t q = (if p_state (procs ?t q) = RUNNABLE then 1 else 0)" if "q < NPROC" for q
    using that assms ent [of q] by (auto simp: ready_exact_def make_ready_def)
  moreover have "p_qlevel (procs ?t q) = k" if "k < LEVELS" "q \<in> set (qlist (pqueue ?t k))" for k q
  proof (cases "k = ?l")
    case True
    with that(2) push have "q \<in> set (qlist (pqueue s ?l)) \<or> q = p" by auto
    with True l assms(1) show ?thesis by (auto simp: ready_exact_def make_ready_def)
  next
    case False
    with that other have "q \<in> set (qlist (pqueue s k))" by simp
    with that(1) assms(1) show ?thesis by (auto simp: ready_exact_def make_ready_def)
  qed
  ultimately show "ready_exact ?t" by (simp add: ready_exact_def)
qed

section \<open>Wakeup\<close>

definition wakes :: "chan \<Rightarrow> 'a sched_state_scheme \<Rightarrow> nat \<Rightarrow> bool" where
  "wakes chan s p \<longleftrightarrow> Some p \<noteq> myproc s \<and> p_state (procs s p) = SLEEPING \<and> p_chan (procs s p) = Some chan"

definition queues_free :: "'a sched_state_scheme \<Rightarrow> bool" where
  "queues_free s \<longleftrightarrow> (\<forall>l < LEVELS. QueueLock l \<notin> held s)"

lemma make_ready_simps [simp]:
  "procs (make_ready p s) = (procs s)(p := (procs s p)\<lparr>p_state := RUNNABLE\<rparr>)"
  "held (make_ready p s) = held s" "cpu_proc (make_ready p s) = cpu_proc s"
  "tp (make_ready p s) = tp s" "ticks_max (make_ready p s) = ticks_max s"
  "initproc (make_ready p s) = initproc s" "nextpid (make_ready p s) = nextpid s"
  "ticks (make_ready p s) = ticks s" "last_mod128 (make_ready p s) = last_mod128 s"
  by (simp_all add: make_ready_def)

lemma make_ready_held [simp]: "make_ready p (s\<lparr>held := h\<rparr>) = (make_ready p s)\<lparr>held := h\<rparr>"
  by (simp add: make_ready_def)

lemma myproc_simps [simp]:
  "myproc (make_ready p s) = myproc s" "myproc (s\<lparr>held := h\<rparr>) = myproc s"
  "myproc (upd_proc p f s) = myproc s" "myproc (upd_queue l g s) = myproc s"
  by (simp_all add: myproc_def)

lemma sched_ok_make_ready: "sched_ok s \<Longrightarrow> p < NPROC \<Longrightarrow> sched_ok (make_ready p s)"
  by (auto simp: sched_ok_def make_ready_def queue_ok_push)

lemma make_ready_restore: "held s = h \<Longrightarrow> (make_ready p s)\<lparr>held := h\<rparr> = make_ready p s"
  by (auto simp: make_ready_def upd_queue_def upd_proc_def)

lemma wakeup1_eq:
  assumes "sched_ok s" and "p < NPROC" and "ProcLock p \<notin> held s" and "queues_free s"
  shows "wakeup1 chan p s = Some (if wakes chan s p then make_ready p s else s)"
proof -
  let ?s = "s\<lparr>held := insert (ProcLock p) (held s)\<rparr>"
  have "push_proc p (upd_proc p (\<lambda>x. x\<lparr>p_state := RUNNABLE\<rparr>) ?s) = Some (make_ready p ?s)"
    using assms by (intro push_ready) (auto simp: sched_ok_def queues_free_def)
  with assms(3) show ?thesis
    by (auto simp: wakeup1_def wakeup_code_def wakeup_test_def wakes_def lock_simps Let_def make_ready_restore)
qed

lemma wakeup_list:
  assumes "sched_ok s" and "\<forall>p \<in> set ps. p < NPROC \<and> ProcLock p \<notin> held s" and "queues_free s"
    and "distinct ps"
  shows "for_each (wakeup1 chan) ps s = Some (fold make_ready (filter (wakes chan s) ps) s)"
  using assms
proof (induction ps arbitrary: s)
  case (Cons p ps)
  have same: "filter (wakes chan (make_ready p s)) ps = filter (wakes chan s) ps"
    using Cons.prems(4) by (intro filter_cong) (auto simp: wakes_def)
  have "wakeup1 chan p s = Some (if wakes chan s p then make_ready p s else s)"
    using Cons.prems by (intro wakeup1_eq) auto
  moreover have "for_each (wakeup1 chan) ps (make_ready p s)
      = Some (fold make_ready (filter (wakes chan s) ps) (make_ready p s))"
    unfolding same [symmetric]
    by (rule Cons.IH) (use Cons.prems in \<open>simp_all add: sched_ok_make_ready queues_free_def\<close>)
  moreover have "for_each (wakeup1 chan) ps s = Some (fold make_ready (filter (wakes chan s) ps) s)"
    by (rule Cons.IH) (use Cons.prems in simp_all)
  ultimately show ?case by simp
qed simp

lemma wakeup_eq:
  assumes "sched_ok s" and "\<forall>p < NPROC. ProcLock p \<notin> held s" and "queues_free s"
  shows "wakeup chan s = Some (fold make_ready (filter (wakes chan s) [0..<NPROC]) s)"
  unfolding wakeup_def using assms by (intro wakeup_list) auto

lemma fold_make_ready_simps [simp]:
  "held (fold make_ready ps s) = held s" "cpu_proc (fold make_ready ps s) = cpu_proc s"
  "tp (fold make_ready ps s) = tp s" "ticks_max (fold make_ready ps s) = ticks_max s"
  "initproc (fold make_ready ps s) = initproc s" "nextpid (fold make_ready ps s) = nextpid s"
  "ticks (fold make_ready ps s) = ticks s" "last_mod128 (fold make_ready ps s) = last_mod128 s"
  by (induction ps arbitrary: s) simp_all

lemma fold_make_ready_procs:
  "procs (fold make_ready ps s) i =
     (if i \<in> set ps then (procs s i)\<lparr>p_state := RUNNABLE\<rparr> else procs s i)"
  by (induction ps arbitrary: s) auto

lemma fold_make_ready_ok:
  "sched_ok s \<Longrightarrow> \<forall>p \<in> set ps. p < NPROC \<Longrightarrow> sched_ok (fold make_ready ps s)"
  by (induction ps arbitrary: s) (simp_all add: sched_ok_make_ready)

lemma fold_make_ready_exact:
  assumes "ready_exact s" and "\<forall>p \<in> set ps. p < NPROC \<and> p_state (procs s p) \<noteq> RUNNABLE"
    and "distinct ps"
  shows "ready_exact (fold make_ready ps s)"
  using assms
proof (induction ps arbitrary: s)
  case (Cons p ps)
  then have "ready_exact (make_ready p s)" by (intro make_ready_exact(1)) auto
  then have "ready_exact (fold make_ready ps (make_ready p s))"
    by (rule Cons.IH) (use Cons.prems in auto)
  then show ?case by simp
qed simp

lemma make_ready_qlist:
  assumes "ready_exact s" and "p < NPROC" and "p_state (procs s p) \<noteq> RUNNABLE"
  shows "qlist (pqueue (make_ready p s) l) =
    qlist (pqueue s l) @ (if p_qlevel (procs s p) = l then [p] else [])"
  using make_ready_exact(2) [OF assms] by (auto simp: make_ready_def)

lemma fold_make_ready_qlist:
  assumes "ready_exact s" and "\<forall>p \<in> set ps. p < NPROC \<and> p_state (procs s p) \<noteq> RUNNABLE"
    and "distinct ps"
  shows "qlist (pqueue (fold make_ready ps s) l)
      = qlist (pqueue s l) @ filter (\<lambda>p. p_qlevel (procs s p) = l) ps"
  using assms
proof (induction ps arbitrary: s)
  case (Cons p ps)
  then have p: "ready_exact s" "p < NPROC" "p_state (procs s p) \<noteq> RUNNABLE" by auto
  have "qlist (pqueue (fold make_ready ps (make_ready p s)) l)
      = qlist (pqueue (make_ready p s) l)
        @ filter (\<lambda>q. p_qlevel (procs (make_ready p s) q) = l) ps"
    by (rule Cons.IH) (use Cons.prems make_ready_exact(1) [OF p] in auto)
  moreover have "filter (\<lambda>q. p_qlevel (procs (make_ready p s) q) = l) ps
      = filter (\<lambda>q. p_qlevel (procs s q) = l) ps"
    using Cons.prems(3) by (intro filter_cong) auto
  ultimately show ?case by (simp add: make_ready_qlist [OF p])
qed simp

text \<open>C7.  When the queues hold exactly the runnable processes, \<open>wakeup\<close> wakes exactly the processes asleep on the channel (never the caller): each of them
  becomes runnable and is appended, in slot order, to the run queue of its own level; no other
  process and no other part of the state changes, no lock is left held, no entry is dropped, and
  the run-queue invariant survives.\<close>

theorem wakeup_correct:
  assumes "ready_exact s" and "\<forall>p < NPROC. ProcLock p \<notin> held s" and "queues_free s"
  shows "runs (wakeup chan s) (\<lambda>t.
    ready_exact t
    \<and> (\<forall>p < NPROC. procs t p = (if wakes chan s p then (procs s p)\<lparr>p_state := RUNNABLE\<rparr> else procs s p))
    \<and> (\<forall>l < LEVELS. qlist (pqueue t l) =
         qlist (pqueue s l) @ filter (\<lambda>p. wakes chan s p \<and> p_qlevel (procs s p) = l) [0..<NPROC])
    \<and> held t = held s \<and> cpu_proc t = cpu_proc s)"
proof -
  let ?ps = "filter (wakes chan s) [0..<NPROC]"
  have ps: "\<forall>p \<in> set ?ps. p < NPROC \<and> p_state (procs s p) \<noteq> RUNNABLE" "distinct ?ps"
    by (auto simp: wakes_def)
  have eq: "wakeup chan s = Some (fold make_ready ?ps s)"
    using assms by (intro wakeup_eq) (simp_all add: ready_exact_def)
  have "qlist (pqueue (fold make_ready ?ps s) l) =
         qlist (pqueue s l) @ filter (\<lambda>p. wakes chan s p \<and> p_qlevel (procs s p) = l) [0..<NPROC]" for l
    by (simp only: fold_make_ready_qlist [OF assms(1) ps] filter_filter)
  then show ?thesis
    unfolding eq runs_Some
    using fold_make_ready_exact [OF assms(1) ps] by (simp add: fold_make_ready_procs)
qed

section \<open>Timer ticks\<close>

text \<open>Lock updates are kept outermost.\<close>

lemma held_outermost [simp]:
  "s\<lparr>held := h, procs := a\<rparr> = s\<lparr>procs := a, held := h\<rparr>"
  "s\<lparr>held := h, pqueue := b\<rparr> = s\<lparr>pqueue := b, held := h\<rparr>"
  "s\<lparr>held := h, cpu_proc := c\<rparr> = s\<lparr>cpu_proc := c, held := h\<rparr>"
  "s\<lparr>held := h, nextpid := n\<rparr> = s\<lparr>nextpid := n, held := h\<rparr>"
  "s\<lparr>held := h, last_mod128 := m\<rparr> = s\<lparr>last_mod128 := m, held := h\<rparr>"
  "s\<lparr>held := h, ticks := k\<rparr> = s\<lparr>ticks := k, held := h\<rparr>"
  by simp_all

lemma ready_exact_upd:
  assumes "ready_exact s" and "p < NPROC" and "p_state (procs s p) \<noteq> RUNNABLE"
    and "p_state (f (procs s p)) \<noteq> RUNNABLE" and "p_qlevel (f (procs s p)) < LEVELS"
  shows "ready_exact (upd_proc p f s)"
proof -
  have out: "p \<notin> set (qlist (pqueue s l))" if "l < LEVELS" for l
    using queued_runnable(2) [OF assms(1) that] assms(3) by blast
  have "entries (upd_proc p f s) q = entries s q" for q
    by (simp add: entries_def)
  with assms out show ?thesis
    by (auto simp: ready_exact_def sched_ok_def)
qed

lemma higher_waiting_eq:
  "\<forall>i \<in> set is. QueueLock i \<notin> held s \<Longrightarrow>
     higher_waiting is s = Some (\<exists>i \<in> set is. q_tail (pqueue s i) \<noteq> 0, s)"
  by (induction "is") (auto simp: lock_simps)

definition tick_count :: "proc \<Rightarrow> proc" where
  "tick_count x = x\<lparr>p_pticks := p_pticks x + 1,
     p_qticks := (p_qticks x)(p_qlevel x := p_qticks x (p_qlevel x) + 1)\<rparr>"

definition end_slice :: "proc \<Rightarrow> proc" where
  "end_slice x = (tick_count x)\<lparr>p_pticks := 0, p_dSysCount := p_sysCount x,
     p_qlevel := (if p_sysCount x - p_dSysCount x < p_pticks x + 1 \<and> p_qlevel x < LEVELS - 1
                  then p_qlevel x + 1 else p_qlevel x)\<rparr>"

definition slice_over :: "'a sched_state_scheme \<Rightarrow> nat \<Rightarrow> bool" where
  "slice_over s p \<longleftrightarrow> p_pticks (procs s p) + 1 \<ge> ticks_max s (p_qlevel (procs s p))"

definition preempted :: "'a sched_state_scheme \<Rightarrow> nat \<Rightarrow> bool" where
  "preempted s p \<longleftrightarrow> (\<exists>l < p_qlevel (procs s p). qlist (pqueue s l) \<noteq> [])"

definition after_tick :: "'a sched_state_scheme \<Rightarrow> nat \<Rightarrow> proc" where
  "after_tick s p = (if slice_over s p then end_slice (procs s p) else tick_count (procs s p))"

lemma qlist_empty: "qlist q = [] \<longleftrightarrow> q_tail q = 0"
  by (simp add: qlist_def)

lemma after_tick_simps [simp]:
  "p_state (after_tick s p) = p_state (procs s p)"
  "p_qlevel (procs s p) < LEVELS \<Longrightarrow> p_qlevel (after_tick s p) < LEVELS"
  by (auto simp: after_tick_def end_slice_def tick_count_def)

lemma sched_eq:
  assumes "myproc s = Some p" and "held s = {ProcLock p}" and "p_state (procs s p) \<noteq> RUNNING"
  shows "sched s = Some (s\<lparr>cpu_proc := (cpu_proc s)(tp s := None), held := {}\<rparr>)"
  using assms by (simp add: sched_def SC_MLFQ_back_def lock_simps Let_def)

lemma upd_proc_upd_proc [simp]: "upd_proc p g (upd_proc p f s) = upd_proc p (\<lambda>x. g (f x)) s"
  by (simp add: upd_proc_def)

lemma event_tick_eq:
  assumes "myproc s = Some p" and "p_qlevel (procs s p) < LEVELS" and "held s = {}"
  shows "event_tick p s =
    (let u = upd_proc p (\<lambda>_. after_tick s p) s in
     if slice_over s p \<or> preempted s p
     then Some (Switched, (make_ready p u)\<lparr>cpu_proc := (cpu_proc s)(tp s := None)\<rparr>)
     else Some (Returned, u))"
proof -
  let ?x = "procs s p" and ?h = "{ProcLock p}"
  let ?u = "upd_proc p (\<lambda>_. after_tick s p) s"
  let ?u' = "?u\<lparr>held := ?h\<rparr>"
  have level: "p_qlevel (after_tick s p) < LEVELS" using assms(2) by simp
  have ready: "push_proc p (upd_proc p (\<lambda>x. x\<lparr>p_state := RUNNABLE\<rparr>) ?u') = Some (make_ready p ?u')"
    by (rule push_ready) (use level in auto)
  have ready': "push_proc p ((upd_proc p F s)\<lparr>held := ?h\<rparr>) = Some (make_ready p ?u')"
    if "F ?x = (after_tick s p)\<lparr>p_state := RUNNABLE\<rparr>" for F
    using ready that by (simp add: upd_proc_def)
  have switch: "sched (make_ready p ?u') = Some ((make_ready p ?u)\<lparr>cpu_proc := (cpu_proc s)(tp s := None)\<rparr>)"
    by (subst sched_eq [of _ p]) (use assms in \<open>simp_all add: make_ready_def upd_queue_def upd_proc_def myproc_def\<close>)
  have scan: "higher_waiting [0..<p_qlevel ?x] ?u' = Some (preempted s p, ?u')" if "\<not> slice_over s p"
    by (subst higher_waiting_eq) (auto simp: preempted_def qlist_empty)
  have scan': "higher_waiting [0..<p_qlevel ?x] ((upd_proc p F s)\<lparr>held := ?h\<rparr>) = Some (preempted s p, ?u')"
    if "\<not> slice_over s p" "F ?x = after_tick s p" for F
    using scan that by (simp add: upd_proc_def)
  show ?thesis
  proof (cases "slice_over s p")
    case True
    consider "p_sysCount ?x - p_dSysCount ?x \<le> p_pticks ?x" "p_qlevel ?x < LEVELS - Suc 0"
      | "\<not> p_sysCount ?x - p_dSysCount ?x \<le> p_pticks ?x" | "\<not> p_qlevel ?x < LEVELS - Suc 0"
      by blast
    then show ?thesis
      by cases (use True assms ready' switch in \<open>simp add: event_tick_def lock_simps Let_def
        slice_over_def after_tick_def end_slice_def tick_count_def\<close>)+
  next
    case False
    then show ?thesis using assms scan' ready' switch
      by (simp add: event_tick_def lock_simps Let_def slice_over_def after_tick_def tick_count_def)
  qed
qed

text \<open>C5.  A timer tick of the running process \<open>p\<close>, when the queues hold exactly the runnable processes.  The tick is charged to the process and to its
  level.  When the slice of its level is used up, the slice restarts and the process moves one
  level down exactly when it made fewer system calls than ticks and is not at the lowest level.
  It gives up the CPU exactly when its slice is over or a process waits at a higher level; it then
  stands at the tail of the queue of its (new) level, runnable, and the CPU is idle.  Otherwise it
  keeps running and only the counters change.  In both cases the run-queue invariant holds and no
  lock remains held.\<close>

theorem event_tick_correct:
  assumes "ready_exact s" and "myproc s = Some p" and "p < NPROC"
    and "p_state (procs s p) = RUNNING" and "held s = {}"
  shows "runs (event_tick p s) (\<lambda>(fl, t). ready_exact t \<and> held t = {} \<and>
    (if slice_over s p \<or> preempted s p
     then fl = Switched
       \<and> procs t = (procs s)(p := (after_tick s p)\<lparr>p_state := RUNNABLE\<rparr>)
       \<and> (\<forall>l. qlist (pqueue t l) = qlist (pqueue s l) @ (if l = p_qlevel (after_tick s p) then [p] else []))
       \<and> cpu_proc t = (cpu_proc s)(tp s := None)
     else fl = Returned
       \<and> procs t = (procs s)(p := after_tick s p)
       \<and> pqueue t = pqueue s \<and> cpu_proc t = cpu_proc s))"
proof -
  let ?u = "upd_proc p (\<lambda>_. after_tick s p) s"
  have level: "p_qlevel (procs s p) < LEVELS"
    using assms by (simp add: ready_exact_def sched_ok_def)
  have u: "ready_exact ?u" using assms level by (intro ready_exact_upd) auto
  have p: "p_state (procs ?u p) \<noteq> RUNNABLE" using assms by simp
  have "ready_exact ((make_ready p ?u)\<lparr>cpu_proc := c\<rparr>)" for c
    using make_ready_exact(1) [OF u assms(3) p] by (subst ready_exact_cong) auto
  with u show ?thesis
    using assms by (simp add: event_tick_eq [OF assms(2) level assms(5)] Let_def
        make_ready_qlist [OF u assms(3) p])
qed

section \<open>Dispatch\<close>

definition run_next :: "nat \<Rightarrow> nat \<Rightarrow> 'a sched_state_scheme \<Rightarrow> 'a sched_state_scheme" where
  "run_next l p s =
     (upd_proc p (\<lambda>x. x\<lparr>p_state := RUNNING, p_tsched := p_tsched x + 1\<rparr>) (pop_proc l s))
       \<lparr>cpu_proc := (cpu_proc s)(tp s := Some p), held := insert (ProcLock p) (held s)\<rparr>"

lemma upd_proc_cpu [simp]:
  "upd_proc p f (s\<lparr>cpu_proc := c\<rparr>) = (upd_proc p f s)\<lparr>cpu_proc := c\<rparr>"
  by (simp add: upd_proc_def)

lemma pop_proc_simps [simp]:
  "procs (pop_proc l s) = procs s" "held (pop_proc l s) = held s"
  "cpu_proc (pop_proc l s) = cpu_proc s" "tp (pop_proc l s) = tp s"
  "pqueue (pop_proc l s) = (pqueue s)(l := queue_pop (pqueue s l))"
  "ticks_max (pop_proc l s) = ticks_max s"
  "pop_proc l (s\<lparr>held := h\<rparr>) = (pop_proc l s)\<lparr>held := h\<rparr>"
  by (simp_all add: pop_proc_def)

lemma run_next_simps [simp]:
  "procs (run_next l p s) =
     (procs s)(p := (procs s p)\<lparr>p_state := RUNNING, p_tsched := p_tsched (procs s p) + 1\<rparr>)"
  "pqueue (run_next l p s) = (pqueue s)(l := queue_pop (pqueue s l))"
  "cpu_proc (run_next l p s) = (cpu_proc s)(tp s := Some p)"
  "held (run_next l p s) = insert (ProcLock p) (held s)" "tp (run_next l p s) = tp s"
  "ticks_max (run_next l p s) = ticks_max s"
  by (simp_all add: run_next_def)

lemma mlfq_scan_eq:
  assumes "\<forall>l \<in> set is. QueueLock l \<notin> held s \<and> queue_ok (pqueue s l) \<and>
     (qlist (pqueue s l) \<noteq> [] \<longrightarrow> p_state (procs s (hd (qlist (pqueue s l)))) = RUNNABLE
        \<and> ProcLock (hd (qlist (pqueue s l))) \<notin> held s)"
  shows "mlfq_scan is s = Some (case find (\<lambda>l. qlist (pqueue s l) \<noteq> []) is of
     None \<Rightarrow> (None, s)
   | Some l \<Rightarrow> (Some (hd (qlist (pqueue s l))), run_next l (hd (qlist (pqueue s l))) s))"
  using assms
proof (induction "is")
  case (Cons l ls)
  show ?case
  proof (cases "qlist (pqueue s l) = []")
    case True
    with Cons show ?thesis by (simp add: lock_simps qlist_empty)
  next
    case False
    let ?p = "hd (qlist (pqueue s l))"
    have head: "q_proc (pqueue s l) 0 = Some ?p" "0 < q_tail (pqueue s l)"
      using False Cons.prems by (auto simp: queue_ok_head qlist_empty)
    show ?thesis using False Cons.prems head
      by (simp add: lock_simps Let_def run_next_def)
  qed
qed simp

lemma ready_exact_run_next:
  assumes "ready_exact s" and "l < LEVELS" and "qlist (pqueue s l) \<noteq> []"
  shows "ready_exact (run_next l (hd (qlist (pqueue s l))) s)"
proof -
  let ?p = "hd (qlist (pqueue s l))" and ?t = "run_next l (hd (qlist (pqueue s l))) s"
  obtain xs where q: "qlist (pqueue s l) = ?p # xs" using assms(3) by (cases "qlist (pqueue s l)") auto
  have p: "?p < NPROC" "p_state (procs s ?p) = RUNNABLE"
    using queued_runnable [OF assms(1,2), of ?p] assms(3) by auto
  have ent: "entries ?t x + (if x = ?p then 1 else 0) = entries s x" for x
  proof -
    have "entries ?t x = entries (upd_queue l queue_pop s) x"
      by (simp add: entries_def)
    moreover have "entries (upd_queue l queue_pop s) x + count_list (?p # xs) x
        = entries s x + count_list xs x"
      using entries_upd_queue [OF assms(2), of queue_pop s x] unfolding qlist_pop
      by (subst (asm) (1 2) q) simp
    ultimately show ?thesis by (cases "x = ?p") simp_all
  qed
  have "sched_ok ?t"
    using assms(1) by (auto simp: ready_exact_def sched_ok_def queue_ok_pop)
  moreover have "entries ?t x = (if p_state (procs ?t x) = RUNNABLE then 1 else 0)" if "x < NPROC" for x
  proof -
    have "entries s x = (if p_state (procs s x) = RUNNABLE then 1 else 0)"
      using assms(1) that by (simp add: ready_exact_def)
    with ent [of x] p(2) show ?thesis by (cases "x = ?p") simp_all
  qed
  moreover have "p_qlevel (procs ?t x) = k" if "k < LEVELS" "x \<in> set (qlist (pqueue ?t k))" for k x
  proof -
    from that(2) have "x \<in> set (qlist (pqueue s k))"
      by (cases "k = l") (auto simp: qlist_pop intro: list.set_sel(2) [OF assms(3)])
    with that(1) assms(1) show ?thesis by (auto simp: ready_exact_def)
  qed
  ultimately show ?thesis by (simp add: ready_exact_def)
qed

lemma priority_scan:
  assumes "ready_exact s" and "held s = {}"
  shows "runs (mlfq_scan [0..<LEVELS] s) (\<lambda>(r, t). case r of
      None \<Rightarrow> t = s \<and> (\<forall>p < NPROC. p_state (procs s p) \<noteq> RUNNABLE)
    | Some p \<Rightarrow> p < NPROC \<and> p_state (procs s p) = RUNNABLE
        \<and> (\<forall>q < NPROC. p_state (procs s q) = RUNNABLE \<longrightarrow> p_qlevel (procs s p) \<le> p_qlevel (procs s q))
        \<and> (\<exists>rest. qlist (pqueue s (p_qlevel (procs s p))) = p # rest
             \<and> qlist (pqueue t (p_qlevel (procs s p))) = rest)
        \<and> procs t = (procs s)(p := (procs s p)\<lparr>p_state := RUNNING, p_tsched := p_tsched (procs s p) + 1\<rparr>)
        \<and> cpu_proc t = (cpu_proc s)(tp s := Some p) \<and> held t = {ProcLock p} \<and> ready_exact t)"
proof -
  let ?ne = "\<lambda>l. qlist (pqueue s l) \<noteq> []"
  have prem: "\<forall>l \<in> set [0..<LEVELS]. QueueLock l \<notin> held s \<and> queue_ok (pqueue s l) \<and>
     (?ne l \<longrightarrow> p_state (procs s (hd (qlist (pqueue s l)))) = RUNNABLE
        \<and> ProcLock (hd (qlist (pqueue s l))) \<notin> held s)"
    using assms queued_runnable(2) [OF assms(1)] by (auto simp: ready_exact_def sched_ok_def)
  have queued: "\<exists>l < LEVELS. q \<in> set (qlist (pqueue s l)) \<and> l = p_qlevel (procs s q)"
    if "q < NPROC" "p_state (procs s q) = RUNNABLE" for q
  proof -
    have "entries s q \<noteq> 0" using assms(1) that by (simp add: ready_exact_def)
    then show ?thesis using queued_runnable(3) [OF assms(1)] by (auto simp: entries_0)
  qed
  show ?thesis
  proof (cases "find ?ne [0..<LEVELS]")
    case None
    then have "\<forall>l < LEVELS. qlist (pqueue s l) = []" by (auto simp: find_upt_None)
    then have "p_state (procs s q) \<noteq> RUNNABLE" if "q < NPROC" for q using queued [OF that] by auto
    then show ?thesis by (simp add: mlfq_scan_eq [OF prem] None)
  next
    case (Some l)
    then have l: "l < LEVELS" "?ne l" "\<forall>k < l. qlist (pqueue s k) = []"
      by (auto simp: find_upt_Some)
    let ?p = "hd (qlist (pqueue s l))"
    have hd: "?p \<in> set (qlist (pqueue s l))" using l(2) by simp
    note p = queued_runnable [OF assms(1) l(1) hd]
    have "l \<le> p_qlevel (procs s q)" if "q < NPROC" "p_state (procs s q) = RUNNABLE" for q
      using queued [OF that] l(3) by (metis empty_iff empty_set not_le_imp_less)
    then show ?thesis
      using p l assms(2) ready_exact_run_next [OF assms(1) l(1,2)]
      by (simp add: mlfq_scan_eq [OF prem] Some qlist_pop)
  qed
qed

section \<open>The global boost\<close>

definition active :: "'a sched_state_scheme \<Rightarrow> nat \<Rightarrow> bool" where
  "active s p \<longleftrightarrow> p_state (procs s p) \<notin> {UNUSED, ZOMBIE, SLEEPING}"

definition boosted :: "proc \<Rightarrow> proc" where
  "boosted x = x\<lparr>p_qlevel := 0, p_pticks := 0, p_dSysCount := p_sysCount x\<rparr>"

definition boost1 :: "nat \<Rightarrow> 'a sched_state_scheme \<Rightarrow> 'a sched_state_scheme" where
  "boost1 p s = upd_queue 0 (queue_push p) (upd_proc p boosted s)"

definition boost_due :: "'a sched_state_scheme \<Rightarrow> bool" where
  "boost_due s \<longleftrightarrow> tp s = 0 \<and> ticks s > 0 \<and> ticks s mod 128 = 0 \<and> ticks s \<noteq> last_mod128 s"

lemma boost1_simps [simp]:
  "procs (boost1 p s) = (procs s)(p := boosted (procs s p))" "held (boost1 p s) = held s"
  "pqueue (boost1 p s) = (pqueue s)(0 := queue_push p (pqueue s 0))"
  "cpu_proc (boost1 p s) = cpu_proc s" "tp (boost1 p s) = tp s"
  by (simp_all add: boost1_def)

lemma boosted_state [simp]: "p_state (boosted x) = p_state x" "p_qlevel (boosted x) = 0"
  by (simp_all add: boosted_def)

lemma boost_proc_eq:
  assumes "ProcLock p \<notin> held s" and "QueueLock 0 \<notin> held s"
  shows "boost_proc p s = Some (if active s p then boost1 p s else s)"
  using assms
  by (simp add: boost_proc_def lock_simps Let_def active_def boost1_def boosted_def [abs_def]
      upd_queue_def upd_proc_def insert_commute insert_Diff_if)

lemma boost_list:
  assumes "\<forall>p \<in> set ps. ProcLock p \<notin> held s" and "QueueLock 0 \<notin> held s" and "distinct ps"
  shows "for_each boost_proc ps s = Some (fold boost1 (filter (active s) ps) s)"
  using assms
proof (induction ps arbitrary: s)
  case (Cons p ps)
  have "filter (active (boost1 p s)) ps = filter (active s) ps"
    using Cons.prems(3) by (intro filter_cong) (auto simp: active_def)
  moreover have "for_each boost_proc ps (boost1 p s)
      = Some (fold boost1 (filter (active (boost1 p s)) ps) (boost1 p s))"
    by (rule Cons.IH) (use Cons.prems in simp_all)
  moreover have "for_each boost_proc ps s = Some (fold boost1 (filter (active s) ps) s)"
    by (rule Cons.IH) (use Cons.prems in simp_all)
  ultimately show ?case using Cons.prems by (simp add: boost_proc_eq)
qed simp

lemma clear_list:
  assumes "\<forall>l \<in> set ls. QueueLock l \<notin> held s"
  shows "for_each clear_queue ls s =
    Some (s\<lparr>pqueue := (\<lambda>l. if l \<in> set ls then (pqueue s l)\<lparr>q_tail := 0\<rparr> else pqueue s l)\<rparr>)"
  using assms
proof (induction ls arbitrary: s)
  case (Cons l ls)
  let ?t = "upd_queue l (q_tail_update (\<lambda>_. 0)) s"
  have "clear_queue l s = Some ?t"
    using Cons.prems by (simp add: clear_queue_def lock_simps Let_def upd_queue_def)
  moreover have "for_each clear_queue ls ?t =
      Some (?t\<lparr>pqueue := (\<lambda>k. if k \<in> set ls then (pqueue ?t k)\<lparr>q_tail := 0\<rparr> else pqueue ?t k)\<rparr>)"
    by (rule Cons.IH) (use Cons.prems in simp)
  ultimately show ?case by (simp add: upd_queue_def fun_eq_iff)
qed simp

lemma fold_boost_procs:
  "distinct ps \<Longrightarrow> procs (fold boost1 ps s) i = (if i \<in> set ps then boosted (procs s i) else procs s i)"
  by (induction ps arbitrary: s) auto

lemma fold_boost_simps [simp]:
  "held (fold boost1 ps s) = held s" "cpu_proc (fold boost1 ps s) = cpu_proc s" "tp (fold boost1 ps s) = tp s"
  by (induction ps arbitrary: s) simp_all

lemma fold_boost_queue:
  "q_tail (pqueue s 0) + length ps \<le> NPROC \<Longrightarrow>
     qlist (pqueue (fold boost1 ps s) 0) = qlist (pqueue s 0) @ ps"
  "l \<noteq> 0 \<Longrightarrow> pqueue (fold boost1 ps s) l = pqueue s l"
proof (induction ps arbitrary: s)
  case (Cons p ps)
  { case 1
    then show ?case using Cons.IH(1) [of "boost1 p s"]
      by (simp add: qlist_push) (simp add: queue_push_def) }
  { case 2 then show ?case using Cons.IH(2) [of "boost1 p s"] by simp }
qed simp_all

lemma fold_boost_ok:
  "sched_ok s \<Longrightarrow> \<forall>p \<in> set ps. p < NPROC \<Longrightarrow> sched_ok (fold boost1 ps s)"
proof (induction ps arbitrary: s)
  case (Cons p ps)
  then have "sched_ok (boost1 p s)"
    by (auto simp: sched_ok_def boosted_def queue_ok_push LEVELS_def)
  with Cons show ?case by simp
qed simp

definition all_cleared :: "'a sched_state_scheme \<Rightarrow> 'a sched_state_scheme" where
  "all_cleared s = s\<lparr>last_mod128 := ticks s,
     pqueue := (\<lambda>l. if l < LEVELS then (pqueue s l)\<lparr>q_tail := 0\<rparr> else pqueue s l)\<rparr>"

lemma mlfq_boost_eq:
  assumes "TicksLock \<notin> held s" and "queues_free s" and "\<forall>p < NPROC. ProcLock p \<notin> held s"
  shows "mlfq_boost s = Some (if boost_due s
     then fold boost1 (filter (active s) [0..<NPROC]) (all_cleared s) else s)"
proof (cases "boost_due s")
  case True
  let ?s = "s\<lparr>last_mod128 := ticks s\<rparr>"
  have "for_each clear_queue [0..<LEVELS] ?s = Some (all_cleared s)"
    by (subst clear_list) (use assms in \<open>simp_all add: queues_free_def all_cleared_def cong: if_cong\<close>)
  moreover have "for_each boost_proc [0..<NPROC] (all_cleared s)
      = Some (fold boost1 (filter (active (all_cleared s)) [0..<NPROC]) (all_cleared s))"
    by (rule boost_list) (use assms in \<open>simp_all add: queues_free_def all_cleared_def LEVELS_def\<close>)
  moreover have "active (all_cleared s) = active s"
    by (simp add: fun_eq_iff active_def all_cleared_def)
  ultimately show ?thesis
    using True assms(1) by (simp add: mlfq_boost_def lock_simps Let_def boost_due_def)
next
  case False
  then show ?thesis
    using assms(1) by (auto simp: mlfq_boost_def lock_simps Let_def boost_due_def)
qed

text \<open>C6.  The global boost, due on CPU 0 at each new multiple of 128 ticks: afterwards the top
  queue holds exactly the processes that are neither free, zombies nor asleep, once each and in
  slot order, the other queues are empty, and each of these processes starts a fresh slice at
  level 0.  No process is dropped, whatever the queues held before.\<close>

theorem boost_requeues_everyone:
  assumes "boost_due s" and "held s = {}"
  shows "runs (mlfq_boost s) (\<lambda>t.
     qlist (pqueue t 0) = filter (active s) [0..<NPROC]
   \<and> (\<forall>l. 0 < l \<longrightarrow> l < LEVELS \<longrightarrow> qlist (pqueue t l) = [])
   \<and> (\<forall>p < NPROC. procs t p = (if active s p then boosted (procs s p) else procs s p))
   \<and> held t = {} \<and> cpu_proc t = cpu_proc s)"
proof -
  let ?ps = "filter (active s) [0..<NPROC]" and ?c = "all_cleared s"
  have eq: "mlfq_boost s = Some (fold boost1 ?ps ?c)"
    using assms by (simp add: mlfq_boost_eq queues_free_def)
  have len: "q_tail (pqueue ?c 0) + length ?ps \<le> NPROC"
    using length_filter_le [of "active s" "[0..<NPROC]"] by (simp add: all_cleared_def LEVELS_def)
  have "qlist (pqueue ?c l) = []" if "l < LEVELS" for l
    using that by (simp add: all_cleared_def)
  moreover have "procs ?c = procs s" "held ?c = held s" "cpu_proc ?c = cpu_proc s"
    by (simp_all add: all_cleared_def)
  ultimately show ?thesis
    unfolding eq runs_Some using assms(2)
    by (simp add: fold_boost_queue(1) [OF len] fold_boost_queue(2) fold_boost_procs LEVELS_def)
qed

lemma scan_top_only:
  assumes ok: "queue_ok (pqueue s 0)" and h: "held s = {}" and e: "\<forall>l. 0 < l \<longrightarrow> l < LEVELS \<longrightarrow> qlist (pqueue s l) = []"
    and ok': "\<forall>l < LEVELS. queue_ok (pqueue s l)"
  shows "mlfq_scan [0..<LEVELS] s = Some (case qlist (pqueue s 0) of
      [] \<Rightarrow> (None, s)
    | p # ps \<Rightarrow> if p_state (procs s p) = RUNNABLE then (Some p, run_next 0 p s) else (None, pop_proc 0 s))"
proof -
  have up: "[0..<LEVELS] = 0 # [1..<LEVELS]" by (simp add: upt_rec LEVELS_def)
  have rest: "mlfq_scan [1..<LEVELS] t = Some (None, t)"
    if "held t = {}" "\<forall>l. 0 < l \<longrightarrow> pqueue t l = pqueue s l" for t :: "'a sched_state_scheme"
  proof -
    have "find (\<lambda>l. qlist (pqueue t l) \<noteq> []) [1..<LEVELS] = None"
      using e that by (auto simp: find_None_iff)
    then show ?thesis using e that ok' by (subst mlfq_scan_eq) auto
  qed
  show ?thesis
  proof (cases "qlist (pqueue s 0)")
    case Nil
    have same: "s\<lparr>held := {}\<rparr> = s" and "q_tail (pqueue s 0) = 0" using h Nil by (simp_all add: qlist_empty)
    then show ?thesis using h rest [of s] by (simp add: up lock_simps same Nil)
  next
    case (Cons p ps)
    have head: "q_proc (pqueue s 0) 0 = Some p" "0 < q_tail (pqueue s 0)"
      using Cons queue_ok_head [OF ok] by (auto simp flip: length_qlist)
    have same: "(pop_proc 0 s)\<lparr>held := {}\<rparr> = pop_proc 0 s"
      using h by (simp add: pop_proc_def upd_queue_def)
    show ?thesis using Cons h head rest [of "pop_proc 0 s"]
      by (simp add: up lock_simps Let_def run_next_def same)
  qed
qed

text \<open>C3.  A turn of the scheduler, when the queues hold exactly the runnable processes.  If no boost is due, the turn
  finds nothing only if no process is runnable; otherwise it dispatches the longest-waiting process of the
  highest non-empty level: it is runnable, no runnable process has a higher priority, it heads its queue, and it is
  now running on this CPU with its lock held and its dispatch counted; the run-queue invariant is kept.  If the
  boost is due, every process that is neither free, a zombie nor asleep is first queued at level 0 in slot order, those
  running on other CPUs too; the turn takes the first of them and dispatches it if it is runnable.  If it is
  not, the turn drops the entry and dispatches nothing, even when runnable processes wait behind it.\<close>

theorem scheduler_turn:
  assumes "ready_exact s" and "held s = {}"
  shows "runs (SC_MLFQ s) (\<lambda>(r, t).
    if boost_due s
    then let A = filter (active s) [0..<NPROC] in
        r = (if A \<noteq> [] \<and> p_state (procs s (hd A)) = RUNNABLE then Some (hd A) else None)
      \<and> qlist (pqueue t 0) = tl A \<and> (\<forall>l. 0 < l \<longrightarrow> l < LEVELS \<longrightarrow> qlist (pqueue t l) = [])
      \<and> (\<forall>q < NPROC. procs t q = (let x = (if active s q then boosted (procs s q) else procs s q)
           in if r = Some q then x\<lparr>p_state := RUNNING, p_tsched := p_tsched x + 1\<rparr> else x))
      \<and> cpu_proc t = (case r of None \<Rightarrow> cpu_proc s | Some p \<Rightarrow> (cpu_proc s)(tp s := Some p))
      \<and> held t = (case r of None \<Rightarrow> {} | Some p \<Rightarrow> {ProcLock p})
    else (case r of
      None \<Rightarrow> t = s \<and> (\<forall>p < NPROC. p_state (procs s p) \<noteq> RUNNABLE)
    | Some p \<Rightarrow> p < NPROC \<and> p_state (procs s p) = RUNNABLE
        \<and> (\<forall>q < NPROC. p_state (procs s q) = RUNNABLE \<longrightarrow> p_qlevel (procs s p) \<le> p_qlevel (procs s q))
        \<and> (\<exists>rest. qlist (pqueue s (p_qlevel (procs s p))) = p # rest
             \<and> qlist (pqueue t (p_qlevel (procs s p))) = rest)
        \<and> procs t = (procs s)(p := (procs s p)\<lparr>p_state := RUNNING, p_tsched := p_tsched (procs s p) + 1\<rparr>)
        \<and> cpu_proc t = (cpu_proc s)(tp s := Some p) \<and> held t = {ProcLock p} \<and> ready_exact t))"
proof (cases "boost_due s")
  case False
  have "mlfq_boost s = Some s" using assms(2) False by (simp add: mlfq_boost_eq queues_free_def)
  then show ?thesis using priority_scan [OF assms] False by (simp add: SC_MLFQ_def)
next
  case True
  define A where "A = filter (active s) [0..<NPROC]"
  define u where "u = fold boost1 A (all_cleared s)"
  have eq: "mlfq_boost s = Some u"
    using assms(2) True by (simp add: mlfq_boost_eq queues_free_def u_def A_def)
  have c: "procs (all_cleared s) = procs s" "cpu_proc (all_cleared s) = cpu_proc s" "tp (all_cleared s) = tp s" "held (all_cleared s) = {}"
    using assms(2) by (simp_all add: all_cleared_def)
  have "sched_ok (all_cleared s)"
    using assms(1) by (auto simp: ready_exact_def sched_ok_def all_cleared_def queue_ok_clear)
  then have "sched_ok u" unfolding u_def by (rule fold_boost_ok) (simp add: A_def)
  then have ok: "\<forall>l < LEVELS. queue_ok (pqueue u l)" by (simp add: sched_ok_def)
  have len: "q_tail (pqueue (all_cleared s) 0) + length A \<le> NPROC"
    using length_filter_le [of "active s" "[0..<NPROC]"] by (simp add: A_def all_cleared_def LEVELS_def)
  have cq: "qlist (pqueue (all_cleared s) l) = []" if "l < LEVELS" for l using that by (simp add: all_cleared_def)
  have q0: "qlist (pqueue u 0) = A" unfolding u_def using fold_boost_queue(1) [OF len] cq by (simp add: LEVELS_def)
  have ql: "\<forall>l. 0 < l \<longrightarrow> l < LEVELS \<longrightarrow> qlist (pqueue u l) = []"
    unfolding u_def using cq by (simp add: fold_boost_queue(2))
  have pr: "procs u q = (if active s q then boosted (procs s q) else procs s q)" if "q < NPROC" for q
    unfolding u_def by (subst fold_boost_procs) (use that in \<open>simp_all add: A_def c\<close>)
  have m: "hd A < NPROC" "active s (hd A)" if "A \<noteq> []"
    using hd_in_set [OF that] by (simp_all add: A_def)
  have f: "held u = {}" "cpu_proc u = cpu_proc s" "tp u = tp s" by (simp_all add: u_def c)
  have top: "queue_ok (pqueue u 0)" using ok by (simp add: LEVELS_def)
  show ?thesis
    using True m eq scan_top_only [OF top f(1) ql ok] ql pr f unfolding q0 A_def [symmetric] SC_MLFQ_def
    by (cases A) (auto simp: Let_def q0 qlist_pop)
qed

section \<open>Killing\<close>

definition kill_mark :: "proc \<Rightarrow> proc" where
  "kill_mark x = x\<lparr>p_killed := 1, p_state := (if p_state x = SLEEPING then RUNNABLE else p_state x)\<rparr>"

lemma kkill_scan_eq:
  assumes "\<forall>p \<in> set ps. ProcLock p \<notin> held s"
  shows "kkill_scan pid ps s = Some (case find (\<lambda>p. p_pid (procs s p) = pid) ps of
     None \<Rightarrow> (- 1, s) | Some p \<Rightarrow> (0, upd_proc p kill_mark s))"
  using assms
proof (induction ps)
  case (Cons p ps)
  then show ?case
    by (cases "p_state (procs s p) = SLEEPING")
       (simp_all add: lock_simps Let_def upd_proc_def kill_mark_def)
qed simp

text \<open>C10.  \<open>kkill(pid)\<close> marks the first process with that pid as killed, makes it runnable if it
  was asleep, changes nothing else and returns 0; if there is none it changes nothing and returns
  -1.\<close>

theorem kkill_correct:
  assumes "held s = {}"
  shows "runs (kkill pid s) (\<lambda>(r, t).
     if \<exists>p < NPROC. p_pid (procs s p) = pid
     then r = 0 \<and> (\<exists>p < NPROC. p_pid (procs s p) = pid \<and> (\<forall>q < p. p_pid (procs s q) \<noteq> pid)
            \<and> p_killed (procs t p) = 1 \<and> p_state (procs t p) \<noteq> SLEEPING
            \<and> t = upd_proc p kill_mark s)
     else r = - 1 \<and> t = s)"
proof (cases "find (\<lambda>p. p_pid (procs s p) = pid) [0..<NPROC]")
  case None
  then show ?thesis using assms
    by (simp add: kkill_def kkill_scan_eq) (simp add: find_upt_None)
next
  case (Some p)
  then have "p < NPROC" "p_pid (procs s p) = pid" "\<forall>q < p. p_pid (procs s q) \<noteq> pid"
    by (simp_all add: find_upt_Some)
  with Some assms show ?thesis
    by (auto simp: kkill_def kkill_scan_eq kill_mark_def)
qed

section \<open>Partial correctness of the scan\<close>

lemma mlfq_scan_Some:
  assumes "mlfq_scan is s = Some (r, t)" and "sched_ok s" and "held s = {}" and "\<forall>l \<in> set is. l < LEVELS"
  shows "sched_ok t \<and> tp t = tp s \<and> (case r of
     None \<Rightarrow> procs t = procs s \<and> cpu_proc t = cpu_proc s \<and> held t = {}
   | Some p \<Rightarrow> p < NPROC \<and> p_state (procs s p) = RUNNABLE \<and> held t = {ProcLock p}
       \<and> procs t = (procs s)(p := (procs s p)\<lparr>p_state := RUNNING, p_tsched := p_tsched (procs s p) + 1\<rparr>)
       \<and> cpu_proc t = (cpu_proc s)(tp s := Some p)
       \<and> (\<exists>l \<in> set is. p \<in> set (qlist (pqueue s l))))"
  using assms
proof (induction "is" arbitrary: s)
  case (Cons l ls)
  show ?case
  proof (cases "qlist (pqueue s l) = []")
    case True
    have same: "s\<lparr>held := {}\<rparr> = s" using Cons.prems(3) by simp
    from True have "mlfq_scan (l # ls) s = mlfq_scan ls s"
      using Cons.prems(3) by (simp add: lock_simps qlist_empty same)
    with Cons.IH [of s] Cons.prems show ?thesis
      by (auto split: option.splits)
  next
    case False
    let ?p = "hd (qlist (pqueue s l))"
    have ok: "queue_ok (pqueue s l)" using Cons.prems by (auto simp: sched_ok_def)
    have head: "q_proc (pqueue s l) 0 = Some ?p" "0 < q_tail (pqueue s l)"
      using False ok by (auto simp: queue_ok_head qlist_empty)
    have p: "?p \<in> set (qlist (pqueue s l))" "?p < NPROC"
      using False ok by (auto intro: queue_ok_set)
    have pop: "sched_ok (pop_proc l s)"
      using Cons.prems(2) by (auto simp: sched_ok_def queue_ok_pop)
    show ?thesis
    proof (cases "p_state (procs s ?p) = RUNNABLE")
      case True
      have "mlfq_scan (l # ls) s = Some (Some ?p, run_next l ?p s)"
        using True head Cons.prems(3) by (simp add: lock_simps Let_def run_next_def)
      moreover have "sched_ok (run_next l ?p s)"
        using pop by (auto simp: sched_ok_def)
      ultimately show ?thesis
        using Cons.prems(1,3) True p by auto
    next
      case no: False
      have same: "(pop_proc l s)\<lparr>held := {}\<rparr> = pop_proc l s"
        using Cons.prems(3) by (simp add: pop_proc_def upd_queue_def)
      have "mlfq_scan (l # ls) s = mlfq_scan ls (pop_proc l s)"
        using no head Cons.prems(3) by (simp add: lock_simps Let_def same)
      with Cons.prems(1) have "mlfq_scan ls (pop_proc l s) = Some (r, t)" by simp
      from Cons.IH [OF this pop, unfolded pop_proc_simps(1-4)] Cons.prems(3,4)
      have IH: "sched_ok t \<and> tp t = tp s \<and> (case r of
         None \<Rightarrow> procs t = procs s \<and> cpu_proc t = cpu_proc s \<and> held t = {}
       | Some p \<Rightarrow> p < NPROC \<and> p_state (procs s p) = RUNNABLE \<and> held t = {ProcLock p}
         \<and> procs t = (procs s)(p := (procs s p)\<lparr>p_state := RUNNING, p_tsched := p_tsched (procs s p) + 1\<rparr>)
         \<and> cpu_proc t = (cpu_proc s)(tp s := Some p)
         \<and> (\<exists>k \<in> set ls. p \<in> set (qlist (pqueue (pop_proc l s) k))))" by simp
      have sub: "set (qlist (pqueue (pop_proc l s) k)) \<subseteq> set (qlist (pqueue s k))" for k
        by (cases "k = l") (auto simp: qlist_pop intro: list.set_sel(2) [OF False])
      show ?thesis
      proof (cases r)
        case None
        with IH show ?thesis by simp
      next
        case (Some q)
        with IH obtain k where "k \<in> set ls" "q \<in> set (qlist (pqueue (pop_proc l s) k))" by auto
        with sub have "\<exists>k \<in> set (l # ls). q \<in> set (qlist (pqueue s k))" by (meson list.set_intros(2) subsetD)
        with IH Some show ?thesis by simp
      qed
    qed
  qed
qed simp

section \<open>Sleeping\<close>

lemma sleep_eq:
  assumes "myproc s = Some p" and "held s = {lk}" and "lk \<noteq> ProcLock p"
  shows "sleep ch lk s = Some ((upd_proc p (\<lambda>x. x\<lparr>p_chan := Some ch, p_state := SLEEPING\<rparr>) s)
     \<lparr>cpu_proc := (cpu_proc s)(tp s := None), held := {}\<rparr>)"
proof -
  have "insert (ProcLock p) {lk} - {lk} = {ProcLock p}" using assms(3) by auto
  with assms show ?thesis
    by (simp add: sleep_def sleep_code_def lock_simps Let_def sched_eq myproc_def)
qed

section \<open>The machine: any interleaving of scheduling operations\<close>

text \<open>Each step is one call on one CPU \<open>c\<close>.  Calls on different CPUs interleave in any order;
  a call runs under the locks it takes (theory \<open>Spinlock\<close>), so it is one step here.  A process
  that is dispatched first releases its own lock (\<open>forkret\<close>, \<open>yield_resume\<close>, \<open>sleep_resume\<close>,
  \<open>event_tick\<close> after \<open>sched\<close>); one that sleeps does so under a condition lock \<open>lk\<close>.\<close>

inductive sched_step :: "'a sched_state_scheme \<Rightarrow> 'a sched_state_scheme \<Rightarrow> bool" where
  dispatch: "c < NCPU \<Longrightarrow> cpu_proc s c = None \<Longrightarrow> SC_MLFQ (s\<lparr>tp := c\<rparr>) = Some (Some p, t) \<Longrightarrow>
     rel (ProcLock p) t = Some u \<Longrightarrow> sched_step s u"
| idle: "c < NCPU \<Longrightarrow> cpu_proc s c = None \<Longrightarrow> SC_MLFQ (s\<lparr>tp := c\<rparr>) = Some (None, t) \<Longrightarrow> sched_step s t"
| tick: "c < NCPU \<Longrightarrow> cpu_proc s c = Some p \<Longrightarrow> event_tick p (s\<lparr>tp := c\<rparr>) = Some (fl, t) \<Longrightarrow> sched_step s t"
| yields: "c < NCPU \<Longrightarrow> yield (s\<lparr>tp := c\<rparr>) = Some t \<Longrightarrow> sched_step s t"
| sleeps: "c < NCPU \<Longrightarrow> cpu_proc s c = Some p \<Longrightarrow> lk \<noteq> ProcLock p \<Longrightarrow> acq lk (s\<lparr>tp := c\<rparr>) = Some t \<Longrightarrow>
     sleep ch lk t = Some u \<Longrightarrow> sched_step s u"
| wakes_up: "c < NCPU \<Longrightarrow> wakeup ch (s\<lparr>tp := c\<rparr>) = Some t \<Longrightarrow> sched_step s t"
| kills: "c < NCPU \<Longrightarrow> kkill pid (s\<lparr>tp := c\<rparr>) = Some (r, t) \<Longrightarrow> sched_step s t"
| clock: "sched_step s (s\<lparr>ticks := ticks s + 1\<rparr>)"

inductive sched_reach :: "'a sched_state_scheme \<Rightarrow> 'a sched_state_scheme \<Rightarrow> bool" for s where
  start: "sched_reach s s"
| step: "sched_reach s t \<Longrightarrow> sched_step t u \<Longrightarrow> sched_reach s u"

text \<open>What the kernel promises between two steps: no lock is held, the tables are in range, and a
  process is RUNNING exactly when one CPU, and only one, runs it.\<close>

definition run_inv :: "'a sched_state_scheme \<Rightarrow> bool" where
  "run_inv s \<longleftrightarrow> held s = {} \<and> sched_ok s
     \<and> (\<forall>c < NCPU. \<forall>p. cpu_proc s c = Some p \<longrightarrow> p < NPROC \<and> p_state (procs s p) = RUNNING)
     \<and> (\<forall>c < NCPU. \<forall>d < NCPU. \<forall>p. cpu_proc s c = Some p \<longrightarrow> cpu_proc s d = Some p \<longrightarrow> c = d)
     \<and> (\<forall>p < NPROC. p_state (procs s p) = RUNNING \<longrightarrow> (\<exists>c < NCPU. cpu_proc s c = Some p))"

lemma run_inv_cong:
  assumes "run_inv s" and "held t = {}" and "sched_ok t" and "cpu_proc t = cpu_proc s"
    and "\<And>p. p < NPROC \<Longrightarrow> (p_state (procs t p) = RUNNING) = (p_state (procs s p) = RUNNING)"
  shows "run_inv t"
  using assms unfolding run_inv_def by metis

lemma run_inv_start:
  assumes "run_inv s" and "c < NCPU" and "cpu_proc s c = None" and "p < NPROC"
    and "p_state (procs s p) \<noteq> RUNNING" and "held t = {}" and "sched_ok t"
    and "cpu_proc t = (cpu_proc s)(c := Some p)"
    and "\<And>q. q < NPROC \<Longrightarrow> (p_state (procs t q) = RUNNING) = (q = p \<or> p_state (procs s q) = RUNNING)"
  shows "run_inv t"
proof -
  from assms(1,5) have no: "cpu_proc s d \<noteq> Some p" if "d < NCPU" for d
    using that by (auto simp: run_inv_def)
  show ?thesis
    unfolding run_inv_def
  proof (intro conjI allI impI)
    show "p' < NPROC" "p_state (procs t p') = RUNNING" if "d < NCPU" "cpu_proc t d = Some p'" for d p'
      using that assms unfolding run_inv_def by (auto split: if_splits)
    show "d = e" if "d < NCPU" "e < NCPU" "cpu_proc t d = Some q" "cpu_proc t e = Some q" for d e q
      using that no assms(1,8) unfolding run_inv_def by (auto split: if_splits)
    show "\<exists>d < NCPU. cpu_proc t d = Some q" if "q < NPROC" "p_state (procs t q) = RUNNING" for q
      using that assms(1,2,3,8,9) unfolding run_inv_def by (metis fun_upd_def option.distinct(1))
  qed (use assms in auto)
qed

lemma run_inv_stop:
  assumes "run_inv s" and "c < NCPU" and "cpu_proc s c = Some p" and "held t = {}" and "sched_ok t"
    and "cpu_proc t = (cpu_proc s)(c := None)"
    and "\<And>q. q < NPROC \<Longrightarrow> (p_state (procs t q) = RUNNING) = (q \<noteq> p \<and> p_state (procs s q) = RUNNING)"
  shows "run_inv t"
  unfolding run_inv_def
proof (intro conjI allI impI)
  show q: "p' < NPROC" if "d < NCPU" "cpu_proc t d = Some p'" for d p'
    using that assms(1,6) unfolding run_inv_def by (auto split: if_splits)
  show "p_state (procs t p') = RUNNING" if "d < NCPU" "cpu_proc t d = Some p'" for d p'
    using that q [OF that] assms(1,2,3,6,7) unfolding run_inv_def by (metis fun_upd_def option.distinct(1))
  show "d = e" if "d < NCPU" "e < NCPU" "cpu_proc t d = Some q" "cpu_proc t e = Some q" for d e q
    using that assms(1,6) unfolding run_inv_def by (auto split: if_splits)
  show "\<exists>d < NCPU. cpu_proc t d = Some q" if "q < NPROC" "p_state (procs t q) = RUNNING" for q
    using that assms(1,3,6,7) unfolding run_inv_def by (metis fun_upd_def option.inject)
qed (use assms in auto)

lemma run_inv_tp: "run_inv s \<Longrightarrow> run_inv (s\<lparr>tp := c\<rparr>)"
  by (auto simp: run_inv_def sched_ok_def)

lemma boost_run_inv:
  assumes "run_inv s" and "mlfq_boost s = Some t"
  shows "run_inv t \<and> cpu_proc t = cpu_proc s \<and> tp t = tp s
     \<and> (\<forall>p. p_state (procs t p) = p_state (procs s p))"
proof -
  let ?ps = "filter (active s) [0..<NPROC]" and ?c = "all_cleared s"
  have t: "t = (if boost_due s then fold boost1 ?ps ?c else s)"
    using assms by (simp add: mlfq_boost_eq run_inv_def queues_free_def)
  have c: "procs ?c = procs s" "held ?c = held s" "cpu_proc ?c = cpu_proc s" "tp ?c = tp s"
    by (simp_all add: all_cleared_def)
  have "sched_ok ?c"
    using assms(1) by (auto simp: run_inv_def sched_ok_def all_cleared_def queue_ok_clear)
  then have "sched_ok (fold boost1 ?ps ?c)"
    by (rule fold_boost_ok) simp
  then have "run_inv (fold boost1 ?ps ?c)"
    by (intro run_inv_cong [OF assms(1)]) (use assms(1) in \<open>auto simp: c fold_boost_procs run_inv_def\<close>)
  then show ?thesis
    using assms(1) by (auto simp: t c fold_boost_procs)
qed

lemma turn_run_inv:
  assumes "run_inv s" and "cpu_proc s (tp s) = None" and "tp s < NCPU" and "SC_MLFQ s = Some (r, t)"
  shows "case r of None \<Rightarrow> run_inv t | Some p \<Rightarrow> held t = {ProcLock p} \<and> run_inv (t\<lparr>held := {}\<rparr>)"
proof -
  from assms(4) obtain u where u: "mlfq_boost s = Some u" "mlfq_scan [0..<LEVELS] u = Some (r, t)"
    by (auto simp: SC_MLFQ_def elim: bind_Some_E)
  note b = boost_run_inv [OF assms(1) u(1)]
  then have ok: "sched_ok u" "held u = {}" by (simp_all add: run_inv_def)
  note sc = mlfq_scan_Some [OF u(2) ok]
  show ?thesis
  proof (cases r)
    case None
    then show ?thesis using sc b by (auto intro: run_inv_cong [of u])
  next
    case (Some p)
    have "run_inv (t\<lparr>held := {}\<rparr>)"
      by (rule run_inv_start [of u "tp s" p]) (use sc b Some assms(2,3) in auto)
    then show ?thesis using sc Some by simp
  qed
qed

lemma tick_run_inv:
  assumes "run_inv s" and "tp s < NCPU" and "cpu_proc s (tp s) = Some p"
    and "event_tick p s = Some (fl, t)"
  shows "run_inv t"
proof -
  let ?u = "upd_proc p (\<lambda>_. after_tick s p) s"
  have p: "p < NPROC" "p_state (procs s p) = RUNNING" "p_qlevel (procs s p) < LEVELS" "held s = {}"
    using assms by (auto simp: run_inv_def sched_ok_def)
  have ok: "sched_ok ?u" using assms(1) p by (auto simp: run_inv_def sched_ok_def)
  have eq: "event_tick p s = (if slice_over s p \<or> preempted s p
     then Some (Switched, (make_ready p ?u)\<lparr>cpu_proc := (cpu_proc s)(tp s := None)\<rparr>)
     else Some (Returned, ?u))"
    using event_tick_eq [of s p] assms(3) p by (simp add: myproc_def Let_def)
  show ?thesis
  proof (cases "slice_over s p \<or> preempted s p")
    case True
    then have t: "t = (make_ready p ?u)\<lparr>cpu_proc := (cpu_proc s)(tp s := None)\<rparr>"
      using eq assms(4) by simp
    have "sched_ok t" using sched_ok_make_ready [OF ok p(1)] by (simp add: t sched_ok_def)
    then show ?thesis
      by (intro run_inv_stop [OF assms(1-3)]) (use p in \<open>auto simp: t\<close>)
  next
    case False
    then have t: "t = ?u" using eq assms(4) by (simp split: if_splits)
    show ?thesis
      by (rule run_inv_cong [OF assms(1)]) (use p ok in \<open>auto simp: t\<close>)
  qed
qed

lemma stop_run_inv:
  assumes "run_inv s" and "tp s < NCPU" and "cpu_proc s (tp s) = Some p"
    and "\<And>x. p_state (f x) \<noteq> RUNNING" and "\<And>x. p_qlevel (f x) = p_qlevel x"
  shows "run_inv ((upd_proc p f s)\<lparr>cpu_proc := (cpu_proc s)(tp s := None), held := {}\<rparr>)"
  by (rule run_inv_stop [OF assms(1-3)]) (use assms in \<open>auto simp: run_inv_def sched_ok_def\<close>)

lemma yield_eq:
  assumes "myproc s = Some p" and "held s = {}"
  shows "yield s = Some ((upd_proc p (\<lambda>x. x\<lparr>p_state := RUNNABLE\<rparr>) s)
     \<lparr>cpu_proc := (cpu_proc s)(tp s := None), held := {}\<rparr>)"
  using assms by (simp add: yield_def lock_simps Let_def sched_eq myproc_def)

lemma wakeup_run_inv:
  assumes "run_inv s" and "wakeup ch s = Some t"
  shows "run_inv t"
proof -
  let ?ps = "filter (wakes ch s) [0..<NPROC]"
  have ok: "sched_ok s" "held s = {}" using assms(1) by (simp_all add: run_inv_def)
  then have t: "t = fold make_ready ?ps s"
    using assms(2) by (simp add: wakeup_eq queues_free_def)
  have "sched_ok t" unfolding t by (rule fold_make_ready_ok [OF ok(1)]) simp
  then show ?thesis
    by (intro run_inv_cong [OF assms(1)]) (use ok in \<open>auto simp: t fold_make_ready_procs wakes_def\<close>)
qed

lemma kkill_run_inv:
  assumes "run_inv s" and "kkill pid s = Some (r, t)"
  shows "run_inv t"
proof -
  have ok: "sched_ok s" "held s = {}" using assms(1) by (simp_all add: run_inv_def)
  then have t: "t = s \<or> (\<exists>p. t = upd_proc p kill_mark s)"
    using assms(2) by (auto simp: kkill_def kkill_scan_eq split: option.splits)
  have "run_inv (upd_proc p kill_mark s)" for p
    by (rule run_inv_cong [OF assms(1)]) (use ok in \<open>auto simp: sched_ok_def kill_mark_def\<close>)
  with t assms(1) show ?thesis by auto
qed

lemma step_run_inv: "sched_step s t \<Longrightarrow> run_inv s \<Longrightarrow> run_inv t"
proof (induction rule: sched_step.induct)
  case (dispatch c s p t u)
  then show ?case
    using turn_run_inv [of "s\<lparr>tp := c\<rparr>" "Some p" t] by (auto simp: run_inv_tp rel_held')
next
  case (idle c s t)
  then show ?case using turn_run_inv [of "s\<lparr>tp := c\<rparr>" None t] by (auto simp: run_inv_tp)
next
  case (tick c s p fl t)
  then show ?case using tick_run_inv [of "s\<lparr>tp := c\<rparr>" p fl t] by (auto simp: run_inv_tp)
next
  case (yields c s t)
  let ?s = "s\<lparr>tp := c\<rparr>"
  from yields obtain p where p: "myproc ?s = Some p" by (auto simp: yield_def split: option.splits)
  have h: "held ?s = {}" using yields(3) by (simp add: run_inv_def)
  let ?g = "\<lambda>x. x\<lparr>p_state := RUNNABLE\<rparr>"
  have t: "t = (upd_proc p ?g ?s)\<lparr>cpu_proc := (cpu_proc ?s)(tp ?s := None), held := {}\<rparr>"
    using yields(2) unfolding yield_eq [OF p h] by (rule option.inject [THEN iffD1, symmetric])
  show ?case unfolding t
    by (rule stop_run_inv [OF run_inv_tp [OF yields(3)]]) (use yields(1) p in \<open>simp_all add: myproc_def\<close>)
next
  case (sleeps c s p lk t ch u)
  let ?s = "s\<lparr>tp := c\<rparr>"
  let ?g = "\<lambda>x. x\<lparr>p_chan := Some ch, p_state := SLEEPING\<rparr>"
  have t: "t = ?s\<lparr>held := {lk}\<rparr>" using sleeps(4,6) by (simp add: acq_def run_inv_def)
  have "sleep ch lk t = Some ((upd_proc p ?g t)\<lparr>cpu_proc := (cpu_proc t)(tp t := None), held := {}\<rparr>)"
    by (rule sleep_eq) (use sleeps(2,3) t in \<open>auto simp: myproc_def\<close>)
  then have u: "u = (upd_proc p ?g ?s)\<lparr>cpu_proc := (cpu_proc ?s)(tp ?s := None), held := {}\<rparr>"
    using sleeps(5) by (simp add: t)
  show ?case unfolding u
    by (rule stop_run_inv [OF run_inv_tp [OF sleeps(6)]]) (use sleeps(1,2) in simp_all)
next
  case (wakes_up c ch s t)
  show ?case by (rule wakeup_run_inv [OF run_inv_tp [OF wakes_up(3)] wakes_up(2)])
next
  case (kills c pid s r t)
  show ?case by (rule kkill_run_inv [OF run_inv_tp [OF kills(3)] kills(2)])
next
  case (clock s)
  then show ?case by (auto simp: run_inv_def sched_ok_def)
qed

text \<open>C4.  Whatever sequence of dispatches, ticks, yields, sleeps, wakeups and kills the CPUs
  perform, a process is never on two CPUs at once, the process on a CPU is in state RUNNING, a
  process in state RUNNING is on some CPU, and every queue entry and level stays in range.\<close>

theorem never_on_two_cpus:
  assumes "sched_reach s t" and "run_inv s"
  shows "run_inv t"
  using assms by (induction rule: sched_reach.induct) (auto intro: step_run_inv)

section \<open>A killed sleeper\<close>




definition stranded :: "nat \<Rightarrow> 'a sched_state_scheme \<Rightarrow> bool" where
  "stranded p s \<longleftrightarrow> p < NPROC \<and> p_state (procs s p) = RUNNABLE \<and> entries s p = 0"








lemma stranded_tp [simp]: "stranded p (s\<lparr>tp := c\<rparr>) = stranded p s" "stranded p (s\<lparr>held := h\<rparr>) = stranded p s"
    "stranded p (s\<lparr>ticks := k\<rparr>) = stranded p s"
  by (simp_all add: stranded_def entries_def)





section \<open>Start-up and fairness of the queues\<close>

lemma upt_LEVELS: "[0..<LEVELS] = [0, 1, 2, 3]" "[1..<LEVELS] = [1, 2, 3]"
  by (simp_all add: LEVELS_def upt_rec)

lemma level_cases: "l < LEVELS \<Longrightarrow> l = 0 \<or> l = 1 \<or> l = 2 \<or> l = 3"
  by (simp add: LEVELS_def) presburger

text \<open>C12.  Start-up: \<open>qinit\<close> leaves every queue empty and gives the levels time slices of 2, 4, 8
  and 16 ticks; a table without runnable processes then satisfies the run-queue invariant.\<close>

theorem qinit_correct:
  "(\<forall>l < LEVELS. qlist (pqueue (qinit s) l) = [] \<and> ticks_max (qinit s) l = 2 ^ (l + 1))
   \<and> ((\<forall>p < NPROC. p_qlevel (procs s p) < LEVELS \<and> p_state (procs s p) \<noteq> RUNNABLE) \<longrightarrow> ready_exact (qinit s))"
proof -
  have q: "pqueue (qinit s) l = (pqueue s l)\<lparr>q_tail := 0\<rparr>" if "l < LEVELS" for l
    using level_cases [OF that] unfolding qinit_def upt_LEVELS
    by (elim disjE) (simp_all add: Let_def)
  have t: "ticks_max (qinit s) l = 2 ^ (l + 1)" if "l < LEVELS" for l
    using level_cases [OF that] unfolding qinit_def upt_LEVELS
    by (elim disjE) (simp_all add: Let_def)
  have "procs (qinit s) = procs s"
    unfolding qinit_def upt_LEVELS by (simp add: Let_def)
  with q t show ?thesis
    by (auto simp: ready_exact_def sched_ok_def queue_ok_clear entries_def)
qed

text \<open>C11.  Queues are fair: a process that has \<open>n\<close> others before it in a queue is at the head after
  exactly \<open>n\<close> dequeues, whatever is enqueued meanwhile.\<close>

theorem queue_no_overtaking:
  assumes "qlist q = ys @ p # zs" and "count_list os Deq = length ys"
  shows "\<exists>rest. qlist (run_queue.run_ops os q) = p # rest"
  using assms by (rule run_queue.no_overtaking)

section \<open>A small machine\<close>

text \<open>A concrete state: process 0 runs on CPU 0 at level 1, process 1 waits in the level-0 queue,
  process 2 sleeps on \<open>&ticks\<close>, process 3 waits at level 2.\<close>

definition slot0 :: proc where
  "slot0 = \<lparr>p_state = UNUSED, p_chan = None, p_killed = 0, p_xstate = 0, p_pid = 0, p_sysCount = 0,
     p_pticks = 0, p_qticks = (\<lambda>_. 0), p_tsched = 0, p_dSysCount = 0, p_qlevel = 0, p_parent = None,
     p_kstack = 0, p_sz = 0, p_pagetable = 0, p_trapframe = 0,
     p_context = \<lparr>ctx_ra = 0, ctx_sp = 0, ctx_s = []\<rparr>, p_ofile = (\<lambda>_. None), p_cwd = None, p_name = [],
     p_page_faults = 0, p_page_evicted = 0, p_pages_swapped_in = 0, p_pages_swapped_out = 0,
     p_resident_pages = 0\<rparr>"

definition demo_procs :: "nat \<Rightarrow> proc" where
  "demo_procs = (\<lambda>_. slot0)(
     0 := slot0\<lparr>p_state := RUNNING, p_pid := 1, p_qlevel := 1, p_pticks := 3\<rparr>,
     1 := slot0\<lparr>p_state := RUNNABLE, p_pid := 2\<rparr>,
     2 := slot0\<lparr>p_state := SLEEPING, p_pid := 3, p_chan := Some ChanTicks, p_qlevel := 1\<rparr>,
     3 := slot0\<lparr>p_state := RUNNABLE, p_pid := 4, p_qlevel := 2\<rparr>)"

definition demo_queues :: "nat \<Rightarrow> queue" where
  "demo_queues = (\<lambda>_. \<lparr>q_proc = (\<lambda>_. None), q_tail = 0\<rparr>)(
     0 := \<lparr>q_proc = (\<lambda>_. None)(0 := Some 1), q_tail = 1\<rparr>,
     2 := \<lparr>q_proc = (\<lambda>_. None)(0 := Some 3), q_tail = 1\<rparr>)"

definition demo_sched :: sched_state where
  "demo_sched = \<lparr>held = {}, procs = demo_procs, pqueue = demo_queues, ticks_max = (\<lambda>l. 2 ^ (l + 1)),
     cpu_proc = (\<lambda>_. None)(0 := Some 0), tp = 0, initproc = Some 0, nextpid = 5, ticks = 128, last_mod128 = 0\<rparr>"

lemma demo_simps [simp]:
  "held demo_sched = {}" "procs demo_sched = demo_procs" "pqueue demo_sched = demo_queues"
  "ticks_max demo_sched = (\<lambda>l. 2 ^ (l + 1))" "cpu_proc demo_sched = (\<lambda>_. None)(0 := Some 0)"
  "tp demo_sched = 0" "ticks demo_sched = 128" "last_mod128 demo_sched = 0"
  "initproc demo_sched = Some 0" "nextpid demo_sched = 5"
  by (simp_all add: demo_sched_def)

lemma demo_qlist: "qlist (demo_queues l) = (if l = 0 then [1] else if l = 2 then [3] else [])"
  by (simp add: demo_queues_def qlist_def)

lemma demo_ready: "ready_exact demo_sched"
proof -
  have "entries demo_sched p = (if p = 1 \<or> p = 3 then 1 else 0)" for p
    by (simp add: entries_def demo_qlist LEVELS_def eval_nat_numeral)
  moreover have "sched_ok demo_sched"
    by (auto simp: sched_ok_def queue_ok_def demo_queues_def demo_procs_def slot0_def LEVELS_def NPROC_def)
  ultimately show ?thesis
    by (simp add: ready_exact_def demo_qlist) (auto simp: demo_procs_def slot0_def)
qed

lemma filter_upt_eq: "filter (\<lambda>p. p = a) [0..<n] = (if a < n then [a] else [])"
  by (induction n) auto

lemma demo_wakes: "wakes ChanTicks demo_sched p \<longleftrightarrow> p = 2"
  by (auto simp: wakes_def demo_procs_def slot0_def myproc_def)

theorem wakeup_correct_witness:
  "runs (wakeup ChanTicks demo_sched) (\<lambda>t. p_state (procs t 2) = RUNNABLE \<and> qlist (pqueue t 1) = [2])"
proof (rule runs_mono)
  show "runs (wakeup ChanTicks demo_sched) (\<lambda>t. ready_exact t
    \<and> (\<forall>p < NPROC. procs t p = (if wakes ChanTicks demo_sched p
         then (procs demo_sched p)\<lparr>p_state := RUNNABLE\<rparr> else procs demo_sched p))
    \<and> (\<forall>l < LEVELS. qlist (pqueue t l) = qlist (pqueue demo_sched l)
         @ filter (\<lambda>p. wakes ChanTicks demo_sched p \<and> p_qlevel (procs demo_sched p) = l) [0..<NPROC])
    \<and> held t = held demo_sched \<and> cpu_proc t = cpu_proc demo_sched)"
    by (rule wakeup_correct [OF demo_ready]) (simp_all add: queues_free_def)
qed (auto simp: demo_wakes demo_qlist NPROC_def LEVELS_def filter_upt_eq demo_procs_def slot0_def
    conj_commute cong: conj_cong)

theorem event_tick_correct_witness:
  "runs (event_tick 0 demo_sched) (\<lambda>(fl, t). fl = Switched \<and> p_qlevel (procs t 0) = 2
     \<and> qlist (pqueue t 2) = [3, 0] \<and> cpu_proc t 0 = None)"
proof -
  have s: "slice_over demo_sched 0" by (simp add: slice_over_def demo_procs_def slot0_def)
  have l: "p_qlevel (after_tick demo_sched 0) = 2"
    by (simp add: after_tick_def s end_slice_def tick_count_def demo_procs_def slot0_def LEVELS_def)
  have "runs (event_tick 0 demo_sched) (\<lambda>(fl, t). ready_exact t \<and> held t = {} \<and>
    (if slice_over demo_sched 0 \<or> preempted demo_sched 0
     then fl = Switched
       \<and> procs t = (procs demo_sched)(0 := (after_tick demo_sched 0)\<lparr>p_state := RUNNABLE\<rparr>)
       \<and> (\<forall>l. qlist (pqueue t l) = qlist (pqueue demo_sched l)
            @ (if l = p_qlevel (after_tick demo_sched 0) then [0] else []))
       \<and> cpu_proc t = (cpu_proc demo_sched)(tp demo_sched := None)
     else fl = Returned
       \<and> procs t = (procs demo_sched)(0 := after_tick demo_sched 0)
       \<and> pqueue t = pqueue demo_sched \<and> cpu_proc t = cpu_proc demo_sched))"
    by (rule event_tick_correct [OF demo_ready])
       (simp_all add: myproc_def NPROC_def demo_procs_def slot0_def)
  then show ?thesis
    by (rule runs_mono) (auto simp: s l demo_qlist)
qed

theorem scheduler_turn_witness:
  "runs (SC_MLFQ (demo_sched\<lparr>tp := 1\<rparr>)) (\<lambda>(r, t). r = Some 1 \<and> cpu_proc t 1 = Some 1)
   \<and> runs (SC_MLFQ demo_sched) (\<lambda>(r, t). r = None \<and> qlist (pqueue t 0) = [1, 3] \<and> p_qlevel (procs t 3) = 0)"
proof
  let ?s = "demo_sched\<lparr>tp := 1\<rparr>"
  have re: "ready_exact ?s" using demo_ready by (subst ready_exact_cong) auto
  have one: "p = 1" if "p < NPROC" "p_state (demo_procs p) = RUNNABLE"
      "p_qlevel (demo_procs p) \<le> p_qlevel (demo_procs 1)" for p
    using that by (auto simp: demo_procs_def slot0_def split: if_splits)
  have run: "p_state (demo_procs 1) = RUNNABLE" "1 < NPROC"
    by (simp_all add: demo_procs_def slot0_def NPROC_def)
  have nd: "\<not> boost_due ?s" by (simp add: boost_due_def)
  show "runs (SC_MLFQ ?s) (\<lambda>(r, t). r = Some 1 \<and> cpu_proc t 1 = Some 1)"
  proof (rule runs_mono [OF scheduler_turn [OF re]], goal_cases)
    case (2 rt)
    obtain r t where rt: "rt = (r, t)" by (cases rt)
    have c: "case r of None \<Rightarrow> \<forall>p < NPROC. p_state (demo_procs p) \<noteq> RUNNABLE
      | Some p \<Rightarrow> p < NPROC \<and> p_state (demo_procs p) = RUNNABLE \<and> p_qlevel (demo_procs p) \<le> p_qlevel (demo_procs 1)
          \<and> cpu_proc t 1 = Some p"
      using 2 run unfolding rt prod.case if_not_P [OF nd] by (cases r) simp_all
    then show ?case using run one unfolding rt by (cases r) auto
  qed simp
  have act: "active demo_sched p \<longleftrightarrow> p \<in> {0, 1, 3}" for p
    by (simp add: active_def demo_procs_def slot0_def)
  have A: "filter (active demo_sched) [0..<NPROC] = [0, 1, 3]"
    by (simp add: act NPROC_def upt_rec cong: filter_cong)
  have due: "boost_due demo_sched" "3 < NPROC" by (simp_all add: boost_due_def NPROC_def)
  have "p_state (demo_procs 0) = RUNNING" by (simp add: demo_procs_def slot0_def)
  moreover have b: "active demo_sched 3" by (simp add: act)
  ultimately show "runs (SC_MLFQ demo_sched) (\<lambda>(r, t). r = None \<and> qlist (pqueue t 0) = [1, 3] \<and> p_qlevel (procs t 3) = 0)"
    by (intro runs_mono [OF scheduler_turn [OF demo_ready, unfolded if_P [OF due(1)] A Let_def]])
      (simp_all add: due(2) split: prod.splits)
qed

theorem boost_requeues_everyone_witness:
  "runs (mlfq_boost demo_sched) (\<lambda>t. qlist (pqueue t 0) = [0, 1, 3] \<and> qlist (pqueue t 2) = []
     \<and> p_qlevel (procs t 3) = 0)"
proof -
  have due: "boost_due demo_sched" by (simp add: boost_due_def)
  have act: "active demo_sched p \<longleftrightarrow> p \<in> {0, 1, 3}" for p
    by (simp add: active_def demo_procs_def slot0_def)
  have "filter (active demo_sched) [0..<NPROC] = [0, 1, 3]"
    by (simp add: act NPROC_def upt_rec cong: filter_cong)
  then show ?thesis
    by (intro runs_mono [OF boost_requeues_everyone [OF due]])
       (auto simp: act NPROC_def LEVELS_def)
qed

theorem kkill_correct_witness:
  "runs (kkill 3 demo_sched) (\<lambda>(r, t). r = 0 \<and> p_killed (procs t 2) = 1)"
proof -
  have pid: "p_pid (demo_procs p) = 3 \<longleftrightarrow> p = 2" for p by (simp add: demo_procs_def slot0_def)
  have "\<exists>p < NPROC. p_pid (demo_procs p) = 3" by (rule exI [of _ 2]) (simp add: pid NPROC_def)
  then show ?thesis
    by (intro runs_mono [OF kkill_correct [of demo_sched 3]]) (auto simp: pid)
qed

lemma demo_run_inv: "run_inv demo_sched"
proof -
  have "p_state (demo_procs p) = RUNNING \<longleftrightarrow> p = 0" for p by (simp add: demo_procs_def slot0_def)
  moreover have "sched_ok demo_sched" using demo_ready by (simp add: ready_exact_def)
  ultimately show ?thesis by (simp add: run_inv_def NCPU_def NPROC_def)
qed


theorem never_on_two_cpus_witness: "run_inv (demo_sched\<lparr>ticks := 129\<rparr>)"
proof -
  have "sched_step demo_sched (demo_sched\<lparr>ticks := ticks demo_sched + 1\<rparr>)" by (rule sched_step.clock)
  then have "sched_reach demo_sched (demo_sched\<lparr>ticks := 129\<rparr>)"
    by (auto intro: sched_reach.intros)
  then show ?thesis by (rule never_on_two_cpus) (rule demo_run_inv)
qed

theorem qinit_correct_witness:
  "ready_exact (qinit (demo_sched\<lparr>procs := \<lambda>_. slot0\<rparr>)) \<and> ticks_max (qinit demo_sched) 3 = 16"
  using qinit_correct [of "demo_sched\<lparr>procs := \<lambda>_. slot0\<rparr>"] qinit_correct [of demo_sched]
  by (simp add: slot0_def LEVELS_def)

theorem queue_no_overtaking_witness:
  "\<exists>rest. qlist (run_queue.run_ops [Enq 9, Deq, Enq 8] \<lparr>q_proc = (\<lambda>i. Some (i + 5)), q_tail = 2\<rparr>) = 6 # rest"
  by (rule queue_no_overtaking [of _ "[5]" _ "[]"]) (simp_all add: qlist_def upt_rec)

end
