(* ===== verification/Wakeup.thy ===== *)
theory Wakeup
  imports Sched
begin


section \<open>CPUs that interleave\<close>

text \<open>The scheduler's state is shared.  Each CPU has the sequence of actions it has still to perform, and each lock has an
  owner.  An action runs on the state as its CPU sees it: \<open>held\<close> are the locks that this CPU owns and \<open>tp\<close> is its number.
  A step performs the next action of some CPU; it cannot take a lock that another CPU owns, so a CPU that spins in
  \<open>acquire\<close> makes no step until the lock is free.\<close>

record 's smp =
  sst :: 's
  owner :: "lockid \<Rightarrow> nat option"
  code :: "nat \<Rightarrow> ('s \<Rightarrow> 's option) list"

definition cpu_view :: "nat \<Rightarrow> 'a sched_state_scheme smp \<Rightarrow> 'a sched_state_scheme" where
  "cpu_view c m = (sst m)\<lparr>held := {l. owner m l = Some c}, tp := c\<rparr>"

definition smp_after :: "nat \<Rightarrow> ('a sched_state_scheme \<Rightarrow> 'a sched_state_scheme option) list \<Rightarrow> 'a sched_state_scheme
    \<Rightarrow> 'a sched_state_scheme smp \<Rightarrow> 'a sched_state_scheme smp" where
  "smp_after c as t m = m\<lparr>sst := t, code := (code m)(c := as),
     owner := (\<lambda>l. if l \<in> held t then Some c else if owner m l = Some c then None else owner m l)\<rparr>"







section \<open>The invariant of the race\<close>







section \<open>Every step keeps the invariant\<close>

lemma cpu_view_simps [simp]:
  "held (cpu_view c m) = {l. owner m l = Some c}" "tp (cpu_view c m) = c" "procs (cpu_view c m) = procs (sst m)"
  "pqueue (cpu_view c m) = pqueue (sst m)" "cpu_proc (cpu_view c m) = cpu_proc (sst m)"
  by (simp_all add: cpu_view_def)

lemma ready_exact_cpu_view [simp]: "ready_exact (cpu_view c m) = ready_exact (sst m)"
  by (rule ready_exact_cong) simp_all

lemma smp_after_simps [simp]:
  "sst (smp_after c as t m) = t" "code (smp_after c as t m) = (code m)(c := as)"
  "(owner (smp_after c as t m) l = Some d) \<longleftrightarrow>
     (if d = c then l \<in> held t else l \<notin> held t \<and> owner m l = Some d)"
  by (auto simp: smp_after_def)
















section \<open>No CPU gets stuck\<close>




section \<open>No wakeup is lost\<close>




section \<open>A run of the race\<close>

















end
