(* ===== verification/Riscv.thy ===== *)
theory Riscv
  imports Prelude
begin

text \<open>
  The page and page-table-entry macros of \<^verbatim>\<open>kernel/riscv.h\<close> and the addresses of
  \<^verbatim>\<open>kernel/memlayout.h\<close>, on 64-bit words, with the facts about pages, entries and the
  three-level split of a virtual address that the virtual-memory theories use.
\<close>

unbundle bit_operations_syntax

section \<open>Pages and page table entries\<close>

definition PGSIZE :: uint64 where "PGSIZE = 4096"
definition PGSHIFT :: nat where "PGSHIFT = 12"

definition PGROUNDUP :: "uint64 \<Rightarrow> uint64" where
  "PGROUNDUP sz = (sz + PGSIZE - 1) AND NOT (PGSIZE - 1)"

definition PGROUNDDOWN :: "uint64 \<Rightarrow> uint64" where
  "PGROUNDDOWN a = a AND NOT (PGSIZE - 1)"

definition PTE_V :: uint64 where "PTE_V = push_bit 0 1"
definition PTE_R :: uint64 where "PTE_R = push_bit 1 1"
definition PTE_W :: uint64 where "PTE_W = push_bit 2 1"
definition PTE_X :: uint64 where "PTE_X = push_bit 3 1"
definition PTE_U :: uint64 where "PTE_U = push_bit 4 1"
definition PTE_S :: uint64 where "PTE_S = push_bit 8 1"

definition PA2PTE :: "uint64 \<Rightarrow> uint64" where "PA2PTE pa = push_bit 10 (drop_bit 12 pa)"
definition PTE2PA :: "uint64 \<Rightarrow> uint64" where "PTE2PA pte = push_bit 12 (drop_bit 10 pte)"
definition PTE_FLAGS :: "uint64 \<Rightarrow> uint64" where "PTE_FLAGS pte = pte AND 0x3FF"

definition PXMASK :: uint64 where "PXMASK = 0x1FF"
definition PXSHIFT :: "nat \<Rightarrow> nat" where "PXSHIFT level = PGSHIFT + 9 * level"
definition PX :: "nat \<Rightarrow> uint64 \<Rightarrow> uint64" where "PX level va = drop_bit (PXSHIFT level) va AND PXMASK"

definition MAXVA :: uint64 where "MAXVA = push_bit (9 + 9 + 9 + 12 - 1) 1"

section \<open>Memory layout\<close>

definition UART0 :: uint64 where "UART0 = 0x10000000"
definition VIRTIO0 :: uint64 where "VIRTIO0 = 0x10001000"
definition PLIC :: uint64 where "PLIC = 0x0c000000"
definition KERNBASE :: uint64 where "KERNBASE = 0x80000000"
definition PHYSTOP :: uint64 where "PHYSTOP = KERNBASE + 2 * 1024 * 1024"
definition TRAMPOLINE :: uint64 where "TRAMPOLINE = MAXVA - PGSIZE"
definition KSTACK :: "nat \<Rightarrow> uint64" where "KSTACK p = TRAMPOLINE - (of_nat p + 1) * 2 * PGSIZE"
definition TRAPFRAME :: uint64 where "TRAPFRAME = TRAMPOLINE - PGSIZE"

section \<open>Pages\<close>

definition aligned :: "uint64 \<Rightarrow> bool" where "aligned a \<longleftrightarrow> a mod PGSIZE = 0"

lemma PGSIZE_mask: "PGSIZE - 1 = mask 12"
  by (simp add: PGSIZE_def mask_eq_exp_minus_1)

lemma unat_u64: "unat (a :: uint64) < 2 ^ 64"
  by (rule order.strict_trans2 [OF unsigned_less]) simp

lemma PGROUNDDOWN_shift: "PGROUNDDOWN a = push_bit 12 (drop_bit 12 a)"
  unfolding PGROUNDDOWN_def PGSIZE_mask
  by (rule bit_eqI) (auto simp: bit_simps)

lemma unat_PGROUNDDOWN: "unat (PGROUNDDOWN a) = unat a div 4096 * 4096"
proof -
  have "unat a div 4096 * 4096 < 2 ^ 64" using unat_u64 [of a] by simp
  then show ?thesis
    unfolding PGROUNDDOWN_shift push_bit_eq_mult
    by (simp add: unat_word_ariths(2) unat_div drop_bit_eq_div)
qed

lemma aligned_iff: "aligned a \<longleftrightarrow> 4096 dvd unat a"
  by (simp add: aligned_def PGSIZE_def dvd_eq_mod_eq_0 unat_mod unat_eq_0 [symmetric])

lemma aligned_PGROUNDDOWN: "aligned a \<longleftrightarrow> PGROUNDDOWN a = a"
  by (simp add: aligned_iff word_unat_eq_iff unat_PGROUNDDOWN) (metis dvd_div_mult_self dvd_triv_right)

lemma aligned_PGROUNDDOWN_I [simp]: "aligned (PGROUNDDOWN a)"
  by (simp add: aligned_iff unat_PGROUNDDOWN)

lemma page_of:
  assumes "aligned p"
  shows "PGROUNDDOWN x = p \<longleftrightarrow> x - p < PGSIZE"
proof -
  from assms obtain k where k: "unat p = 4096 * k" by (auto simp: aligned_iff)
  note lt = unat_u64 [of p] unat_u64 [of x]
  have eq: "unat (x - p) = (if unat p \<le> unat x then unat x - unat p else unat x + 2 ^ 64 - unat p)"
    by (simp add: unat_sub_if')
  have "(unat x div 4096 * 4096 = unat p) \<longleftrightarrow> unat (x - p) < 4096"
    using lt unfolding eq k by auto
  then show ?thesis
    by (simp add: word_unat_eq_iff unat_PGROUNDDOWN word_less_nat_alt PGSIZE_def)
qed


lemma page_disjoint:
  "aligned p \<Longrightarrow> aligned q \<Longrightarrow> p \<noteq> q \<Longrightarrow> x - p < PGSIZE \<Longrightarrow> \<not> x - q < PGSIZE"
  using page_of by metis

text \<open>Rounding up is the least page boundary at or above the size (sizes near \<open>2 ^ 64\<close> wrap to 0).\<close>

lemma unat_PGROUNDUP:
  assumes "unat a \<le> 2 ^ 64 - 4096"
  shows "unat (PGROUNDUP a) = (unat a + 4095) div 4096 * 4096"
proof -
  have "unat (a + 4095) = unat a + 4095"
    using assms by (simp add: unat_word_ariths(1))
  then show ?thesis
    using unat_PGROUNDDOWN [of "a + 4095"]
    by (simp add: PGROUNDUP_def PGROUNDDOWN_def PGSIZE_def add.commute)
qed

lemma aligned_PGROUNDUP [simp]: "aligned (PGROUNDUP a)"
  using aligned_PGROUNDDOWN_I [of "a + PGSIZE - 1"] by (simp add: PGROUNDUP_def PGROUNDDOWN_def)

section \<open>Page table entries\<close>

text \<open>A physical address fits into an entry when it is page aligned and below \<open>2 ^ 56\<close>.\<close>

definition pa_ok :: "uint64 \<Rightarrow> bool" where
  "pa_ok pa \<longleftrightarrow> aligned pa \<and> pa < 2 ^ 56"

definition flags_ok :: "uint64 \<Rightarrow> bool" where
  "flags_ok f \<longleftrightarrow> f AND 0x3FF = f"

lemma mask10: "(0x3FF :: uint64) = mask 10"
  by (simp add: mask_eq_exp_minus_1)

lemma flags_bit: "flags_ok f \<Longrightarrow> bit f n \<Longrightarrow> n < 10"
proof -
  assume "flags_ok f" and n: "bit f n"
  then have "bit (f AND mask 10) n" by (simp add: flags_ok_def mask10)
  then show "n < 10" by (simp add: bit_simps)
qed

lemma aligned_bit: "aligned a \<Longrightarrow> bit a n \<Longrightarrow> 12 \<le> n"
proof (rule ccontr)
  assume "aligned a" and n: "bit a n" "\<not> 12 \<le> n"
  then have "bit (push_bit 12 (drop_bit 12 a)) n" using aligned_PGROUNDDOWN PGROUNDDOWN_shift by metis
  with n show False by (simp add: bit_simps)
qed

lemma below_bit:
  assumes "(a :: uint64) < 2 ^ k" and "k < 64" and "bit a n"
  shows "n < k"
proof (rule ccontr)
  assume "\<not> n < k"
  then have "(2 :: nat) ^ k \<le> 2 ^ n" by simp
  moreover have "unat ((2 :: uint64) ^ k) = 2 ^ k"
    using unat_of_nat [of "2 ^ k", where ?'a = 64] power_strict_increasing [of k 64 "2 :: nat"] assms(2)
    by (simp add: take_bit_eq_mod)
  then have "unat a < 2 ^ k" using assms(1) by (simp add: word_less_nat_alt)
  ultimately have "unat a div 2 ^ n = 0" by (intro div_less) (rule order.strict_trans2)
  moreover have "bit (unat a) n" using assms(3) by (simp add: bit_unsigned_iff) 
  ultimately show False by (simp add: bit_iff_odd)
qed

lemma PTE2PA_entry:
  assumes "pa_ok pa" and "flags_ok f"
  shows "PTE2PA (PA2PTE pa OR f) = pa"
proof (rule bit_eqI)
  fix n
  have a: "bit pa n \<Longrightarrow> 12 \<le> n \<and> n < 56"
    using assms(1) aligned_bit below_bit [of pa 56 n] by (auto simp: pa_ok_def)
  have f: "\<not> bit f (10 + (n - 12))" using flags_bit [OF assms(2)] by fastforce
  show "bit (PTE2PA (PA2PTE pa OR f)) n = bit pa n"
    using a f by (auto simp: PTE2PA_def PA2PTE_def bit_simps)
qed

lemma PTE_FLAGS_entry:
  assumes "flags_ok f"
  shows "PTE_FLAGS (PA2PTE pa OR f) = f"
proof (rule bit_eqI)
  fix n
  show "bit (PTE_FLAGS (PA2PTE pa OR f)) n = bit f n"
    using flags_bit [OF assms, of n] by (auto simp: PTE_FLAGS_def PA2PTE_def mask10 bit_simps)
qed

lemma flags_ok_or [simp]: "flags_ok f \<Longrightarrow> flags_ok g \<Longrightarrow> flags_ok (f OR g)"
  by (simp add: flags_ok_def bit.conj_disj_distrib2)

lemma flags_ok_and [simp]: "flags_ok f \<Longrightarrow> flags_ok (f AND g)"
  unfolding flags_ok_def by (subst (1 2) and.commute [of f g]) (simp only: and.assoc)

lemma flags_ok_FLAGS [simp]: "flags_ok (PTE_FLAGS e)"
  by (simp add: flags_ok_def PTE_FLAGS_def)

lemma flags_ok_bits [simp]:
  "flags_ok PTE_V" "flags_ok PTE_R" "flags_ok PTE_W" "flags_ok PTE_X" "flags_ok PTE_U" "flags_ok PTE_S"
  by (simp_all add: flags_ok_def PTE_V_def PTE_R_def PTE_W_def PTE_X_def PTE_U_def PTE_S_def)

text \<open>A flag test \<open>e & flag\<close> is a test of one bit.\<close>

lemma flag_test: "(e :: uint64) AND push_bit n 1 = 0 \<longleftrightarrow> \<not> bit e n" if "n < 64"
proof -
  have "e AND push_bit n 1 = (if bit e n then push_bit n 1 else 0)"
    by (rule bit_eqI) (auto simp: bit_simps)
  then show ?thesis using that by (simp add: push_bit_eq_mult)
qed

lemma flag_tests:
  "e AND PTE_V = 0 \<longleftrightarrow> \<not> bit e 0" "e AND PTE_W = 0 \<longleftrightarrow> \<not> bit e 2"
  "e AND PTE_U = 0 \<longleftrightarrow> \<not> bit e 4" "e AND PTE_S = 0 \<longleftrightarrow> \<not> bit e 8"
  unfolding PTE_V_def PTE_W_def PTE_U_def PTE_S_def by (rule flag_test, simp)+

section \<open>Virtual addresses\<close>

lemma PX_less: "PX l va < 512"
proof -
  have "PX l va \<le> 0x1FF" by (simp add: PX_def PXMASK_def word_and_le1)
  then show ?thesis by (rule order.strict_trans1) simp
qed

lemma PX_bit: "bit (PX l va) n \<longleftrightarrow> n < 9 \<and> bit va (PXSHIFT l + n)"
proof -
  have m: "(0x1FF :: uint64) = mask 9" by (simp add: mask_eq_exp_minus_1)
  show ?thesis by (auto simp: PX_def PXMASK_def m bit_simps)
qed

text \<open>The three indices and the offset determine the address.\<close>

lemma PX_page:
  assumes "va < MAXVA" and "va' < MAXVA" and "\<forall>l < 3. PX l va = PX l va'"
  shows "PGROUNDDOWN va = PGROUNDDOWN va'"
proof (rule bit_eqI)
  fix n :: nat
  have lt: "\<not> bit va k" "\<not> bit va' k" if "38 \<le> k" for k
    using that assms(1,2) below_bit [of va 38 k] below_bit [of va' 38 k] by (auto simp: MAXVA_def push_bit_eq_mult)
  have px: "bit va (12 + 9 * l + k) = bit va' (12 + 9 * l + k)" if "l < 3" "k < 9" for l k
    using that assms(3) PX_bit [of l va k] PX_bit [of l va' k] by (simp add: PXSHIFT_def PGSHIFT_def)
  have "bit va n = bit va' n" if "12 \<le> n"
  proof (cases "n < 39")
    case True
    have "n = 12 + 9 * ((n - 12) div 9) + (n - 12) mod 9" using that by simp
    moreover have "(n - 12) div 9 < 3" "(n - 12) mod 9 < 9" using True by auto
    ultimately show ?thesis using px by metis
  next
    case False
    then show ?thesis using lt by simp
  qed
  then show "bit (PGROUNDDOWN va) n = bit (PGROUNDDOWN va') n"
    by (auto simp: PGROUNDDOWN_shift bit_simps)
qed

end
