(* ===== verification/Cstring.thy ===== *)
theory Cstring
  imports Riscv
begin

text \<open>
  Byte-addressed memory and \<^verbatim>\<open>kernel/string.c\<close>.  \<open>memset\<close>, \<open>memmove\<close> and \<open>memcpy\<close> work on
  addresses, so overlapping regions have a meaning.  The string routines read their arguments
  through the bytes at \<open>p[0], p[1], \<dots>\<close> (a function of the offset) and return the
  new contents of the destination array.
\<close>

type_synonym memory = "uint64 \<Rightarrow> uint8"

section \<open>string.c\<close>

definition memset :: "uint64 \<Rightarrow> uint8 \<Rightarrow> nat \<Rightarrow> memory \<Rightarrow> memory" where
  "memset dst c n m = fold (\<lambda>i m. m(dst + of_nat i := c)) [0..<n] m"

fun memcmp :: "(nat \<Rightarrow> uchar) \<Rightarrow> (nat \<Rightarrow> uchar) \<Rightarrow> nat \<Rightarrow> int" where
  "memcmp s1 s2 0 = 0"
| "memcmp s1 s2 (Suc n) =
     (if s1 0 \<noteq> s2 0 then uint (s1 0) - uint (s2 0)
      else memcmp (\<lambda>i. s1 (Suc i)) (\<lambda>i. s2 (Suc i)) n)"

text \<open>The two copy loops of \<open>memmove\<close>: \<open>*--d = *--s\<close> and \<open>*d++ = *s++\<close>.\<close>

fun copy_backward :: "uint64 \<Rightarrow> uint64 \<Rightarrow> nat \<Rightarrow> memory \<Rightarrow> memory" where
  "copy_backward d s 0 m = m"
| "copy_backward d s (Suc n) m = copy_backward (d - 1) (s - 1) n (m(d - 1 := m (s - 1)))"

fun copy_forward :: "uint64 \<Rightarrow> uint64 \<Rightarrow> nat \<Rightarrow> memory \<Rightarrow> memory" where
  "copy_forward d s 0 m = m"
| "copy_forward d s (Suc n) m = copy_forward (d + 1) (s + 1) n (m(d := m s))"

definition memmove :: "uint64 \<Rightarrow> uint64 \<Rightarrow> nat \<Rightarrow> memory \<Rightarrow> memory" where
  "memmove dst src n m =
     (if n = 0 then m
      else if src < dst \<and> src + of_nat n > dst
      then copy_backward (dst + of_nat n) (src + of_nat n) n m
      else copy_forward dst src n m)"

definition memcpy :: "uint64 \<Rightarrow> uint64 \<Rightarrow> nat \<Rightarrow> memory \<Rightarrow> memory" where
  "memcpy dst src n m = memmove dst src n m"

fun strncmp :: "(nat \<Rightarrow> uchar) \<Rightarrow> (nat \<Rightarrow> uchar) \<Rightarrow> nat \<Rightarrow> int" where
  "strncmp p q 0 = 0"
| "strncmp p q (Suc n) =
     (if p 0 \<noteq> 0 \<and> p 0 = q 0 then strncmp (\<lambda>i. p (Suc i)) (\<lambda>i. q (Suc i)) n
      else uint (p 0) - uint (q 0))"

text \<open>\<open>strncpy\<close>: the copy loop from index \<open>i\<close> with \<open>n\<close> bytes left, then the padding loop.\<close>

fun strncpy_pad :: "nat \<Rightarrow> nat \<Rightarrow> (nat \<Rightarrow> uint8) \<Rightarrow> nat \<Rightarrow> uint8" where
  "strncpy_pad i 0 s = s"
| "strncpy_pad i (Suc n) s = strncpy_pad (Suc i) n (s(i := 0))"

fun strncpy_copy :: "nat \<Rightarrow> nat \<Rightarrow> (nat \<Rightarrow> uint8) \<Rightarrow> (nat \<Rightarrow> uint8) \<Rightarrow> nat \<Rightarrow> uint8" where
  "strncpy_copy i 0 s t = s"
| "strncpy_copy i (Suc n) s t =
     (let s = s(i := t i) in if t i \<noteq> 0 then strncpy_copy (Suc i) n s t else strncpy_pad (Suc i) n s)"

definition strncpy :: "(nat \<Rightarrow> uint8) \<Rightarrow> (nat \<Rightarrow> uint8) \<Rightarrow> int \<Rightarrow> nat \<Rightarrow> uint8" where
  "strncpy s t n = strncpy_copy 0 (nat n) s t"

text \<open>\<open>safestrcpy\<close>: the loop from index \<open>i\<close> with \<open>n\<close> the value after \<open>--n\<close>.\<close>

fun safestrcpy_copy :: "nat \<Rightarrow> nat \<Rightarrow> (nat \<Rightarrow> uint8) \<Rightarrow> (nat \<Rightarrow> uint8) \<Rightarrow> nat \<Rightarrow> uint8" where
  "safestrcpy_copy i 0 s t = s(i := 0)"
| "safestrcpy_copy i (Suc n) s t =
     (let s = s(i := t i) in if t i \<noteq> 0 then safestrcpy_copy (Suc i) n s t else s(Suc i := 0))"

definition safestrcpy :: "(nat \<Rightarrow> uint8) \<Rightarrow> (nat \<Rightarrow> uint8) \<Rightarrow> int \<Rightarrow> nat \<Rightarrow> uint8" where
  "safestrcpy s t n = (if n \<le> 0 then s else safestrcpy_copy 0 (nat (n - 1)) s t)"

partial_function (option) strlen_from :: "(nat \<Rightarrow> uint8) \<Rightarrow> nat \<Rightarrow> nat option" where
  "strlen_from s n = (if s n \<noteq> 0 then strlen_from s (n + 1) else Some n)"

definition strlen :: "(nat \<Rightarrow> uint8) \<Rightarrow> nat option" where
  "strlen s = strlen_from s 0"

section \<open>What the block routines do\<close>

lemma off_lt: "n \<le> 2 ^ 64 \<Longrightarrow> i < n \<Longrightarrow> unat (of_nat i :: uint64) = i"
  by (simp add: unat_of_nat take_bit_eq_mod)

lemma memset_eq:
  assumes "n \<le> 2 ^ 64"
  shows "memset dst c n m = (\<lambda>x. if unat (x - dst) < n then c else m x)"
  using assms
proof (induction n)
  case 0
  then show ?case by (simp add: memset_def)
next
  case (Suc n)
  have "x = dst + of_nat n \<longleftrightarrow> unat (x - dst) = n" for x
  proof
    assume "unat (x - dst) = n"
    then have "x - dst = of_nat n" by auto
    then show "x = dst + of_nat n" by (simp add: algebra_simps)
  qed (use Suc.prems in \<open>simp add: off_lt [of "Suc n"]\<close>)
  with Suc show ?case by (auto simp: memset_def fun_eq_iff less_Suc_eq)
qed

lemma word_off: "n \<le> 2 ^ 64 \<Longrightarrow> k < n \<Longrightarrow> x = (d :: uint64) + of_nat k \<longleftrightarrow> unat (x - d) = k"
proof
  assume "n \<le> 2 ^ 64" "k < n" "x = d + of_nat k"
  then show "unat (x - d) = k" by (simp add: off_lt [of n])
next
  assume "unat (x - d) = k"
  then have "x - d = of_nat k" by auto
  then show "x = d + of_nat k" by (simp add: algebra_simps)
qed

lemma unat_add_no_wrap: "unat (a :: uint64) + n \<le> 2 ^ 64 \<Longrightarrow> k < n \<Longrightarrow> unat (a + of_nat k) = unat a + k"
  by (simp add: unat_word_ariths(1) unat_of_nat take_bit_eq_mod)

text \<open>Both copy loops visit offsets in some order; the copy is right when no byte is overwritten
  before it has been read.\<close>

definition copy_at :: "uint64 \<Rightarrow> uint64 \<Rightarrow> nat \<Rightarrow> memory \<Rightarrow> memory" where
  "copy_at d s i m = m(d + of_nat i := m (s + of_nat i))"

lemma copy_forward_fold: "copy_forward d s n m = fold (copy_at d s) [0..<n] m"
proof (induction n arbitrary: d s m)
  case (Suc n)
  have "fold (copy_at d s) [0..<Suc n] m = fold (copy_at d s) (map Suc [0..<n]) (m(d := m s))"
    by (simp add: upt_conv_Cons map_Suc_upt copy_at_def del: upt_Suc)
  also have "\<dots> = fold (copy_at (d + 1) (s + 1)) [0..<n] (m(d := m s))"
    by (simp add: fold_map comp_def copy_at_def [abs_def] algebra_simps)
  finally have "fold (copy_at d s) [0..<Suc n] m = fold (copy_at (d + 1) (s + 1)) [0..<n] (m(d := m s))" .
  then show ?case by (simp only: copy_forward.simps Suc)
qed simp

lemma copy_backward_fold:
  "copy_backward (d + of_nat n) (s + of_nat n) n m = fold (copy_at d s) (rev [0..<n]) m"
proof (induction n arbitrary: m)
  case (Suc n)
  have "d + of_nat (Suc n) - 1 = d + of_nat n" "s + of_nat (Suc n) - 1 = s + of_nat n" by simp_all
  with Suc show ?case by (simp add: copy_at_def)
qed simp

lemma copy_fold:
  assumes "\<And>pre k post. ks = pre @ k # post \<Longrightarrow> \<forall>j \<in> set pre. s + of_nat k \<noteq> d + of_nat j"
  shows "fold (copy_at d s) ks m =
    (\<lambda>x. if \<exists>k \<in> set ks. x = d + of_nat k then m (s + (x - d)) else m x)"
  using assms
proof (induction ks rule: rev_induct)
  case (snoc k ks)
  have IH: "fold (copy_at d s) ks m =
    (\<lambda>x. if \<exists>k \<in> set ks. x = d + of_nat k then m (s + (x - d)) else m x)"
    by (rule snoc.IH) (use snoc.prems in auto)
  have "\<forall>j \<in> set ks. s + of_nat k \<noteq> d + of_nat j" by (rule snoc.prems) simp
  then show ?case by (simp add: IH) (auto simp: copy_at_def fun_eq_iff)
qed simp

lemma offsets_upt:
  "n \<le> 2 ^ 64 \<Longrightarrow> (\<exists>k \<in> set [0..<n]. x = (d :: uint64) + of_nat k) \<longleftrightarrow> unat (x - d) < n"
  using word_off [of n _ x d] by auto

lemma upt_before:
  assumes "[0..<n] = pre @ k # post" and "j \<in> set pre"
  shows "j < k \<and> k < n"
proof -
  from upt_eq_append_Cons [OF assms(1)] have "k < n" "pre = [0..<k]" by blast+
  with assms(2) show ?thesis by simp
qed

lemma upt_after:
  assumes "rev [0..<n] = pre @ k # post" and "j \<in> set pre"
  shows "k < j \<and> j < n"
proof -
  have eq: "[0..<n] = rev post @ k # rev pre"
    using arg_cong [OF assms(1), of rev]
    by (simp only: rev_rev_ident rev_append rev.simps append.assoc append_Cons append_Nil)
  have "j \<in> set (rev post @ k # rev pre)" using assms(2) by simp
  then have "j < n" unfolding eq [symmetric] by simp
  moreover have "sorted_wrt (<) (rev post @ k # rev pre)"
    unfolding eq [symmetric] by (rule sorted_wrt_upt)
  ultimately show ?thesis using assms(2) by (simp add: sorted_wrt_append)
qed

lemma copy_backward_eq:
  assumes "unat d + n \<le> 2 ^ 64" and "unat s + n \<le> 2 ^ 64" and "unat s < unat d"
  shows "copy_backward (d + of_nat n) (s + of_nat n) n m = (\<lambda>x. if unat (x - d) < n then m (s + (x - d)) else m x)"
proof -
  have "s + of_nat k \<noteq> d + of_nat j" if "k < j" "j < n" for k j
  proof -
    have "unat (s + of_nat k) = unat s + k" "unat (d + of_nat j) = unat d + j"
      using that by (simp_all add: unat_add_no_wrap [OF assms(1)] unat_add_no_wrap [OF assms(2)])
    then show ?thesis using that assms(3) by auto
  qed
  then have "fold (copy_at d s) (rev [0..<n]) m =
      (\<lambda>x. if \<exists>k \<in> set (rev [0..<n]). x = d + of_nat k then m (s + (x - d)) else m x)"
    using upt_after by (intro copy_fold) blast
  then show ?thesis
    using assms(1) by (simp only: copy_backward_fold set_rev offsets_upt)
qed

lemma copy_forward_eq:
  assumes "unat d + n \<le> 2 ^ 64" and "unat s + n \<le> 2 ^ 64" and "unat d \<le> unat s \<or> unat s + n \<le> unat d"
  shows "copy_forward d s n m = (\<lambda>x. if unat (x - d) < n then m (s + (x - d)) else m x)"
proof -
  have "s + of_nat k \<noteq> d + of_nat j" if "j < k" "k < n" for k j
  proof -
    have "unat (s + of_nat k) = unat s + k" "unat (d + of_nat j) = unat d + j"
      using that by (simp_all add: unat_add_no_wrap [OF assms(1)] unat_add_no_wrap [OF assms(2)])
    then show ?thesis using that assms(3) by auto
  qed
  then have "fold (copy_at d s) [0..<n] m =
      (\<lambda>x. if \<exists>k \<in> set [0..<n]. x = d + of_nat k then m (s + (x - d)) else m x)"
    using upt_before by (intro copy_fold) blast
  then show ?thesis
    using assms(1) by (simp only: copy_forward_fold offsets_upt)
qed

text \<open>C18.  \<open>memmove\<close> copies correctly even when the two regions overlap: afterwards the destination
  holds what the source held before the call, and every other byte is unchanged (for regions that
  do not wrap around the address space).\<close>

theorem memmove_correct:
  assumes "unat dst + n \<le> 2 ^ 64" and "unat src + n \<le> 2 ^ 64"
  shows "memmove dst src n m = (\<lambda>x. if unat (x - dst) < n then m (src + (x - dst)) else m x)"
proof (cases "n = 0 \<or> \<not> (src < dst \<and> src + of_nat n > dst)")
  case True
  have wrap: "unat (src + of_nat n) = (if unat src + n = 2 ^ 64 then 0 else unat src + n)"
    using assms(2) by (simp add: unat_word_ariths(1) unat_of_nat take_bit_eq_mod mod_simps)
  have "unat dst \<le> unat src \<or> unat src + n \<le> unat dst"
  proof (cases "unat src + n = 2 ^ 64")
    case False
    then show ?thesis using True wrap by (auto simp: word_less_nat_alt)
  qed (use assms in linarith)
  from copy_forward_eq [OF assms this] True show ?thesis by (auto simp: memmove_def)
next
  case False
  then have "unat src < unat dst" by (simp add: word_less_nat_alt)
  from copy_backward_eq [OF assms this] False show ?thesis by (simp add: memmove_def)
qed


theorem memmove_correct_witness:
  "map (memmove 102 100 4 (\<lambda>x. ucast x)) [100, 101, 102, 103, 104, 105, 106] = [100, 101, 100, 101, 102, 103, 106]"
  by (subst memmove_correct) (simp_all add: unsigned_minus_1_eq_mask mask_eq_exp_minus_1)

section \<open>What the string routines do\<close>

lemma memcmp_0: "memcmp s1 s2 n = 0 \<longleftrightarrow> (\<forall>i < n. s1 i = s2 i)"
proof (induction n arbitrary: s1 s2)
  case (Suc n)
  have "uint (s1 0) - uint (s2 0) = 0 \<longleftrightarrow> s1 0 = s2 0"
    using word_uint_eq_iff [of "s1 0" "s2 0"] by simp
  with Suc show ?case by (auto simp: less_Suc_eq_0_disj)
qed simp

text \<open>C19.  \<open>strncmp\<close> returns 0 exactly when the two strings agree on their first \<open>n\<close> bytes or up
  to and including a common terminator before that.\<close>

theorem strncmp_eq_0:
  "strncmp p q n = 0 \<longleftrightarrow> (\<forall>i < n. (\<forall>j < i. p j \<noteq> 0) \<longrightarrow> p i = q i)"
proof (induction n arbitrary: p q)
  case (Suc n)
  have d: "uint (p 0) - uint (q 0) = 0 \<longleftrightarrow> p 0 = q 0"
    using word_uint_eq_iff [of "p 0" "q 0"] by simp
  show ?case
  proof (cases "p 0 \<noteq> 0 \<and> p 0 = q 0")
    case True
    then show ?thesis using Suc by (simp add: All_less_Suc2)
  next
    case False
    then have "strncmp p q (Suc n) = 0 \<longleftrightarrow> p 0 = q 0" by (simp only: strncmp.simps if_False d)
    also have "\<dots> \<longleftrightarrow> (\<forall>i < Suc n. (\<forall>j < i. p j \<noteq> 0) \<longrightarrow> p i = q i)"
      using False by (auto simp: All_less_Suc2)
    finally show ?thesis .
  qed
qed simp

theorem strncmp_eq_0_witness:
  "strncmp (\<lambda>i. [104, 105, 0, 7] ! i) (\<lambda>i. [104, 105, 0, 9] ! i) 4 = 0"
  by (subst strncmp_eq_0) (auto simp: less_Suc_eq numeral_eq_Suc)

lemma strncpy_pad_eq: "strncpy_pad i n s k = (if i \<le> k \<and> k < i + n then 0 else s k)"
  by (induction i n s rule: strncpy_pad.induct) (auto simp: fun_upd_def)

lemma strncpy_copy_eq:
  "(\<forall>j < i. t j \<noteq> 0) \<Longrightarrow> strncpy_copy i n s t k =
     (if i \<le> k \<and> k < i + n then (if \<exists>j < k. t j = 0 then 0 else t k) else s k)"
proof (induction n arbitrary: i s)
  case (Suc n)
  show ?case
  proof (cases "t i = 0")
    case True
    then show ?thesis
      using Suc.prems by (auto simp: strncpy_pad_eq fun_upd_def dest: le_neq_implies_less)
  next
    case False
    then have "\<forall>j < Suc i. t j \<noteq> 0" using Suc.prems by (simp add: less_Suc_eq)
    note IH = Suc.IH [OF this, of "s(i := t i)"]
    have "strncpy_copy i (Suc n) s t k = strncpy_copy (Suc i) n (s(i := t i)) t k"
      using False by (simp add: Let_def fun_upd_def)
    also have "\<dots> = (if i \<le> k \<and> k < i + Suc n then (if \<exists>j < k. t j = 0 then 0 else t k) else s k)"
      using Suc.prems unfolding IH by (cases "k = i") auto
    finally show ?thesis .
  qed
qed auto

text \<open>C20.  \<open>strncpy\<close> fills exactly the first \<open>n\<close> bytes: the source string up to its terminator,
  then zeros.\<close>

theorem strncpy_correct:
  "strncpy s t n k = (if int k < n then (if \<exists>j < k. t j = 0 then 0 else t k) else s k)"
  by (auto simp: strncpy_def strncpy_copy_eq zless_nat_eq_int_zless)

lemma safestrcpy_copy_eq:
  assumes "\<forall>j < i. t j \<noteq> 0 \<and> s j = t j"
  shows "\<exists>k \<le> i + n. safestrcpy_copy i n s t k = 0 \<and> (\<forall>j < k. t j \<noteq> 0 \<and> safestrcpy_copy i n s t j = t j)
    \<and> (k = i + n \<or> t k = 0) \<and> (\<forall>j. i + n < j \<longrightarrow> safestrcpy_copy i n s t j = s j)"
  using assms
proof (induction i n s t rule: safestrcpy_copy.induct)
  case (1 i s t)
  then show ?case by (intro exI [of _ i]) auto
next
  case (2 i n s t)
  show ?case
  proof (cases "t i = 0")
    case True
    then show ?thesis using 2(2) by (intro exI [of _ i]) auto
  next
    case False
    have pre: "\<forall>j < Suc i. t j \<noteq> 0 \<and> (s(i := t i)) j = t j"
      using 2(2) False by (auto simp: less_Suc_eq)
    from 2(1) [OF refl False pre] obtain k where
      "k \<le> Suc i + n" "safestrcpy_copy (Suc i) n (s(i := t i)) t k = 0"
      "\<forall>j < k. t j \<noteq> 0 \<and> safestrcpy_copy (Suc i) n (s(i := t i)) t j = t j"
      "k = Suc i + n \<or> t k = 0"
      "\<forall>j. Suc i + n < j \<longrightarrow> safestrcpy_copy (Suc i) n (s(i := t i)) t j = (s(i := t i)) j" by blast
    with False show ?thesis by (intro exI [of _ k]) auto
  qed
qed

text \<open>C21.  \<open>safestrcpy\<close> with a positive size always leaves a terminated string within the first
  \<open>n\<close> bytes: a prefix of the source, cut only when the source does not fit; it writes nothing
  beyond \<open>n\<close> bytes.\<close>

theorem safestrcpy_terminates:
  assumes "0 < n"
  shows "\<exists>k. int k < n \<and> safestrcpy s t n k = 0 \<and> (\<forall>j < k. t j \<noteq> 0 \<and> safestrcpy s t n j = t j)
    \<and> (int k = n - 1 \<or> t k = 0) \<and> (\<forall>j. n \<le> int j \<longrightarrow> safestrcpy s t n j = s j)"
proof -
  have i: "int (nat (n - 1)) = n - 1" using assms by simp
  from safestrcpy_copy_eq [of 0 t s "nat (n - 1)"] obtain k where
    k: "k \<le> nat (n - 1)" "safestrcpy_copy 0 (nat (n - 1)) s t k = 0"
    "\<forall>j < k. t j \<noteq> 0 \<and> safestrcpy_copy 0 (nat (n - 1)) s t j = t j" "k = nat (n - 1) \<or> t k = 0"
    "\<forall>j. nat (n - 1) < j \<longrightarrow> safestrcpy_copy 0 (nat (n - 1)) s t j = s j" by auto
  moreover have "int k < n" using k(1) i by linarith
  moreover have "nat (n - 1) < j" if "n \<le> int j" for j using that assms by linarith
  moreover have "int k = n - 1 \<or> t k = 0" using k(4) i by auto
  moreover have "safestrcpy s t n = safestrcpy_copy 0 (nat (n - 1)) s t"
    using assms by (simp add: safestrcpy_def)
  ultimately show ?thesis by (intro exI [of _ k]) simp
qed

theorem safestrcpy_terminates_witness:
  "\<exists>k. int k < 3 \<and> safestrcpy (\<lambda>_. 1) (\<lambda>_. 65) 3 k = 0"
  using safestrcpy_terminates [of 3 "\<lambda>_. 1" "\<lambda>_. 65"] by (metis zero_less_numeral)

text \<open>\<open>strlen\<close> returns on every terminated string.\<close>

lemma strlen_from_Some:
  "n \<le> k \<Longrightarrow> s k = 0 \<Longrightarrow> \<forall>j. n \<le> j \<and> j < k \<longrightarrow> s j \<noteq> 0 \<Longrightarrow> strlen_from s n = Some k"
proof (induction "k - n" arbitrary: n)
  case 0
  then have "n = k" by simp
  with 0 show ?case by (subst strlen_from.simps) simp
next
  case (Suc d)
  have "strlen_from s (n + 1) = Some k"
    by (rule Suc.hyps(1)) (use Suc.hyps(2) Suc.prems in auto)
  moreover have "s n \<noteq> 0" using Suc.hyps(2) Suc.prems(3) by simp
  ultimately show ?case by (subst strlen_from.simps) simp
qed

lemma strlen_Some: "s k = 0 \<Longrightarrow> \<forall>j < k. s j \<noteq> 0 \<Longrightarrow> strlen s = Some k"
  by (simp add: strlen_def strlen_from_Some)

end
