(* ===== verification/Physmem.thy ===== *)
theory Physmem
  imports Cstring
begin

text \<open>
  64-bit words in byte memory, little endian, as the RISC-V loads and stores them, and tables of
  512 such words in a page (page tables; the free list keeps its link in word 0 of a page).
\<close>

definition read64 :: "memory \<Rightarrow> uint64 \<Rightarrow> uint64" where
  "read64 m a = foldr (\<lambda>i w. push_bit 8 w OR ucast (m (a + of_nat i))) [0..<8] 0"

definition write64 :: "uint64 \<Rightarrow> uint64 \<Rightarrow> memory \<Rightarrow> memory" where
  "write64 a v m = (\<lambda>x. if x - a < 8 then ucast (drop_bit (8 * unat (x - a)) v) else m x)"

text \<open>Entry \<open>i\<close> of the table in page \<open>p\<close>.\<close>

definition slot :: "uint64 \<Rightarrow> uint64 \<Rightarrow> uint64" where
  "slot p i = p + 8 * i"

lemma bit_ucast8: "bit (ucast (w :: uint8) :: uint64) n \<longleftrightarrow> bit w n"
  by (auto simp: bit_simps dest: bit_imp_le_length)

lemma bit_bytes:
  "bit (foldr (\<lambda>i w. push_bit 8 w OR ucast (f i :: uint8)) [0..<n] (0 :: uint64)) k
     \<longleftrightarrow> k < 64 \<and> k div 8 < n \<and> bit (f (k div 8)) (k mod 8)"
proof (induction n arbitrary: f k)
  case (Suc n)
  have f: "foldr (\<lambda>i w. push_bit 8 w OR ucast (f i)) [0..<Suc n] (0 :: uint64)
    = push_bit 8 (foldr (\<lambda>i w. push_bit 8 w OR ucast (f (Suc i))) [0..<n] 0) OR ucast (f 0)"
    by (simp add: upt_conv_Cons map_Suc_upt [symmetric] foldr_map comp_def del: upt_Suc)
  show ?case
  proof (cases "k < 8")
    case True
    then show ?thesis unfolding f by (simp add: bit_or_iff bit_push_bit_iff bit_ucast8)
  next
    case False
    then have "k div 8 = Suc ((k - 8) div 8)" "k mod 8 = (k - 8) mod 8"
      by (simp_all add: le_div_geq le_mod_geq)
    moreover have "\<not> bit (f 0) k" using False bit_imp_le_length [of "f 0" k] by auto
    ultimately show ?thesis unfolding f
      using False by (auto simp: bit_or_iff bit_push_bit_iff bit_ucast8 Suc.IH)
  qed
qed simp

lemma bit_read64: "bit (read64 m a) n \<longleftrightarrow> n < 64 \<and> bit (m (a + of_nat (n div 8))) (n mod 8)"
  by (auto simp: read64_def bit_bytes)

lemma read64_write64_same: "read64 (write64 a v m) a = v"
proof (rule bit_eqI)
  fix n
  assume "possible_bit TYPE(uint64) n"
  then have n: "n < 64" by (simp add: possible_bit_word)
  then have "n div 8 < 8" by simp
  then have u: "unat (of_nat (n div 8) :: uint64) = n div 8" by (simp add: unat_of_nat take_bit_eq_mod)
  then have "(of_nat (n div 8) :: uint64) < 8" using \<open>n div 8 < 8\<close> by (simp add: word_less_nat_alt)
  then show "bit (read64 (write64 a v m) a) n = bit v n"
    using n u by (simp add: bit_read64 write64_def bit_simps)
qed

lemma read64_cong: "(\<And>i. i < 8 \<Longrightarrow> m (a + of_nat i) = m' (a + of_nat i)) \<Longrightarrow> read64 m a = read64 m' a"
  unfolding read64_def by (rule foldr_cong) auto

lemma slot_page:
  assumes "aligned p" and "i < 512" and "k < 8"
  shows "PGROUNDDOWN (slot p i + of_nat k) = p"
proof -
  have k: "unat (of_nat k :: uint64) = k" using assms(3) by (simp add: unat_of_nat take_bit_eq_mod)
  have i: "unat i < 512" using assms(2) by (simp add: word_less_nat_alt)
  have "unat (8 * i) = 8 * unat i" using i by (simp add: unat_word_ariths(2))
  then have "unat (8 * i + of_nat k) = 8 * unat i + k" using i k assms(3) by (simp add: unat_word_ariths(1))
  then have "8 * i + of_nat k < PGSIZE" using i assms(3) by (simp add: word_less_nat_alt PGSIZE_def)
  moreover have "slot p i + of_nat k - p = 8 * i + of_nat k" by (simp add: slot_def)
  ultimately have "slot p i + of_nat k - p < PGSIZE" by (simp only:)
  then show ?thesis using page_of [OF assms(1)] by blast
qed

text \<open>A table entry depends on the bytes of its page only.\<close>

lemma read64_slot_cong:
  assumes "aligned p" and "i < 512" and "\<And>x. PGROUNDDOWN x = p \<Longrightarrow> m x = m' x"
  shows "read64 m (slot p i) = read64 m' (slot p i)"
  by (rule read64_cong) (use assms slot_page in auto)

lemma write64_page:
  assumes "aligned p" and "i < 512" and "PGROUNDDOWN x \<noteq> p"
  shows "write64 (slot p i) v m x = m x"
proof -
  have "\<not> x - slot p i < 8"
  proof
    assume lt: "x - slot p i < 8"
    then have "unat (x - slot p i) < 8" by (simp add: word_less_nat_alt)
    from slot_page [OF assms(1,2) this] have "PGROUNDDOWN x = p" by simp
    with assms(3) show False ..
  qed
  then show ?thesis by (simp add: write64_def)
qed

lemma read64_slot_other_page:
  assumes "aligned p" and "aligned q" and "i < 512" and "j < 512" and "p \<noteq> q"
  shows "read64 (write64 (slot p i) v m) (slot q j) = read64 m (slot q j)"
  by (rule read64_slot_cong) (use assms write64_page in auto)

lemma slot_apart:
  assumes "i < 512" and "j < 512" and "i \<noteq> j" and "k < 8"
  shows "\<not> slot p j + of_nat k - slot p i < 8"
proof -
  have k: "unat (of_nat k :: uint64) = k" using assms(4) by (simp add: unat_of_nat take_bit_eq_mod)
  have i: "unat i < 512" "unat j < 512" using assms(1,2) by (simp_all add: word_less_nat_alt)
  have "unat i \<noteq> unat j" using assms(3) by (simp add: word_unat_eq_iff)
  have e: "unat (8 * i) = 8 * unat i" "unat (8 * j + of_nat k) = 8 * unat j + k"
    using i k assms(4) by (simp_all add: unat_word_ariths(1,2))
  have "slot p j + of_nat k - slot p i = (8 * j + of_nat k) - 8 * i" by (simp add: slot_def)
  moreover have "\<not> unat ((8 * j + of_nat k) - 8 * i) < 8"
    using i e assms(4) \<open>unat i \<noteq> unat j\<close> by (simp add: unat_sub_if') linarith
  then have "\<not> (8 * j + of_nat k) - 8 * i < 8" by (simp add: word_less_nat_alt)
  ultimately show ?thesis by (simp only: not_False_eq_True)
qed

lemma read64_slot_same_page:
  assumes "i < 512" and "j < 512" and "i \<noteq> j"
  shows "read64 (write64 (slot p i) v m) (slot p j) = read64 m (slot p j)"
  by (rule read64_cong) (use slot_apart [OF assms] in \<open>simp add: write64_def\<close>)

lemma read64_slot_write:
  assumes "aligned p" and "aligned q" and "i < 512" and "j < 512"
  shows "read64 (write64 (slot p i) v m) (slot q j) = (if p = q \<and> i = j then v else read64 m (slot q j))"
proof (cases "p = q")
  case True
  then show ?thesis
    using read64_slot_same_page [OF assms(3,4)] read64_write64_same by (cases "i = j") simp_all
qed (simp add: assms read64_slot_other_page)

lemma memset_page: "aligned p \<Longrightarrow> memset p c 4096 m x = (if PGROUNDDOWN x = p then c else m x)"
  using page_of [of p x] by (simp add: memset_eq PGSIZE_def word_less_nat_alt)

lemma read64_memset_0: "aligned p \<Longrightarrow> i < 512 \<Longrightarrow> read64 (memset p 0 4096 m) (slot p i) = 0"
proof -
  assume "aligned p" "i < 512"
  then have "read64 (memset p 0 4096 m) (slot p i) = read64 (\<lambda>_. 0) (slot p i)"
    by (intro read64_cong) (simp add: memset_page slot_page)
  then show ?thesis by (simp add: read64_def upt_rec)
qed

lemma read64_memset_other:
  "aligned p \<Longrightarrow> aligned q \<Longrightarrow> j < 512 \<Longrightarrow> p \<noteq> q \<Longrightarrow> read64 (memset p c 4096 m) (slot q j) = read64 m (slot q j)"
  by (rule read64_slot_cong) (auto simp: memset_page)

lemma read64_write64_apart:
  assumes "8 \<le> b - a" and "8 \<le> a - b"
  shows "read64 (write64 a v m) b = read64 m b"
proof (rule read64_cong)
  fix i :: nat assume i: "i < 8"
  define d where "d = b - a"
  have "8 \<le> unat d" "unat d + 8 \<le> 2 ^ 64"
  proof -
    show "8 \<le> unat d" using assms(1) by (simp add: d_def word_le_nat_alt)
    have "unat (- d) = 2 ^ 64 - unat d"
      using \<open>8 \<le> unat d\<close> unat_sub_if' [of 0 d] by simp
    moreover have "8 \<le> unat (- d)" using assms(2) by (simp add: d_def word_le_nat_alt)
    ultimately show "unat d + 8 \<le> 2 ^ 64" by linarith
  qed
  then have "unat (d + of_nat i) = unat d + i"
    using i by (simp add: unat_word_ariths unat_of_nat take_bit_eq_mod)
  then have "\<not> d + of_nat i < 8" using \<open>8 \<le> unat d\<close> by (simp add: word_less_nat_alt)
  moreover have "b + of_nat i - a = d + of_nat i" by (simp add: d_def)
  ultimately have "\<not> b + of_nat i - a < 8" by metis
  then show "write64 a v m (b + of_nat i) = m (b + of_nat i)" by (simp add: write64_def)
qed

end
