(* ===== verification/Kalloc.thy ===== *)
theory Kalloc
  imports Sched Physmem
begin

text \<open>
  \<^verbatim>\<open>kernel/kalloc.c\<close>, the page allocator, and the part of \<^verbatim>\<open>kernel/vm.c\<close> it depends on: the
  frame table, the swap area and the clock algorithm of \<open>evict_page\<close>.

  The free list is threaded through the free pages (\<open>r->next\<close> is the first word of the page) in
  byte memory.  A frame-table entry points to its process by index.  The pointer \<open>walk\<close> returns is
  an option, \<^term>\<open>None\<close> the null pointer; \<open>walk_lookup\<close> is \<open>walk\<close> with \<open>alloc == 0\<close>.
  The linker symbols \<open>end\<close>, \<open>etext\<close> and \<open>trampoline\<close> are fields of the state.
\<close>

section \<open>State\<close>

record frame =
  f_is_used :: uint8
  f_p :: "nat option"
  f_va :: uint64
  f_rb :: uint8

record mem_state = sched_state +
  mem :: memory
  freelist :: uint64
  ft_f :: "nat \<Rightarrow> frame"
  clock_p :: nat
  swap_mask :: "nat \<Rightarrow> uint8"
  kernel_pagetable :: uint64
  sym_end :: uint64
  sym_etext :: uint64
  sym_trampoline :: uint64

definition NFRAMES :: nat where "NFRAMES = unat ((PHYSTOP - KERNBASE) div PGSIZE)"
definition MAX_SP :: nat where "MAX_SP = 4096"
definition SWAP_BASE :: uint64 where "SWAP_BASE = PHYSTOP"

section \<open>Swap slots\<close>

definition sinit :: "'a mem_state_scheme \<Rightarrow> 'a mem_state_scheme" where
  "sinit s = fold (\<lambda>i s. s\<lparr>swap_mask := (swap_mask s)(i := 0)\<rparr>) [0..<MAX_SP] s"

definition get_swap_addr :: "int \<Rightarrow> uint64" where
  "get_swap_addr index = SWAP_BASE + of_int index * PGSIZE"

definition alloc_swap_index :: "'a mem_state_scheme \<Rightarrow> (int \<times> 'a mem_state_scheme) option" where
  "alloc_swap_index s = do {
     s \<leftarrow> acq SwapLock s;
     case find (\<lambda>i. swap_mask s i = 0) [0..<MAX_SP] of
       Some i \<Rightarrow> do {
         let s = s\<lparr>swap_mask := (swap_mask s)(i := 1)\<rparr>;
         s \<leftarrow> rel SwapLock s;
         Some (int i, s)
       }
     | None \<Rightarrow> do { s \<leftarrow> rel SwapLock s; Some (- 1, s) }
   }"

definition free_swap_index :: "int \<Rightarrow> 'a mem_state_scheme \<Rightarrow> 'a mem_state_scheme option" where
  "free_swap_index index s = do {
     s \<leftarrow> acq SwapLock s;
     check (0 \<le> index \<and> index < int MAX_SP);
     let s = s\<lparr>swap_mask := (swap_mask s)(nat index := 0)\<rparr>;
     rel SwapLock s
   }"

section \<open>Looking up a page-table entry\<close>

fun walk_down :: "memory \<Rightarrow> uint64 \<Rightarrow> nat list \<Rightarrow> uint64 \<Rightarrow> uint64 option" where
  "walk_down m va [] pt = Some pt"
| "walk_down m va (level # ls) pt =
     (let pte = read64 m (slot pt (PX level va)) in
      if pte AND PTE_V \<noteq> 0 then walk_down m va ls (PTE2PA pte) else None)"

definition walk_lookup :: "memory \<Rightarrow> uint64 \<Rightarrow> uint64 \<Rightarrow> uint64 option option" where
  "walk_lookup m pt va =
     (if va \<ge> MAXVA then panic ''walk''
      else Some (map_option (\<lambda>t. slot t (PX 0 va)) (walk_down m va [2, 1] pt)))"

section \<open>Eviction\<close>

text \<open>One visit of the clock hand, and the two passes.  \<open>to_evict\<close> is an option for the index that
  is negative while nothing was found; \<open>pass = 2\<close> in the code ends the search after the pass in
  which something was found.\<close>

definition evict_visit :: "nat \<Rightarrow> nat option \<times> 'a mem_state_scheme \<Rightarrow> nat option \<times> 'a mem_state_scheme" where
  "evict_visit _ = (\<lambda>(to_evict, s).
     let c = clock_p s; v = ft_f s c; advance = (\<lambda>s. s\<lparr>clock_p := (c + 1) mod NFRAMES\<rparr>) in
     case (if f_is_used v \<noteq> 0 then f_p v else None) of
       None \<Rightarrow> (to_evict, advance s)
     | Some p \<Rightarrow>
         if p_state (procs s p) = RUNNING \<and> Some p \<noteq> myproc s then (to_evict, advance s)
         else if f_rb v \<noteq> 0 then (to_evict, advance (s\<lparr>ft_f := (ft_f s)(c := v\<lparr>f_rb := 0\<rparr>)\<rparr>))
         else
           ((case to_evict of
               None \<Rightarrow> Some c
             | Some e \<Rightarrow> if p_qlevel (procs s (the (f_p (ft_f s e)))) < p_qlevel (procs s p)
                         then Some c else Some e), advance s))"

definition evict_pass :: "'a mem_state_scheme \<Rightarrow> nat option \<times> 'a mem_state_scheme" where
  "evict_pass s = fold evict_visit [0..<NFRAMES] (None, s)"

definition evict_select :: "'a mem_state_scheme \<Rightarrow> nat option \<times> 'a mem_state_scheme" where
  "evict_select s =
     (case evict_pass s of
       (Some e, s) \<Rightarrow> (Some e, s)
     | (None, s) \<Rightarrow> evict_pass s)"

definition evict_page :: "'a mem_state_scheme \<Rightarrow> (uint64 \<times> 'a mem_state_scheme) option" where
  "evict_page s = do {
     s \<leftarrow> acq FrametableLock s;
     case evict_select s of
       (None, s) \<Rightarrow> panic ''cannot evict''
     | (Some to_evict, s) \<Rightarrow> do {
         let va = f_va (ft_f s to_evict);
         let p = the (f_p (ft_f s to_evict));
         pte \<leftarrow> walk_lookup (mem s) (p_pagetable (procs s p)) va;
         case pte of
           None \<Rightarrow> panic ''pte not valid 3''
         | Some pte \<Rightarrow>
             if read64 (mem s) pte AND PTE_V = 0 then panic ''pte not valid 3''
             else do {
               let pa = PTE2PA (read64 (mem s) pte);
               (swap_index, s) \<leftarrow> alloc_swap_index s;
               if swap_index = - 1 then panic ''OOM''
               else do {
                 s \<leftarrow> acq SwapLock s;
                 let s = s\<lparr>mem := memmove (get_swap_addr swap_index) pa 4096 (mem s)\<rparr>;
                 s \<leftarrow> rel SwapLock s;
                 let flags = PTE_FLAGS (read64 (mem s) pte);
                 let s = s\<lparr>mem := write64 pte
                   (push_bit 10 (of_int swap_index) OR (flags AND NOT PTE_V) OR PTE_S) (mem s)\<rparr>;
                 let s = upd_proc p (\<lambda>x. x\<lparr>p_page_evicted := p_page_evicted x + 1,
                   p_pages_swapped_out := p_pages_swapped_out x + 1,
                   p_resident_pages := p_resident_pages x - 1\<rparr>) s;
                 let s = s\<lparr>ft_f := (ft_f s)(to_evict := (ft_f s to_evict)\<lparr>f_is_used := 0, f_p := None\<rparr>)\<rparr>;
                 s \<leftarrow> rel FrametableLock s;
                 Some (pa, s)
               }
             }
       }
   }"

section \<open>The allocator\<close>

definition kfree :: "uint64 \<Rightarrow> 'a mem_state_scheme \<Rightarrow> 'a mem_state_scheme option" where
  "kfree pa s =
     (if pa mod PGSIZE \<noteq> 0 \<or> pa < sym_end s \<or> pa \<ge> PHYSTOP then panic ''kfree''
      else do {
        s \<leftarrow> acq FrametableLock s;
        let i = sint (ucast ((pa - KERNBASE) div PGSIZE) :: 32 word);
        let s = (if i \<ge> 0 \<and> i < int NFRAMES
          then s\<lparr>ft_f := (ft_f s)(nat i := \<lparr>f_is_used = 0, f_p = None, f_va = 0, f_rb = 0\<rparr>)\<rparr> else s);
        s \<leftarrow> rel FrametableLock s;
        let s = s\<lparr>mem := memset pa 1 4096 (mem s)\<rparr>;
        s \<leftarrow> acq KmemLock s;
        let s = s\<lparr>mem := write64 pa (freelist s) (mem s)\<rparr>;
        let s = s\<lparr>freelist := pa\<rparr>;
        rel KmemLock s
      })"

definition kalloc :: "'a mem_state_scheme \<Rightarrow> (uint64 \<times> 'a mem_state_scheme) option" where
  "kalloc s = do {
     s \<leftarrow> acq KmemLock s;
     let r = freelist s;
     let s = (if r \<noteq> 0 then s\<lparr>freelist := read64 (mem s) r\<rparr> else s);
     s \<leftarrow> rel KmemLock s;
     let s = (if r \<noteq> 0 then s\<lparr>mem := memset r 5 4096 (mem s)\<rparr> else s);
     if r = 0
     then do {
       (pa, s) \<leftarrow> evict_page s;
       if pa \<noteq> 0 then Some (pa, s) else Some (r, s)
     }
     else Some (r, s)
   }"

partial_function (option) freerange_loop ::
  "uint64 \<Rightarrow> uint64 \<Rightarrow> 'a mem_state_scheme \<Rightarrow> 'a mem_state_scheme option" where
  "freerange_loop p pa_end s =
     (if p + PGSIZE \<le> pa_end
      then Option.bind (kfree p s) (\<lambda>s. freerange_loop (p + PGSIZE) pa_end s)
      else Some s)"

definition freerange :: "uint64 \<Rightarrow> uint64 \<Rightarrow> 'a mem_state_scheme \<Rightarrow> 'a mem_state_scheme option" where
  "freerange pa_start pa_end s = freerange_loop (PGROUNDUP pa_start) pa_end s"

definition kinit :: "'a mem_state_scheme \<Rightarrow> 'a mem_state_scheme option" where
  "kinit s = freerange (sym_end s) PHYSTOP s"

section \<open>The free list\<close>

lemma mem_held_outermost [simp]:
  "s\<lparr>held := h, mem := m\<rparr> = s\<lparr>mem := m, held := h\<rparr>"
  "s\<lparr>held := h, freelist := f\<rparr> = s\<lparr>freelist := f, held := h\<rparr>"
  "s\<lparr>held := h, ft_f := t\<rparr> = s\<lparr>ft_f := t, held := h\<rparr>"
  "s\<lparr>held := h, clock_p := c\<rparr> = s\<lparr>clock_p := c, held := h\<rparr>"
  "s\<lparr>held := h, swap_mask := w\<rparr> = s\<lparr>swap_mask := w, held := h\<rparr>"
  "s\<lparr>held := h, kernel_pagetable := k\<rparr> = s\<lparr>kernel_pagetable := k, held := h\<rparr>"
  by simp_all

lemma held_self: "held s = h \<Longrightarrow> s\<lparr>held := h\<rparr> = s"
  by simp

text \<open>\<open>ram_page s p\<close>: a page the allocator may own.\<close>

definition ram_page :: "'a mem_state_scheme \<Rightarrow> uint64 \<Rightarrow> bool" where
  "ram_page s p \<longleftrightarrow> aligned p \<and> KERNBASE \<le> p \<and> sym_end s \<le> p \<and> p < PHYSTOP"

definition frame_no :: "uint64 \<Rightarrow> nat" where
  "frame_no p = unat ((p - KERNBASE) div PGSIZE)"

definition free_frame :: frame where
  "free_frame = \<lparr>f_is_used = 0, f_p = None, f_va = 0, f_rb = 0\<rparr>"

lemma NFRAMES_eq: "NFRAMES = 512"
  by (simp add: NFRAMES_def PHYSTOP_def KERNBASE_def PGSIZE_def)

lemma frame_no_less: "ram_page s p \<Longrightarrow> frame_no p < NFRAMES"
proof -
  assume "ram_page s p"
  then have "unat KERNBASE \<le> unat p" "unat p < unat PHYSTOP"
    by (simp_all add: ram_page_def word_le_nat_alt word_less_nat_alt)
  then have "unat (p - KERNBASE) < 2097152"
    by (simp add: unat_sub word_le_nat_alt KERNBASE_def PHYSTOP_def)
  then show ?thesis by (simp add: frame_no_def NFRAMES_eq unat_div PGSIZE_def) 
qed

lemma frame_index: "ram_page s p \<Longrightarrow> sint (ucast ((p - KERNBASE) div PGSIZE) :: 32 word) = int (frame_no p)"
proof -
  assume "ram_page s p"
  from frame_no_less [OF this] have lt: "unat ((p - KERNBASE) div PGSIZE) < 512"
    by (simp add: frame_no_def NFRAMES_eq)
  have "uint ((p - KERNBASE) div PGSIZE) = int (frame_no p)" by (simp add: frame_no_def)
  moreover have "int (frame_no p) < 512" using lt unfolding frame_no_def by linarith
  ultimately have "uint (ucast ((p - KERNBASE) div PGSIZE) :: 32 word) = int (frame_no p)" "int (frame_no p) < 512"
    by (simp_all add: unsigned_ucast_eq take_bit_eq_mod)
  then show ?thesis by (simp add: sint_uint signed_take_bit_int_eq_self)
qed


lemma kfree_eq:
  assumes "ram_page s p" and "FrametableLock \<notin> held s" and "KmemLock \<notin> held s"
  shows "kfree p s = Some (s\<lparr>ft_f := (ft_f s)(frame_no p := free_frame),
     mem := write64 p (freelist s) (memset p 1 4096 (mem s)), freelist := p\<rparr>)"
proof -
  have "p mod PGSIZE = 0" "\<not> p < sym_end s" "\<not> p \<ge> PHYSTOP"
    using assms(1) by (auto simp: ram_page_def aligned_def)
  moreover note frame_index [OF assms(1)] frame_no_less [OF assms(1)]
  ultimately show ?thesis
    using assms(2,3) by (simp add: kfree_def lock_simps Let_def free_frame_def)
qed

lemma kalloc_eq:
  assumes "freelist s \<noteq> 0" and "KmemLock \<notin> held s"
  shows "kalloc s = Some (freelist s, s\<lparr>freelist := read64 (mem s) (freelist s),
     mem := memset (freelist s) 5 4096 (mem s)\<rparr>)"
  using assms by (simp add: kalloc_def lock_simps Let_def)

fun flist :: "memory \<Rightarrow> uint64 \<Rightarrow> uint64 list \<Rightarrow> bool" where
  "flist m p [] \<longleftrightarrow> p = 0"
| "flist m p (x # xs) \<longleftrightarrow> p = x \<and> x \<noteq> 0 \<and> flist m (read64 m x) xs"

definition free_pages :: "'a mem_state_scheme \<Rightarrow> uint64 list \<Rightarrow> bool" where
  "free_pages s xs \<longleftrightarrow> flist (mem s) (freelist s) xs \<and> distinct xs \<and> (\<forall>x \<in> set xs. ram_page s x)
     \<and> KmemLock \<notin> held s \<and> FrametableLock \<notin> held s"

lemma slot_0 [simp]: "slot p 0 = p" by (simp add: slot_def)

lemma flist_cong:
  assumes "\<forall>x \<in> set xs. aligned x" and "\<And>x. PGROUNDDOWN x \<in> set xs \<Longrightarrow> m' x = m x"
  shows "flist m p xs \<Longrightarrow> flist m' p xs"
  using assms
proof (induction xs arbitrary: p)
  case (Cons x xs)
  have "read64 m' (slot x 0) = read64 m (slot x 0)"
    by (rule read64_slot_cong) (use Cons.prems in auto)
  with Cons show ?case by simp
qed simp

lemma ram_page_nonzero: "ram_page s p \<Longrightarrow> p \<noteq> 0"
  by (auto simp: ram_page_def KERNBASE_def)

lemma ram_page_aligned: "ram_page s p \<Longrightarrow> aligned p"
  by (simp add: ram_page_def)

lemma ram_page_cong: "sym_end t = sym_end s \<Longrightarrow> ram_page t p = ram_page s p"
  by (simp add: ram_page_def)

lemma kalloc_free_pages:
  assumes "free_pages s (x # xs)"
  shows "\<exists>t. kalloc s = Some (x, t) \<and> free_pages t xs
    \<and> t = s\<lparr>freelist := read64 (mem s) x, mem := memset x 5 4096 (mem s)\<rparr>"
proof -
  let ?t = "s\<lparr>freelist := read64 (mem s) x, mem := memset x 5 4096 (mem s)\<rparr>"
  have x: "freelist s = x" "x \<noteq> 0" "aligned x" "x \<notin> set xs" "\<forall>y \<in> set xs. aligned y"
    using assms by (auto simp: free_pages_def ram_page_def)
  then have "kalloc s = Some (x, ?t)" using assms by (simp add: kalloc_eq free_pages_def)
  moreover have "flist (memset x 5 4096 (mem s)) (read64 (mem s) x) xs"
    by (rule flist_cong [of _ _ "mem s"]) (use assms x in \<open>auto simp: free_pages_def memset_page\<close>)
  then have "free_pages ?t xs" using assms by (auto simp: free_pages_def ram_page_def)
  ultimately show ?thesis by blast
qed

lemma kfree_free_pages:
  assumes "free_pages s xs" and "ram_page s p" and "p \<notin> set xs"
  shows "\<exists>t. kfree p s = Some t \<and> free_pages t (p # xs)
    \<and> t = s\<lparr>ft_f := (ft_f s)(frame_no p := free_frame),
         mem := write64 p (freelist s) (memset p 1 4096 (mem s)), freelist := p\<rparr>"
proof -
  let ?m = "write64 p (freelist s) (memset p 1 4096 (mem s))"
  let ?t = "s\<lparr>ft_f := (ft_f s)(frame_no p := free_frame), mem := ?m, freelist := p\<rparr>"
  have p: "aligned p" "p \<noteq> 0" using assms(2) ram_page_nonzero ram_page_aligned by blast+
  have "kfree p s = Some ?t" using assms by (intro kfree_eq) (auto simp: free_pages_def)
  moreover have "flist ?m (freelist s) xs"
  proof (rule flist_cong [of _ _ "mem s"])
    show "?m y = mem s y" if "PGROUNDDOWN y \<in> set xs" for y
    proof -
      have "PGROUNDDOWN y \<noteq> p" using that assms(3) by blast
      with write64_page [of p 0 y "freelist s"] p show ?thesis by (simp add: memset_page)
    qed
  qed (use assms(1) in \<open>auto simp: free_pages_def ram_page_def\<close>)
  then have "free_pages ?t (p # xs)"
    using assms p by (auto simp: free_pages_def ram_page_def read64_write64_same)
  ultimately show ?thesis by blast
qed


section \<open>The allocator's contract\<close>

text \<open>Clients rely on a pool of pages: allocation takes one out, freeing puts one back.\<close>

locale page_pool =
  fixes alloc :: "'s \<Rightarrow> ('p \<times> 's) option"
    and free :: "'p \<Rightarrow> 's \<Rightarrow> 's option"
    and pool :: "'s \<Rightarrow> 'p list \<Rightarrow> bool"
    and page :: "'s \<Rightarrow> 'p \<Rightarrow> bool"
  assumes alloc_pool: "pool s (x # xs) \<Longrightarrow> runs (alloc s) (\<lambda>(p, t). p = x \<and> pool t xs \<and> page t = page s)"
    and free_pool: "pool s xs \<Longrightarrow> page s p \<Longrightarrow> p \<notin> set xs \<Longrightarrow>
      runs (free p s) (\<lambda>t. pool t (p # xs) \<and> page t = page s)"
    and pool_distinct: "pool s xs \<Longrightarrow> distinct xs"
    and pool_page: "pool s xs \<Longrightarrow> x \<in> set xs \<Longrightarrow> page s x"
begin

fun alloc_n :: "nat \<Rightarrow> 's \<Rightarrow> ('p list \<times> 's) option" where
  "alloc_n 0 s = Some ([], s)"
| "alloc_n (Suc n) s = do {(p, s) \<leftarrow> alloc s; (ps, s) \<leftarrow> alloc_n n s; Some (p # ps, s)}"

lemma alloc_many:
  assumes "pool s xs" and "n \<le> length xs"
  shows "runs (alloc_n n s) (\<lambda>(ps, t). ps = take n xs \<and> pool t (drop n xs) \<and> page t = page s)"
  using assms
proof (induction n arbitrary: s xs)
  case (Suc n)
  then obtain x ys where xs: "xs = x # ys" by (cases xs) auto
  from alloc_pool [OF Suc.prems(1) [unfolded xs]]
  obtain t where t: "alloc s = Some (x, t)" "pool t ys" "page t = page s"
    by (auto elim!: runsE)
  with Suc.IH [OF t(2)] Suc.prems(2) show ?case
    by (auto simp: xs elim!: runs_mono)
qed simp

lemma free_then_alloc:
  assumes "pool s xs" and "page s p" and "p \<notin> set xs"
  shows "runs (do {t \<leftarrow> free p s; alloc t}) (\<lambda>(q, u). q = p \<and> pool u xs)"
  using free_pool [OF assms] alloc_pool by (fastforce elim!: runsE)

lemma alloc_then_free:
  assumes "pool s (x # xs)"
  shows "runs (do {(p, t) \<leftarrow> alloc s; free p t}) (\<lambda>u. pool u (x # xs))"
proof -
  from alloc_pool [OF assms] obtain t where t: "alloc s = Some (x, t)" "pool t xs" "page t = page s"
    by (auto elim!: runsE)
  have "page t x" "x \<notin> set xs"
    using pool_page [OF assms, of x] pool_distinct [OF assms] t(3) by simp_all
  from free_pool [OF t(2) this] have "runs (free x t) (\<lambda>u. pool u (x # xs))" by (rule runs_mono) simp
  then show ?thesis by (simp add: t(1))
qed

end

interpretation kmem: page_pool kalloc kfree free_pages ram_page
proof
  show "runs (kalloc s) (\<lambda>(p, t). p = x \<and> free_pages t xs \<and> ram_page t = ram_page s)"
    if "free_pages s (x # xs)" for s :: "'a mem_state_scheme" and x xs
    using kalloc_free_pages [OF that] by (auto simp: ram_page_def fun_eq_iff)
  show "runs (kfree p s) (\<lambda>t. free_pages t (p # xs) \<and> ram_page t = ram_page s)"
    if "free_pages s xs" "ram_page s p" "p \<notin> set xs" for s :: "'a mem_state_scheme" and p xs
    using kfree_free_pages [OF that] by (auto simp: ram_page_def fun_eq_iff)
qed (auto simp: free_pages_def)

text \<open>C14.  Pages are never handed out twice: as long as the free list is long enough, \<open>n\<close>
  allocations return \<open>n\<close> different pages, all of them aligned RAM pages above the kernel image, and
  exactly those leave the free list.\<close>

theorem kalloc_never_twice:
  assumes "free_pages s xs" and "n \<le> length xs"
  shows "runs (kmem.alloc_n n s) (\<lambda>(ps, t). length ps = n \<and> distinct ps
    \<and> (\<forall>p \<in> set ps. ram_page s p) \<and> free_pages t (drop n xs) \<and> set ps \<inter> set (drop n xs) = {})"
proof -
  have "distinct (take n xs @ drop n xs)" "\<forall>p \<in> set xs. ram_page s p"
    using assms(1) by (simp_all add: free_pages_def)
  then have "distinct (take n xs)" "set (take n xs) \<inter> set (drop n xs) = {}" "\<forall>p \<in> set (take n xs). ram_page s p"
    unfolding distinct_append using set_take_subset [of n xs] by blast+
  with kmem.alloc_many [OF assms] assms(2) show ?thesis by (auto elim!: runs_mono)
qed

text \<open>C15.  \<open>kalloc\<close> and \<open>kfree\<close> on memory: an allocated page is filled with 5s, a freed page
  with 1s except for its link, and neither touches a byte outside the page; freeing clears the
  frame-table entry; a page freed is the next one allocated.\<close>

theorem kfree_kalloc:
  assumes "free_pages s xs" and "ram_page s p" and "p \<notin> set xs"
  shows "runs (do {t \<leftarrow> kfree p s; (q, u) \<leftarrow> kalloc t; Some (t, q, u)}) (\<lambda>(t, q, u).
     q = p \<and> free_pages t (p # xs) \<and> free_pages u xs
   \<and> ft_f t (frame_no p) = free_frame
   \<and> (\<forall>a. PGROUNDDOWN a = p \<longrightarrow> mem u a = 5 \<and> (8 \<le> a - p \<longrightarrow> mem t a = 1))
   \<and> (\<forall>a. PGROUNDDOWN a \<noteq> p \<longrightarrow> mem t a = mem s a \<and> mem u a = mem s a))"
proof -
  from kfree_free_pages [OF assms] obtain t where t: "kfree p s = Some t" "free_pages t (p # xs)"
    "t = s\<lparr>ft_f := (ft_f s)(frame_no p := free_frame),
         mem := write64 p (freelist s) (memset p 1 4096 (mem s)), freelist := p\<rparr>" by blast
  from kalloc_free_pages [OF t(2)] obtain u where u: "kalloc t = Some (p, u)" "free_pages u xs"
    "u = t\<lparr>freelist := read64 (mem t) p, mem := memset p 5 4096 (mem t)\<rparr>" by blast
  have p: "aligned p" using assms(2) by (rule ram_page_aligned)
  have "mem t a = 1" if "PGROUNDDOWN a = p" "8 \<le> a - p" for a
    using that p by (simp add: t(3) write64_def memset_page)
  moreover have "mem t a = mem s a" if "PGROUNDDOWN a \<noteq> p" for a
    using that write64_page [OF p _ that, of 0] p by (simp add: t(3) memset_page)
  moreover have "mem u a = (if PGROUNDDOWN a = p then 5 else mem t a)" for a
    using p by (simp add: u(3) memset_page)
  moreover have "ft_f t (frame_no p) = free_frame" by (simp add: t(3))
  ultimately show ?thesis using t(1,2) u(1,2) by simp
qed


section \<open>Boot\<close>

lemma freerange_stop: "\<not> p + PGSIZE \<le> e \<Longrightarrow> freerange_loop p e s = Some s"
  by (subst freerange_loop.simps) simp

lemma freerange_step:
  "p + PGSIZE \<le> e \<Longrightarrow> freerange_loop p e s = Option.bind (kfree p s) (freerange_loop (p + PGSIZE) e)"
  by (subst freerange_loop.simps) simp

text \<open>The pages \<open>p, p + PGSIZE, \<dots>\<close>, \<open>n\<close> of them.\<close>

definition pages_from :: "uint64 \<Rightarrow> nat \<Rightarrow> uint64 list" where
  "pages_from p n = map (\<lambda>i. p + of_nat i * PGSIZE) [0..<n]"

lemma pages_from_Suc: "pages_from p (Suc n) = p # pages_from (p + PGSIZE) n"
  by (simp add: pages_from_def upt_conv_Cons map_Suc_upt [symmetric] comp_def algebra_simps del: upt_Suc)

lemma freerange_pages:
  assumes "free_pages s xs" and "aligned p" and "KERNBASE \<le> p" and "sym_end s \<le> p"
    and "unat p + n * 4096 = unat PHYSTOP" and "\<forall>x \<in> set xs. x < p"
  shows "\<exists>t. freerange_loop p PHYSTOP s = Some t \<and> free_pages t (rev (pages_from p n) @ xs)"
  using assms
proof (induction n arbitrary: p s xs)
  case 0
  then have "p = PHYSTOP" by (simp add: word_unat_eq_iff)
  then have "\<not> p + PGSIZE \<le> PHYSTOP" by (simp add: PHYSTOP_def KERNBASE_def PGSIZE_def)
  then show ?case using 0 by (simp add: freerange_stop pages_from_def)
next
  case (Suc n)
  have top: "unat PHYSTOP = 0x80200000" by (simp add: PHYSTOP_def KERNBASE_def)
  have nxt: "unat (p + PGSIZE) = unat p + 4096"
    using Suc.prems(5) by (simp add: top unat_word_ariths(1) PGSIZE_def)
  have le: "p + PGSIZE \<le> PHYSTOP" and lt: "p < PHYSTOP"
    using Suc.prems(5) nxt by (simp_all add: word_le_nat_alt word_less_nat_alt)
  have page: "ram_page s p" using Suc.prems lt by (simp add: ram_page_def)
  have "p \<notin> set xs" using Suc.prems(6) by auto
  from kfree_free_pages [OF Suc.prems(1) page this] obtain t where
    t: "kfree p s = Some t" "free_pages t (p # xs)"
      "t = s\<lparr>ft_f := (ft_f s)(frame_no p := free_frame),
         mem := write64 p (freelist s) (memset p 1 4096 (mem s)), freelist := p\<rparr>" by blast
  have pn: "p < p + PGSIZE" using nxt by (simp add: word_less_nat_alt)
  have "\<exists>u. freerange_loop (p + PGSIZE) PHYSTOP t = Some u
     \<and> free_pages u (rev (pages_from (p + PGSIZE) n) @ p # xs)"
  proof (rule Suc.IH [OF t(2)])
    show "aligned (p + PGSIZE)" using Suc.prems(2) nxt by (simp add: aligned_iff)
    show "KERNBASE \<le> p + PGSIZE" "sym_end t \<le> p + PGSIZE"
      using Suc.prems(3,4) pn t(3) by (auto intro: order.trans order.strict_implies_order)
    show "unat (p + PGSIZE) + n * 4096 = unat PHYSTOP" using Suc.prems(5) nxt by simp
    show "\<forall>x \<in> set (p # xs). x < p + PGSIZE" using Suc.prems(6) pn by (auto intro: order.strict_trans)
  qed
  then show ?case
    using t by (auto simp: freerange_step [OF le] pages_from_Suc)
qed

text \<open>C16.  Boot: \<open>kinit\<close> returns, and afterwards the free list holds every whole page between the
  end of the kernel image and \<open>PHYSTOP\<close>, each exactly once.\<close>

theorem kinit_correct:
  assumes "freelist s = 0" and "held s = {}" and "KERNBASE \<le> sym_end s" and "sym_end s \<le> PHYSTOP"
  shows "\<exists>t n. kinit s = Some t \<and> free_pages t (rev (pages_from (PGROUNDUP (sym_end s)) n))
    \<and> unat (PGROUNDUP (sym_end s)) + n * 4096 = unat PHYSTOP"
proof -
  let ?p = "PGROUNDUP (sym_end s)"
  have top: "unat PHYSTOP = 0x80200000" "unat KERNBASE = 0x80000000" by (simp_all add: PHYSTOP_def KERNBASE_def)
  have e: "unat KERNBASE \<le> unat (sym_end s)" "unat (sym_end s) \<le> unat PHYSTOP"
    using assms(3,4) by (simp_all add: word_le_nat_alt)
  have p: "unat ?p = (unat (sym_end s) + 4095) div 4096 * 4096"
    using e by (intro unat_PGROUNDUP) (simp add: top)
  have "unat (sym_end s) \<le> unat ?p" "unat ?p \<le> unat PHYSTOP" "4096 dvd unat PHYSTOP - unat ?p"
    unfolding p top using e by (auto simp: top intro: dvd_diff_nat)
  moreover from this(3) obtain n where "unat PHYSTOP - unat ?p = n * 4096" by (metis dvd_def mult.commute)
  ultimately have n: "unat ?p + n * 4096 = unat PHYSTOP" "sym_end s \<le> ?p"
    by (simp_all add: word_le_nat_alt)
  moreover have "free_pages s []" using assms(1,2) by (simp add: free_pages_def)
  ultimately have "\<exists>t. freerange_loop ?p PHYSTOP s = Some t \<and> free_pages t (rev (pages_from ?p n) @ [])"
    using assms(3) by (intro freerange_pages) auto
  then show ?thesis using n by (auto simp: kinit_def freerange_def)
qed


section \<open>The clock\<close>

text \<open>A frame may be evicted when it is in use and its process is not running on another CPU.\<close>

definition evictable :: "'a mem_state_scheme \<Rightarrow> nat \<Rightarrow> bool" where
  "evictable s i \<longleftrightarrow> f_is_used (ft_f s i) \<noteq> 0 \<and>
     (case f_p (ft_f s i) of None \<Rightarrow> False
      | Some p \<Rightarrow> \<not> (p_state (procs s p) = RUNNING \<and> Some p \<noteq> myproc s))"

definition frame_level :: "'a mem_state_scheme \<Rightarrow> nat \<Rightarrow> nat" where
  "frame_level s i = p_qlevel (procs s (the (f_p (ft_f s i))))"

text \<open>The best victim among the frames \<open>V\<close>: not referenced, of the lowest priority.\<close>

definition best_victim :: "'a mem_state_scheme \<Rightarrow> nat set \<Rightarrow> nat option \<Rightarrow> bool" where
  "best_victim s V te \<longleftrightarrow> (case te of
     None \<Rightarrow> \<forall>i \<in> V. evictable s i \<longrightarrow> f_rb (ft_f s i) \<noteq> 0
   | Some e \<Rightarrow> e \<in> V \<and> evictable s e \<and> f_rb (ft_f s e) = 0 \<and>
       (\<forall>i \<in> V. evictable s i \<longrightarrow> f_rb (ft_f s i) = 0 \<longrightarrow> frame_level s i \<le> frame_level s e))"

definition swept :: "'a mem_state_scheme \<Rightarrow> nat set \<Rightarrow> nat \<Rightarrow> 'a mem_state_scheme" where
  "swept s V c = s\<lparr>ft_f := (\<lambda>i. if i \<in> V \<and> evictable s i then (ft_f s i)\<lparr>f_rb := 0\<rparr> else ft_f s i),
     clock_p := c\<rparr>"

lemma swept_simps [simp]:
  "procs (swept s V c) = procs s" "clock_p (swept s V c) = c" "myproc (swept s V c) = myproc s"
  "i \<notin> V \<Longrightarrow> ft_f (swept s V c) i = ft_f s i"
  "f_is_used (ft_f (swept s V c) i) = f_is_used (ft_f s i)" "f_p (ft_f (swept s V c) i) = f_p (ft_f s i)"
  by (simp_all add: swept_def myproc_def)

lemma visit_swept:
  assumes "c \<notin> V" and "best_victim s V te"
  shows "\<exists>te'. evict_visit k (te, swept s V c) = (te', swept s (insert c V) ((c + 1) mod NFRAMES))
    \<and> best_victim s (insert c V) te'"
proof (cases "evictable s c")
  case False
  then have "evict_visit k (te, swept s V c) = (te, (swept s V c)\<lparr>clock_p := (c + 1) mod NFRAMES\<rparr>)"
    using assms(1) by (cases "f_p (ft_f s c)"; cases "f_is_used (ft_f s c) = 0")
       (simp_all add: evict_visit_def evictable_def Let_def)
  moreover have "(swept s V c)\<lparr>clock_p := d\<rparr> = swept s (insert c V) d" for d
    using False by (auto simp: swept_def fun_eq_iff)
  ultimately show ?thesis using False assms(2) by (auto simp: best_victim_def split: option.splits)
next
  case True
  then obtain p where p: "f_is_used (ft_f s c) \<noteq> 0" "f_p (ft_f s c) = Some p"
      "p_state (procs s p) \<noteq> RUNNING \<or> myproc s = Some p"
    by (auto simp: evictable_def split: option.splits)
  have sw: "(swept s V c)\<lparr>ft_f := (ft_f (swept s V c))(c := (ft_f s c)\<lparr>f_rb := 0\<rparr>), clock_p := d\<rparr>
      = swept s (insert c V) d" for d
    using True by (auto simp: swept_def fun_eq_iff)
  show ?thesis
  proof (cases "f_rb (ft_f s c) = 0")
    case False
    then have "evict_visit k (te, swept s V c) = (te, swept s (insert c V) ((c + 1) mod NFRAMES))"
      using assms(1) p
      by (elim disjE) (simp_all add: evict_visit_def Let_def sw)
    then show ?thesis using False assms(2) by (auto simp: best_victim_def split: option.splits)
  next
    case rb: True
    have "(ft_f s c)\<lparr>f_rb := 0\<rparr> = ft_f s c" using rb by simp
    then have sw': "(swept s V c)\<lparr>clock_p := d\<rparr> = swept s (insert c V) d" for d
      using True by (auto simp: swept_def fun_eq_iff)
    let ?te = "case te of None \<Rightarrow> Some c
      | Some e \<Rightarrow> if frame_level s e < frame_level s c then Some c else Some e"
    have "evict_visit k (te, swept s V c) = (?te, swept s (insert c V) ((c + 1) mod NFRAMES))"
      using assms(1) p rb
      by (cases te; elim disjE) (simp_all add: evict_visit_def Let_def sw' frame_level_def)
    moreover have "best_victim s (insert c V) ?te"
      using assms(2) True rb by (fastforce simp: best_victim_def split: option.splits)
    ultimately show ?thesis by blast
  qed
qed

lemma mod_image_Suc: "(\<lambda>j. (c + j) mod n) ` {..<Suc k} = insert ((c + k) mod n) ((\<lambda>j. (c + j) mod n) ` {..<k})"
  by (simp add: lessThan_Suc)

lemma mod_not_visited: "k < n \<Longrightarrow> (c + k) mod n \<notin> (\<lambda>j. (c + j) mod n) ` {..<k :: nat}"
proof
  assume k: "k < n" and "(c + k) mod n \<in> (\<lambda>j. (c + j) mod n) ` {..<k}"
  then obtain j where j: "j < k" "(c + k) mod n = (c + j) mod n" by auto
  then have "n dvd (c + k) - (c + j)" by (simp add: mod_eq_dvd_iff_nat)
  then have "n dvd k - j" by simp
  with j(1) k show False by (auto dest: dvd_imp_le)
qed

lemma evict_steps:
  assumes "clock_p s < NFRAMES" and "k \<le> NFRAMES"
  shows "\<exists>te. fold evict_visit [0..<k] (None, s) =
      (te, swept s ((\<lambda>j. (clock_p s + j) mod NFRAMES) ` {..<k}) ((clock_p s + k) mod NFRAMES))
    \<and> best_victim s ((\<lambda>j. (clock_p s + j) mod NFRAMES) ` {..<k}) te"
  using assms(2)
proof (induction k)
  case 0
  have "swept s {} (clock_p s mod NFRAMES) = s" using assms(1) by (simp add: swept_def)
  then show ?case by (simp add: best_victim_def)
next
  case (Suc k)
  then obtain te where te: "fold evict_visit [0..<k] (None, s) =
      (te, swept s ((\<lambda>j. (clock_p s + j) mod NFRAMES) ` {..<k}) ((clock_p s + k) mod NFRAMES))"
    "best_victim s ((\<lambda>j. (clock_p s + j) mod NFRAMES) ` {..<k}) te" by auto
  from visit_swept [OF mod_not_visited te(2), of k] Suc.prems te(1) show ?case
    unfolding mod_image_Suc by (simp add: mod_Suc_eq)
qed

lemma mod_image_all: "c < n \<Longrightarrow> (\<lambda>j. (c + j) mod n) ` {..<n :: nat} = {..<n}"
proof (rule card_subset_eq)
  assume c: "c < n"
  have differ: "(c + j) mod n \<noteq> (c + k) mod n" if "j < k" "k < n" for j k
    using mod_not_visited [OF that(2), of c] that(1) by (metis image_eqI lessThan_iff)
  have "inj_on (\<lambda>j. (c + j) mod n) {..<n}"
  proof (rule inj_onI)
    fix j k assume "j \<in> {..<n}" "k \<in> {..<n}" "(c + j) mod n = (c + k) mod n"
    then show "j = k" using differ [of j k] differ [of k j] by (cases j k rule: linorder_cases) auto
  qed
  then show "card ((\<lambda>j. (c + j) mod n) ` {..<n}) = card {..<n}" by (simp add: card_image)
qed auto

lemma evict_pass_correct:
  assumes "clock_p s < NFRAMES"
  shows "\<exists>te. evict_pass s = (te, swept s {..<NFRAMES} (clock_p s)) \<and> best_victim s {..<NFRAMES} te"
  using evict_steps [OF assms order.refl] assms
  by (simp add: evict_pass_def mod_image_all)

text \<open>C17.  The clock algorithm.  The search ends after at most two passes; it finds nothing only
  when no frame may be evicted.  It spares frames referenced since the last pass as long as there
  is another choice (second chance), never takes a page of a process running on another CPU, and
  among the candidates takes one of a process with the lowest priority.\<close>

theorem evict_select_correct:
  assumes "clock_p s < NFRAMES"
  shows "case fst (evict_select s) of
      None \<Rightarrow> \<forall>i < NFRAMES. \<not> evictable s i
    | Some e \<Rightarrow> e < NFRAMES \<and> evictable s e
        \<and> (\<forall>i < NFRAMES. evictable s i \<longrightarrow> f_rb (ft_f s e) \<noteq> 0 \<longrightarrow> f_rb (ft_f s i) \<noteq> 0)
        \<and> (\<forall>i < NFRAMES. evictable s i \<longrightarrow> f_rb (ft_f s i) = 0 \<or> f_rb (ft_f s e) \<noteq> 0
             \<longrightarrow> frame_level s i \<le> frame_level s e)"
proof -
  let ?t = "swept s {..<NFRAMES} (clock_p s)"
  from evict_pass_correct [OF assms] obtain te where
    te: "evict_pass s = (te, ?t)" "best_victim s {..<NFRAMES} te" by blast
  show ?thesis
  proof (cases te)
    case (Some e)
    then show ?thesis using te by (simp add: evict_select_def best_victim_def)
  next
    case None
    then have rb: "\<forall>i < NFRAMES. evictable s i \<longrightarrow> f_rb (ft_f s i) \<noteq> 0"
      using te(2) by (simp add: best_victim_def)
    have same: "evictable ?t i = evictable s i" "frame_level ?t i = frame_level s i" for i
      by (simp_all add: evictable_def frame_level_def split: option.splits)
    have zero: "f_rb (ft_f ?t i) = 0" if "i < NFRAMES" "evictable s i" for i
      using that by (simp add: swept_def)
    from evict_pass_correct [of ?t] assms obtain te' where
      te': "fst (evict_pass ?t) = te'" "best_victim ?t {..<NFRAMES} te'" by auto
    have "fst (evict_select s) = te'" using te(1) te'(1) None by (simp add: evict_select_def)
    then show ?thesis
      using te'(2) rb zero by (auto simp: best_victim_def same split: option.splits)
  qed
qed


section \<open>Swapping a page out\<close>

lemma swept_mem [simp]:
  "mem (swept s V c) = mem s" "held (swept s V c) = held s" "swap_mask (swept s V c) = swap_mask s"
  "freelist (swept s V c) = freelist s" "sym_end (swept s V c) = sym_end s"
  "f_va (ft_f (swept s V c) i) = f_va (ft_f s i)"
  by (simp_all add: swept_def)

lemma swept_ft: "ft_f (swept s V c) i = (if i \<in> V \<and> evictable s i then (ft_f s i)\<lparr>f_rb := 0\<rparr> else ft_f s i)"
  by (simp add: swept_def)

lemma evictable_swept [simp]: "evictable (swept s V c) i = evictable s i"
  by (simp add: evictable_def split: option.splits)

lemma swept_swept: "swept (swept s V c) W d = swept s (V \<union> W) d"
proof -
  have "(\<lambda>i. if i \<in> W \<and> evictable s i then (ft_f (swept s V c) i)\<lparr>f_rb := 0\<rparr> else ft_f (swept s V c) i)
     = (\<lambda>i. if i \<in> V \<union> W \<and> evictable s i then (ft_f s i)\<lparr>f_rb := 0\<rparr> else ft_f s i)"
    by (auto simp: swept_ft fun_eq_iff)
  then show ?thesis by (simp add: swept_def [of "swept s V c"]) (simp add: swept_def)
qed

lemma evict_visit_held:
  "evict_visit k (te, s\<lparr>held := h\<rparr>) = apsnd (\<lambda>t. t\<lparr>held := h\<rparr>) (evict_visit k (te, s))"
proof -
  have "myproc (s\<lparr>held := h\<rparr>) = myproc s" by simp
  then show ?thesis
    by (cases "f_p (ft_f s (clock_p s))"; cases te) (simp_all add: evict_visit_def Let_def)
qed

lemma evict_fold_held:
  "fold evict_visit ks (te, s\<lparr>held := h\<rparr>) = apsnd (\<lambda>t. t\<lparr>held := h\<rparr>) (fold evict_visit ks (te, s))"
proof (induction ks arbitrary: te s)
  case (Cons k ks)
  then show ?case by (cases "evict_visit k (te, s)") (simp add: evict_visit_held)
qed simp

lemma evict_select_held:
  "evict_select (s\<lparr>held := h\<rparr>) = apsnd (\<lambda>t. t\<lparr>held := h\<rparr>) (evict_select s)"
proof -
  obtain te t where "evict_pass s = (te, t)" by (cases "evict_pass s")
  then show ?thesis
    by (cases te) (simp_all add: evict_select_def evict_pass_def evict_fold_held)
qed

lemma evict_select_state:
  assumes "clock_p s < NFRAMES"
  shows "snd (evict_select s) = swept s {..<NFRAMES} (clock_p s)"
proof -
  from evict_pass_correct [OF assms] obtain te where "evict_pass s = (te, swept s {..<NFRAMES} (clock_p s))"
    by blast
  moreover have "clock_p (swept s {..<NFRAMES} (clock_p s)) < NFRAMES" using assms by simp
  from evict_pass_correct [OF this] have
    "snd (evict_pass (swept s {..<NFRAMES} (clock_p s))) = swept s {..<NFRAMES} (clock_p s)"
    by (auto simp: swept_swept)
  ultimately show ?thesis by (cases te) (simp_all add: evict_select_def)
qed

definition swap_out_entry :: "nat \<Rightarrow> uint64 \<Rightarrow> uint64" where
  "swap_out_entry i e = push_bit 10 (of_nat i) OR (PTE_FLAGS e AND NOT PTE_V) OR PTE_S"

definition evicted_counts :: "proc \<Rightarrow> proc" where
  "evicted_counts x = x\<lparr>p_page_evicted := p_page_evicted x + 1,
     p_pages_swapped_out := p_pages_swapped_out x + 1, p_resident_pages := p_resident_pages x - 1\<rparr>"

text \<open>What \<open>evict_page\<close> does once a victim, its entry and a swap slot are found.\<close>

lemma evict_page_eq:
  assumes "clock_p s < NFRAMES" and "held s = {}" and sel: "fst (evict_select s) = Some v"
    and "f_p (ft_f s v) = Some p"
    and walk: "walk_lookup (mem s) (p_pagetable (procs s p)) (f_va (ft_f s v)) = Some (Some a)"
    and valid: "read64 (mem s) a AND PTE_V \<noteq> 0"
    and swap: "find (\<lambda>i. swap_mask s i = 0) [0..<MAX_SP] = Some i"
  shows "evict_page s = Some (PTE2PA (read64 (mem s) a),
     let m = memmove (get_swap_addr (int i)) (PTE2PA (read64 (mem s) a)) 4096 (mem s);
         t = swept s {..<NFRAMES} (clock_p s) in
     upd_proc p evicted_counts (t\<lparr>
       mem := write64 a (swap_out_entry i (read64 m a)) m,
       swap_mask := (swap_mask s)(i := 1),
       ft_f := (ft_f t)(v := (ft_f t v)\<lparr>f_is_used := 0, f_p := None\<rparr>)\<rparr>))"
proof -
  let ?t = "swept s {..<NFRAMES} (clock_p s)"
  have st: "evict_select s = (Some v, ?t)"
    using sel evict_select_state [OF assms(1)] by (simp add: prod_eq_iff)
  have fp: "f_p (ft_f ?t v) = Some p" "f_va (ft_f ?t v) = f_va (ft_f s v)" using assms(4) by simp_all
  have idx: "(of_int (int i) :: uint64) = of_nat i" "int i \<noteq> - 1" by simp_all
  show ?thesis
    using assms(2) fp walk valid swap
    by (simp add: evict_page_def lock_simps evict_select_held st Let_def alloc_swap_index_def
        swap_out_entry_def evicted_counts_def [abs_def] upd_proc_def)
qed


section \<open>A small machine\<close>

text \<open>Two free pages, and one frame in use by process 1.\<close>

definition demo_mem :: mem_state where
  "demo_mem = \<lparr>held = {}, procs = demo_procs, pqueue = demo_queues, ticks_max = (\<lambda>l. 2 ^ (l + 1)),
     cpu_proc = (\<lambda>_. None)(0 := Some 0), tp = 0, initproc = Some 0, nextpid = 5, ticks = 128, last_mod128 = 0,
     mem = write64 0x80100000 0x80101000 (\<lambda>_. 0), freelist = 0x80100000,
     ft_f = (\<lambda>_. free_frame)(300 := \<lparr>f_is_used = 1, f_p = Some 1, f_va = 0, f_rb = 1\<rparr>),
     clock_p = 7, swap_mask = (\<lambda>_. 0), kernel_pagetable = 0, sym_end = 0x80020000,
     sym_etext = 0x80008000, sym_trampoline = 0x80007000\<rparr>"

lemma demo_free: "free_pages demo_mem [0x80100000, 0x80101000]"
proof -
  have "aligned 0x80101000" "aligned 0x80100000" by (simp_all add: aligned_def PGSIZE_def)
  then have "read64 (write64 (slot 0x80100000 0) 0x80101000 (\<lambda>_. 0)) (slot 0x80101000 0) = read64 (\<lambda>_. 0) (slot 0x80101000 0)"
    by (intro read64_slot_other_page) simp_all
  then show ?thesis
    by (simp add: free_pages_def demo_mem_def read64_write64_same ram_page_def aligned_def PGSIZE_def
        KERNBASE_def PHYSTOP_def) (simp add: read64_def upt_rec)
qed

theorem kalloc_never_twice_witness:
  "runs (kmem.alloc_n 2 demo_mem) (\<lambda>(ps, t). length ps = 2 \<and> distinct ps)"
  by (rule runs_mono [OF kalloc_never_twice [OF demo_free, of 2]]) auto

theorem kfree_kalloc_witness:
  "runs (do {t \<leftarrow> kfree 0x80102000 demo_mem; (q, u) \<leftarrow> kalloc t; Some (t, q, u)}) (\<lambda>(t, q, u). q = 0x80102000)"
  by (rule runs_mono [OF kfree_kalloc [OF demo_free, of "0x80102000"]])
     (auto simp: ram_page_def demo_mem_def aligned_def PGSIZE_def KERNBASE_def PHYSTOP_def)

theorem kinit_correct_witness:
  "\<exists>t n. kinit (demo_mem\<lparr>freelist := 0\<rparr>) = Some t \<and> free_pages t (rev (pages_from 0x80020000 n)) \<and> n = 480"
proof -
  let ?s = "demo_mem\<lparr>freelist := 0\<rparr>"
  have "PGROUNDUP (sym_end ?s) = 0x80020000" "unat PHYSTOP = 0x80200000"
    by (simp_all add: PGROUNDUP_def PGSIZE_def demo_mem_def PHYSTOP_def KERNBASE_def)
  moreover have "\<exists>t n. kinit ?s = Some t \<and> free_pages t (rev (pages_from (PGROUNDUP (sym_end ?s)) n))
    \<and> unat (PGROUNDUP (sym_end ?s)) + n * 4096 = unat PHYSTOP"
    by (rule kinit_correct) (simp_all add: demo_mem_def KERNBASE_def PHYSTOP_def)
  ultimately show ?thesis by auto
qed

theorem evict_select_correct_witness: "fst (evict_select demo_mem) = Some 300"
proof -
  have "clock_p demo_mem < NFRAMES" by (simp add: demo_mem_def NFRAMES_eq)
  note th = evict_select_correct [OF this]
  have "evictable demo_mem i \<longleftrightarrow> i = 300" for i
    by (simp add: evictable_def demo_mem_def free_frame_def demo_procs_def slot0_def)
  with th show ?thesis
    by (cases "fst (evict_select demo_mem)") (auto simp: NFRAMES_eq dest: spec [of _ 300])
qed

end
