(* ===== verification/Vm.thy ===== *)
theory Vm
  imports Kalloc
begin

text \<open>
  \<^verbatim>\<open>kernel/vm.c\<close>: page tables in byte memory (\<open>walk\<close>, \<open>mappages\<close>, \<open>uvmunmap\<close>, \<open>freewalk\<close>),
  growing and copying user memory, page faults with swap-in, and the copies between kernel and
  user space.  Loops over addresses are partial functions in the option monad: \<^term>\<open>None\<close> is
  not returning.  A kernel buffer that is copied from or to is a byte list.
\<close>

section \<open>Page tables\<close>

fun walk_alloc :: "uint64 \<Rightarrow> bool \<Rightarrow> nat list \<Rightarrow> uint64 \<Rightarrow> 'a mem_state_scheme
    \<Rightarrow> (uint64 option \<times> 'a mem_state_scheme) option" where
  "walk_alloc va alloc [] pagetable s = Some (Some pagetable, s)"
| "walk_alloc va alloc (level # ls) pagetable s =
     (let pte = slot pagetable (PX level va) in
      if read64 (mem s) pte AND PTE_V \<noteq> 0
      then walk_alloc va alloc ls (PTE2PA (read64 (mem s) pte)) s
      else if \<not> alloc then Some (None, s)
      else do {
        (pagetable, s) \<leftarrow> kalloc s;
        if pagetable = 0 then Some (None, s)
        else do {
          let s = s\<lparr>mem := memset pagetable 0 4096 (mem s)\<rparr>;
          let s = s\<lparr>mem := write64 pte (PA2PTE pagetable OR PTE_V) (mem s)\<rparr>;
          walk_alloc va alloc ls pagetable s
        }
      })"

definition walk :: "uint64 \<Rightarrow> uint64 \<Rightarrow> bool \<Rightarrow> 'a mem_state_scheme
    \<Rightarrow> (uint64 option \<times> 'a mem_state_scheme) option" where
  "walk pagetable va alloc s =
     (if va \<ge> MAXVA then panic ''walk''
      else do {
        (t, s) \<leftarrow> walk_alloc va alloc [2, 1] pagetable s;
        Some (map_option (\<lambda>t. slot t (PX 0 va)) t, s)
      })"

definition walkaddr :: "memory \<Rightarrow> uint64 \<Rightarrow> uint64 \<Rightarrow> uint64 option" where
  "walkaddr m pagetable va =
     (if va \<ge> MAXVA then Some 0
      else do {
        pte \<leftarrow> walk_lookup m pagetable va;
        case pte of
          None \<Rightarrow> Some 0
        | Some pte \<Rightarrow>
            if read64 m pte AND PTE_V = 0 then Some 0
            else if read64 m pte AND PTE_U = 0 then Some 0
            else Some (PTE2PA (read64 m pte))
      })"

definition ismapped :: "memory \<Rightarrow> uint64 \<Rightarrow> uint64 \<Rightarrow> bool option" where
  "ismapped m pagetable va = do {
     pte \<leftarrow> walk_lookup m pagetable va;
     case pte of
       None \<Rightarrow> Some False
     | Some pte \<Rightarrow> Some (read64 m pte AND PTE_V \<noteq> 0)
   }"

partial_function (option) mappages_loop :: "uint64 \<Rightarrow> uint64 \<Rightarrow> uint64 \<Rightarrow> uint64 \<Rightarrow> uint64
    \<Rightarrow> 'a mem_state_scheme \<Rightarrow> (int \<times> 'a mem_state_scheme) option" where
  "mappages_loop pagetable a lst pa perm s =
     Option.bind (walk pagetable a True s) (\<lambda>(pte, s).
       case pte of
         None \<Rightarrow> Some (- 1, s)
       | Some pte \<Rightarrow>
           if read64 (mem s) pte AND PTE_V \<noteq> 0 then panic ''mappages: remap''
           else
             let s = s\<lparr>mem := write64 pte (PA2PTE pa OR perm OR PTE_V) (mem s)\<rparr> in
             if a = lst then Some (0, s)
             else mappages_loop pagetable (a + PGSIZE) lst (pa + PGSIZE) perm s)"

definition mappages :: "uint64 \<Rightarrow> uint64 \<Rightarrow> uint64 \<Rightarrow> uint64 \<Rightarrow> uint64
    \<Rightarrow> 'a mem_state_scheme \<Rightarrow> (int \<times> 'a mem_state_scheme) option" where
  "mappages pagetable va sz pa perm s =
     (if va mod PGSIZE \<noteq> 0 then panic ''mappages: va not aligned''
      else if sz mod PGSIZE \<noteq> 0 then panic ''mappages: size not aligned''
      else if sz = 0 then panic ''mappages: size''
      else mappages_loop pagetable va (va + sz - PGSIZE) pa perm s)"

definition kvmmap :: "uint64 \<Rightarrow> uint64 \<Rightarrow> uint64 \<Rightarrow> uint64 \<Rightarrow> uint64
    \<Rightarrow> 'a mem_state_scheme \<Rightarrow> 'a mem_state_scheme option" where
  "kvmmap kpgtbl va pa sz perm s = do {
     (r, s) \<leftarrow> mappages kpgtbl va sz pa perm s;
     if r \<noteq> 0 then panic ''kvmmap'' else Some s
   }"

definition proc_mapstacks :: "uint64 \<Rightarrow> 'a mem_state_scheme \<Rightarrow> 'a mem_state_scheme option" where
  "proc_mapstacks kpgtbl = for_each (\<lambda>p s. do {
     (pa, s) \<leftarrow> kalloc s;
     if pa = 0 then panic ''kalloc''
     else kvmmap kpgtbl (KSTACK p) pa PGSIZE (PTE_R OR PTE_W) s
   }) [0..<NPROC]"

definition kvmmake :: "'a mem_state_scheme \<Rightarrow> (uint64 \<times> 'a mem_state_scheme) option" where
  "kvmmake s = do {
     (kpgtbl, s) \<leftarrow> kalloc s;
     let s = s\<lparr>mem := memset kpgtbl 0 4096 (mem s)\<rparr>;
     s \<leftarrow> kvmmap kpgtbl UART0 UART0 PGSIZE (PTE_R OR PTE_W) s;
     s \<leftarrow> kvmmap kpgtbl VIRTIO0 VIRTIO0 PGSIZE (PTE_R OR PTE_W) s;
     s \<leftarrow> kvmmap kpgtbl PLIC PLIC 0x4000000 (PTE_R OR PTE_W) s;
     s \<leftarrow> kvmmap kpgtbl KERNBASE KERNBASE (sym_etext s - KERNBASE) (PTE_R OR PTE_X) s;
     s \<leftarrow> kvmmap kpgtbl (sym_etext s) (sym_etext s) (PHYSTOP - sym_etext s) (PTE_R OR PTE_W) s;
     s \<leftarrow> kvmmap kpgtbl SWAP_BASE SWAP_BASE (of_nat MAX_SP * PGSIZE) (PTE_R OR PTE_W) s;
     s \<leftarrow> kvmmap kpgtbl TRAMPOLINE (sym_trampoline s) PGSIZE (PTE_R OR PTE_X) s;
     s \<leftarrow> proc_mapstacks kpgtbl s;
     Some (kpgtbl, s)
   }"

definition kvminit :: "'a mem_state_scheme \<Rightarrow> 'a mem_state_scheme option" where
  "kvminit s = do {
     (kpgtbl, s) \<leftarrow> kvmmake s;
     Some (s\<lparr>kernel_pagetable := kpgtbl\<rparr>)
   }"

section \<open>User memory\<close>

definition uvmcreate :: "'a mem_state_scheme \<Rightarrow> (uint64 \<times> 'a mem_state_scheme) option" where
  "uvmcreate s = do {
     (pagetable, s) \<leftarrow> kalloc s;
     if pagetable = 0 then Some (0, s)
     else Some (pagetable, s\<lparr>mem := memset pagetable 0 4096 (mem s)\<rparr>)
   }"

text \<open>\<open>int swap_index = ( *pte) >> 10\<close>.\<close>

definition swap_index_of :: "uint64 \<Rightarrow> int" where
  "swap_index_of pte = sint (ucast (drop_bit 10 pte) :: 32 word)"

definition uvmunmap_page :: "uint64 \<Rightarrow> bool \<Rightarrow> uint64 \<Rightarrow> 'a mem_state_scheme \<Rightarrow> 'a mem_state_scheme option" where
  "uvmunmap_page pagetable do_free a s = do {
     (pte, s) \<leftarrow> walk pagetable a False s;
     case pte of
       None \<Rightarrow> Some s
     | Some pte \<Rightarrow>
         if read64 (mem s) pte AND PTE_V = 0
         then
           if read64 (mem s) pte AND PTE_S \<noteq> 0
           then do {
             s \<leftarrow> free_swap_index (swap_index_of (read64 (mem s) pte)) s;
             Some (s\<lparr>mem := write64 pte 0 (mem s)\<rparr>)
           }
           else Some s
         else do {
           s \<leftarrow> (if do_free then kfree (PTE2PA (read64 (mem s) pte)) s else Some s);
           Some (s\<lparr>mem := write64 pte 0 (mem s)\<rparr>)
         }
   }"

partial_function (option) uvmunmap_loop :: "uint64 \<Rightarrow> bool \<Rightarrow> uint64 \<Rightarrow> uint64
    \<Rightarrow> 'a mem_state_scheme \<Rightarrow> 'a mem_state_scheme option" where
  "uvmunmap_loop pagetable do_free a bound s =
     (if a < bound
      then Option.bind (uvmunmap_page pagetable do_free a s)
             (\<lambda>s. uvmunmap_loop pagetable do_free (a + PGSIZE) bound s)
      else Some s)"

definition uvmunmap :: "uint64 \<Rightarrow> uint64 \<Rightarrow> uint64 \<Rightarrow> bool
    \<Rightarrow> 'a mem_state_scheme \<Rightarrow> 'a mem_state_scheme option" where
  "uvmunmap pagetable va npages do_free s =
     (if va mod PGSIZE \<noteq> 0 then panic ''uvmunmap: not aligned''
      else uvmunmap_loop pagetable do_free va (va + npages * PGSIZE) s)"

definition uvmdealloc :: "uint64 \<Rightarrow> uint64 \<Rightarrow> uint64 \<Rightarrow> 'a mem_state_scheme
    \<Rightarrow> (uint64 \<times> 'a mem_state_scheme) option" where
  "uvmdealloc pagetable oldsz newsz s =
     (if newsz \<ge> oldsz then Some (oldsz, s)
      else do {
        s \<leftarrow> (if PGROUNDUP newsz < PGROUNDUP oldsz
             then
               let npages = (ucast ((PGROUNDUP oldsz - PGROUNDUP newsz) div PGSIZE) :: 32 word)
               in uvmunmap pagetable (PGROUNDUP newsz) (scast npages) True s
             else Some s);
        Some (newsz, s)
      })"

text \<open>Recording the owner of a frame (the same block in \<open>uvmalloc\<close>, \<open>uvmcopy\<close> and \<open>vmfault\<close>).\<close>

definition own_frame :: "uint64 \<Rightarrow> nat \<Rightarrow> uint64 \<Rightarrow> 'a mem_state_scheme \<Rightarrow> 'a mem_state_scheme option" where
  "own_frame pa p va s = do {
     s \<leftarrow> acq FrametableLock s;
     let i = unat ((pa - KERNBASE) div PGSIZE);
     check (i < NFRAMES);
     let s = s\<lparr>ft_f := (ft_f s)(i := \<lparr>f_is_used = 1, f_p = Some p, f_va = va, f_rb = 1\<rparr>)\<rparr>;
     rel FrametableLock s
   }"

text \<open>\<open>kalloc()\<close>, and \<open>evict_page()\<close> should that fail.\<close>

definition kalloc_or_evict :: "'a mem_state_scheme \<Rightarrow> (uint64 \<times> 'a mem_state_scheme) option" where
  "kalloc_or_evict s = do {
     (pa, s) \<leftarrow> kalloc s;
     if pa = 0 then evict_page s else Some (pa, s)
   }"

definition add_resident :: "proc \<Rightarrow> proc" where
  "add_resident x = x\<lparr>p_resident_pages := p_resident_pages x + 1\<rparr>"

partial_function (option) uvmalloc_loop :: "uint64 \<Rightarrow> uint64 \<Rightarrow> uint64 \<Rightarrow> uint64 \<Rightarrow> uint64
    \<Rightarrow> 'a mem_state_scheme \<Rightarrow> (uint64 \<times> 'a mem_state_scheme) option" where
  "uvmalloc_loop pagetable oldsz a newsz xperm s =
     (if a < newsz
      then Option.bind (kalloc_or_evict s) (\<lambda>(pa, s).
        if pa = 0
        then Option.bind (uvmdealloc pagetable a oldsz s) (\<lambda>(_, s). Some (0, s))
        else
          let s = s\<lparr>mem := memset pa 0 4096 (mem s)\<rparr> in
          Option.bind (mappages pagetable a PGSIZE pa (PTE_R OR PTE_U OR xperm) s) (\<lambda>(r, s).
            if r \<noteq> 0
            then Option.bind (kfree pa s) (\<lambda>s.
                 Option.bind (uvmdealloc pagetable a oldsz s) (\<lambda>(_, s). Some (0, s)))
            else
              case myproc s of
                None \<Rightarrow> None
              | Some p \<Rightarrow>
                  Option.bind (own_frame pa p a s) (\<lambda>s.
                    uvmalloc_loop pagetable oldsz (a + PGSIZE) newsz xperm (upd_proc p add_resident s))))
      else Some (newsz, s))"

definition uvmalloc :: "uint64 \<Rightarrow> uint64 \<Rightarrow> uint64 \<Rightarrow> uint64
    \<Rightarrow> 'a mem_state_scheme \<Rightarrow> (uint64 \<times> 'a mem_state_scheme) option" where
  "uvmalloc pagetable oldsz newsz xperm s =
     (if newsz < oldsz then Some (oldsz, s)
      else uvmalloc_loop pagetable (PGROUNDUP oldsz) (PGROUNDUP oldsz) newsz xperm s)"


text \<open>\<open>freewalk\<close> from entry \<open>i\<close> on; a valid entry without R, W and X points to a lower table.\<close>

partial_function (option) freewalk_from :: "uint64 \<Rightarrow> nat \<Rightarrow> 'a mem_state_scheme \<Rightarrow> 'a mem_state_scheme option" where
  "freewalk_from pagetable i s =
     (if i < 512
      then
        let pte = read64 (mem s) (slot pagetable (of_nat i)) in
        if pte AND PTE_V \<noteq> 0 \<and> pte AND (PTE_R OR PTE_W OR PTE_X) = 0
        then Option.bind (freewalk_from (PTE2PA pte) 0 s) (\<lambda>s.
               freewalk_from pagetable (i + 1) (s\<lparr>mem := write64 (slot pagetable (of_nat i)) 0 (mem s)\<rparr>))
        else if pte AND PTE_V \<noteq> 0 then panic ''freewalk: leaf''
        else freewalk_from pagetable (i + 1) s
      else kfree pagetable s)"

definition freewalk :: "uint64 \<Rightarrow> 'a mem_state_scheme \<Rightarrow> 'a mem_state_scheme option" where
  "freewalk pagetable s = freewalk_from pagetable 0 s"

definition uvmfree :: "uint64 \<Rightarrow> uint64 \<Rightarrow> 'a mem_state_scheme \<Rightarrow> 'a mem_state_scheme option" where
  "uvmfree pagetable sz s = do {
     s \<leftarrow> (if sz > 0 then uvmunmap pagetable 0 (PGROUNDUP sz div PGSIZE) True s else Some s);
     freewalk pagetable s
   }"

text \<open>One page of \<open>uvmcopy\<close>: \<open>src\<close> is the frame or the swap slot that holds it.  The result says
  whether the loop goes on (\<open>True\<close>) or takes the error exit.\<close>

definition uvmcopy_page :: "uint64 \<Rightarrow> nat \<Rightarrow> uint64 \<Rightarrow> uint64 \<Rightarrow> uint64
    \<Rightarrow> 'a mem_state_scheme \<Rightarrow> (bool \<times> 'a mem_state_scheme) option" where
  "uvmcopy_page new np i src flags s = do {
     (pa, s) \<leftarrow> kalloc_or_evict s;
     if pa = 0 then Some (False, s)
     else do {
       let s = s\<lparr>mem := memmove pa src 4096 (mem s)\<rparr>;
       (r, s) \<leftarrow> mappages new i PGSIZE pa flags s;
       if r \<noteq> 0 then do { s \<leftarrow> kfree pa s; Some (False, s) }
       else do {
         s \<leftarrow> own_frame pa np i s;
         Some (True, upd_proc np add_resident s)
       }
     }
   }"

definition uvmcopy_step :: "uint64 \<Rightarrow> uint64 \<Rightarrow> nat \<Rightarrow> uint64
    \<Rightarrow> 'a mem_state_scheme \<Rightarrow> (bool \<times> 'a mem_state_scheme) option" where
  "uvmcopy_step old new np i s = do {
     (pte, s) \<leftarrow> walk old i False s;
     case pte of
       None \<Rightarrow> Some (True, s)
     | Some pte \<Rightarrow>
         let e = read64 (mem s) pte in
         if e AND PTE_V \<noteq> 0 then uvmcopy_page new np i (PTE2PA e) (PTE_FLAGS e) s
         else if e AND PTE_S \<noteq> 0
         then uvmcopy_page new np i (get_swap_addr (swap_index_of e)) ((PTE_FLAGS e AND NOT PTE_S) OR PTE_V) s
         else Some (True, s)
   }"

partial_function (option) uvmcopy_loop :: "uint64 \<Rightarrow> uint64 \<Rightarrow> uint64 \<Rightarrow> nat \<Rightarrow> uint64
    \<Rightarrow> 'a mem_state_scheme \<Rightarrow> (int \<times> 'a mem_state_scheme) option" where
  "uvmcopy_loop old new sz np i s =
     (if i < sz
      then Option.bind (uvmcopy_step old new np i s) (\<lambda>(go, s).
        if go then uvmcopy_loop old new sz np (i + PGSIZE) s
        else Option.bind (uvmunmap new 0 (i div PGSIZE) True s) (\<lambda>s. Some (- 1, s)))
      else Some (0, s))"

definition uvmcopy :: "uint64 \<Rightarrow> uint64 \<Rightarrow> uint64 \<Rightarrow> nat
    \<Rightarrow> 'a mem_state_scheme \<Rightarrow> (int \<times> 'a mem_state_scheme) option" where
  "uvmcopy old new sz np s = uvmcopy_loop old new sz np 0 s"

definition uvmclear :: "uint64 \<Rightarrow> uint64 \<Rightarrow> 'a mem_state_scheme \<Rightarrow> 'a mem_state_scheme option" where
  "uvmclear pagetable va s = do {
     (pte, s) \<leftarrow> walk pagetable va False s;
     case pte of
       None \<Rightarrow> panic ''uvmclear''
     | Some pte \<Rightarrow> Some (s\<lparr>mem := write64 pte (read64 (mem s) pte AND NOT PTE_U) (mem s)\<rparr>)
   }"

section \<open>Page faults\<close>

definition vmfault_swapin :: "nat \<Rightarrow> uint64 \<Rightarrow> uint64 \<Rightarrow> 'a mem_state_scheme
    \<Rightarrow> (uint64 \<times> 'a mem_state_scheme) option" where
  "vmfault_swapin p va pte s = do {
     let swap_index = swap_index_of (read64 (mem s) pte);
     (pa, s) \<leftarrow> kalloc_or_evict s;
     let s = s\<lparr>mem := memmove pa (get_swap_addr swap_index) 4096 (mem s)\<rparr>;
     if pa = 0 then panic ''error in vmfault(swap) : mem == 0''
     else do {
       s \<leftarrow> free_swap_index swap_index s;
       let flags = PTE_FLAGS (read64 (mem s) pte);
       let s = s\<lparr>mem := write64 pte (PA2PTE pa OR (flags AND NOT PTE_S) OR PTE_V) (mem s)\<rparr>;
       let s = upd_proc p (\<lambda>x. x\<lparr>p_pages_swapped_in := p_pages_swapped_in x + 1\<rparr>) s;
       let s = upd_proc p add_resident s;
       if read64 (mem s) pte = 0 then panic ''Invalid pte''
       else do {
         s \<leftarrow> own_frame pa p va s;
         Some (pa, s)
       }
     }
   }"

definition vmfault :: "uint64 \<Rightarrow> uint64 \<Rightarrow> 'a mem_state_scheme \<Rightarrow> (uint64 \<times> 'a mem_state_scheme) option" where
  "vmfault pagetable va s =
     (case myproc s of
       None \<Rightarrow> None
     | Some p \<Rightarrow> do {
         let s = upd_proc p (\<lambda>x. x\<lparr>p_page_faults := p_page_faults x + 1\<rparr>) s;
         if va \<ge> p_sz (procs s p) then Some (0, s)
         else do {
           let va = PGROUNDDOWN va;
           (pte, s) \<leftarrow> walk pagetable va True s;
           case pte of
             None \<Rightarrow> panic ''error in vmfault : pte not valid 1''
           | Some pte \<Rightarrow>
               if read64 (mem s) pte AND PTE_S \<noteq> 0 then vmfault_swapin p va pte s
               else do {
                 mapped \<leftarrow> ismapped (mem s) pagetable va;
                 if mapped then Some (0, s)
                 else do {
                   (pa, s) \<leftarrow> kalloc_or_evict s;
                   if pa = 0 then panic ''error in vmfault : mem == 0''
                   else do {
                     let s = s\<lparr>mem := memset pa 0 4096 (mem s)\<rparr>;
                     let s = upd_proc p add_resident s;
                     (r, s) \<leftarrow> mappages (p_pagetable (procs s p)) va PGSIZE pa (PTE_W OR PTE_U OR PTE_R) s;
                     if r \<noteq> 0 then do { s \<leftarrow> kfree pa s; Some (0, s) }
                     else if read64 (mem s) pte = 0 then panic ''Invalid pte 2''
                     else do {
                       s \<leftarrow> own_frame pa p va s;
                       Some (pa, s)
                     }
                   }
                 }
               }
         }
       })"

section \<open>Copying between kernel and user space\<close>

text \<open>The bytes of a kernel buffer stored at \<open>a\<close>, and \<open>n\<close> bytes read from \<open>a\<close>.\<close>

definition store_bytes :: "uint64 \<Rightarrow> uint8 list \<Rightarrow> memory \<Rightarrow> memory" where
  "store_bytes a bs m = fold (\<lambda>i m. m(a + of_nat i := bs ! i)) [0..<length bs] m"

definition load_bytes :: "uint64 \<Rightarrow> nat \<Rightarrow> memory \<Rightarrow> uint8 list" where
  "load_bytes a n m = map (\<lambda>i. m (a + of_nat i)) [0..<n]"

text \<open>The physical address behind \<open>va0\<close>, faulting the page in if need be; 0 on failure.\<close>

definition user_page :: "uint64 \<Rightarrow> uint64 \<Rightarrow> 'a mem_state_scheme \<Rightarrow> (uint64 \<times> 'a mem_state_scheme) option" where
  "user_page pagetable va0 s = do {
     pa0 \<leftarrow> walkaddr (mem s) pagetable va0;
     if pa0 = 0 then vmfault pagetable va0 s else Some (pa0, s)
   }"

partial_function (option) copyout :: "uint64 \<Rightarrow> uint64 \<Rightarrow> uint8 list
    \<Rightarrow> 'a mem_state_scheme \<Rightarrow> (int \<times> 'a mem_state_scheme) option" where
  "copyout pagetable dstva src s =
     (if src \<noteq> []
      then
        let va0 = PGROUNDDOWN dstva in
        if va0 \<ge> MAXVA then Some (- 1, s)
        else Option.bind (user_page pagetable va0 s) (\<lambda>(pa0, s).
          if pa0 = 0 then Some (- 1, s)
          else Option.bind (walk pagetable va0 False s) (\<lambda>(pte, s).
            case pte of
              None \<Rightarrow> None
            | Some pte \<Rightarrow>
                if read64 (mem s) pte AND PTE_W = 0 then Some (- 1, s)
                else
                  let n = min (unat (PGSIZE - (dstva - va0))) (length src);
                      s = s\<lparr>mem := store_bytes (pa0 + (dstva - va0)) (take n src) (mem s)\<rparr>
                  in copyout pagetable (va0 + PGSIZE) (drop n src) s))
      else Some (0, s))"

text \<open>\<open>copyin\<close> returns the bytes copied to the kernel buffer.\<close>

partial_function (option) copyin_from :: "uint64 \<Rightarrow> uint8 list \<Rightarrow> uint64 \<Rightarrow> nat
    \<Rightarrow> 'a mem_state_scheme \<Rightarrow> (int \<times> uint8 list \<times> 'a mem_state_scheme) option" where
  "copyin_from pagetable dst srcva len s =
     (if len > 0
      then
        let va0 = PGROUNDDOWN srcva in
        Option.bind (user_page pagetable va0 s) (\<lambda>(pa0, s).
          if pa0 = 0 then Some (- 1, dst, s)
          else
            let n = min (unat (PGSIZE - (srcva - va0))) len
            in copyin_from pagetable (dst @ load_bytes (pa0 + (srcva - va0)) n (mem s)) (va0 + PGSIZE) (len - n) s)
      else Some (0, dst, s))"

definition copyin :: "uint64 \<Rightarrow> uint64 \<Rightarrow> nat
    \<Rightarrow> 'a mem_state_scheme \<Rightarrow> (int \<times> uint8 list \<times> 'a mem_state_scheme) option" where
  "copyin pagetable srcva len s = copyin_from pagetable [] srcva len s"

text \<open>The inner loop of \<open>copyinstr\<close> on one page: the bytes copied and whether the end was seen.\<close>

fun copyinstr_page :: "memory \<Rightarrow> uint64 \<Rightarrow> nat \<Rightarrow> uint8 list \<times> bool" where
  "copyinstr_page m p 0 = ([], False)"
| "copyinstr_page m p (Suc n) =
     (if m p = 0 then ([0], True)
      else let (bs, e) = copyinstr_page m (p + 1) n in (m p # bs, e))"

partial_function (option) copyinstr_from :: "memory \<Rightarrow> uint64 \<Rightarrow> uint8 list \<Rightarrow> uint64 \<Rightarrow> nat
    \<Rightarrow> (int \<times> uint8 list) option" where
  "copyinstr_from m pagetable dst srcva mx =
     (if mx > 0
      then
        let va0 = PGROUNDDOWN srcva in
        Option.bind (walkaddr m pagetable va0) (\<lambda>pa0.
          if pa0 = 0 then Some (- 1, dst)
          else
            let n = min (unat (PGSIZE - (srcva - va0))) mx;
                (bs, got_null) = copyinstr_page m (pa0 + (srcva - va0)) n
            in if got_null then Some (0, dst @ bs)
               else copyinstr_from m pagetable (dst @ bs) (va0 + PGSIZE) (mx - n))
      else Some (- 1, dst))"

definition copyinstr :: "memory \<Rightarrow> uint64 \<Rightarrow> uint64 \<Rightarrow> nat \<Rightarrow> (int \<times> uint8 list) option" where
  "copyinstr m pagetable srcva mx = copyinstr_from m pagetable [] srcva mx"

section \<open>A page table as a map\<close>

text \<open>The table that serves \<open>va\<close> at depth \<open>d\<close> (0 the root, 2 the leaf table).\<close>

fun tab :: "memory \<Rightarrow> uint64 \<Rightarrow> uint64 \<Rightarrow> nat \<Rightarrow> uint64 option" where
  "tab m pt va 0 = Some pt"
| "tab m pt va (Suc d) = (case tab m pt va d of None \<Rightarrow> None
     | Some t \<Rightarrow> if bit (read64 m (slot t (PX (2 - d) va))) 0
                then Some (PTE2PA (read64 m (slot t (PX (2 - d) va)))) else None)"

text \<open>The leaf entry of \<open>va\<close>; 0 when there is no leaf table.\<close>

definition pte_of :: "memory \<Rightarrow> uint64 \<Rightarrow> uint64 \<Rightarrow> uint64" where
  "pte_of m pt va = (case tab m pt va 2 of None \<Rightarrow> 0 | Some t \<Rightarrow> read64 m (slot t (PX 0 va)))"

definition agree :: "nat \<Rightarrow> uint64 \<Rightarrow> uint64 \<Rightarrow> bool" where
  "agree d va va' \<longleftrightarrow> (\<forall>k < d. PX (2 - k) va = PX (2 - k) va')"

text \<open>The tables form a tree: every table is a page whose address fits into an entry, and no table
  is reached twice.\<close>

definition pt_wf :: "memory \<Rightarrow> uint64 \<Rightarrow> bool" where
  "pt_wf m pt \<longleftrightarrow> (\<forall>va d t. d \<le> 2 \<longrightarrow> tab m pt va d = Some t \<longrightarrow> pa_ok t \<and>
     (\<forall>va' d'. d' \<le> 2 \<longrightarrow> tab m pt va' d' = Some t \<longrightarrow> d = d' \<and> agree d va va'))"

definition tables :: "memory \<Rightarrow> uint64 \<Rightarrow> uint64 set" where
  "tables m pt = {t. \<exists>va d. d \<le> 2 \<and> tab m pt va d = Some t}"

lemma walk_down_tab: "walk_down m va [2, 1] pt = tab m pt va 2"
  by (simp add: numeral_2_eq_2 flag_tests Let_def)

lemma walk_lookup_tab:
  "va < MAXVA \<Longrightarrow> walk_lookup m pt va = Some (map_option (\<lambda>t. slot t (PX 0 va)) (tab m pt va 2))"
  by (simp add: walk_lookup_def walk_down_tab [simplified])

lemma agree_simps [simp]: "agree 0 va va'" "agree (Suc d) va va' \<longleftrightarrow> agree d va va' \<and> PX (2 - d) va = PX (2 - d) va'"
  by (auto simp: agree_def less_Suc_eq)

lemma agree_refl [simp]: "agree d va va" by (simp add: agree_def)

lemma agree_tab: "agree d va va' \<Longrightarrow> tab m pt va d = tab m pt va' d"
proof (induction d)
  case (Suc d)
  then show ?case by (cases "tab m pt va' d") simp_all
qed simp

lemma tab_prefix: "tab m pt va (Suc d) = Some t \<Longrightarrow> \<exists>t'. tab m pt va d = Some t'"
  by (cases "tab m pt va d") simp_all

lemma tab_None: "tab m pt va d = None \<Longrightarrow> d \<le> k \<Longrightarrow> tab m pt va k = None"
  by (induction k) (auto simp: le_Suc_eq split: option.splits)

lemma pt_wfD:
  assumes "pt_wf m pt" and "tab m pt va d = Some t" and "d \<le> 2"
  shows "aligned t" "pa_ok t" "\<And>va' d'. tab m pt va' d' = Some t \<Longrightarrow> d' \<le> 2 \<Longrightarrow> d = d' \<and> agree d va va'"
  using assms unfolding pt_wf_def pa_ok_def by blast+

lemma PX_512 [simp]: "PX l va < 512" by (rule PX_less)

text \<open>Tables are kept by every change of memory outside the slots they are read from.\<close>

lemma tab_cong:
  assumes "\<And>k t. k < d \<Longrightarrow> tab m pt va k = Some t \<Longrightarrow>
      read64 m' (slot t (PX (2 - k) va)) = read64 m (slot t (PX (2 - k) va))"
  shows "tab m' pt va d = tab m pt va d"
  using assms
proof (induction d)
  case (Suc d)
  then have "tab m' pt va d = tab m pt va d" by simp
  then show ?case using Suc.prems [of d] by (cases "tab m pt va d") simp_all
qed simp

section \<open>Changing a leaf entry\<close>

lemma leaf_write:
  assumes "pt_wf m pt" and "tab m pt va 2 = Some t" and m'_def: "m' = write64 (slot t (PX 0 va)) v m"
  shows "d \<le> 2 \<Longrightarrow> tab m' pt va' d = tab m pt va' d"
    and "pte_of m' pt va' = (if agree 3 va va' then v else pte_of m pt va')"
proof -
  note t = pt_wfD [OF assms(1,2)]
  show tab: "tab m' pt va' d = tab m pt va' d" if "d \<le> 2" for va' d
  proof (rule tab_cong)
    fix k u assume k: "k < d" "tab m pt va' k = Some u"
    have "u \<noteq> t" using t(3) [of va' k] k that by auto
    moreover have "aligned u" using pt_wfD(1) [OF assms(1) k(2)] k(1) that by simp
    ultimately show "read64 m' (slot u (PX (2 - k) va')) = read64 m (slot u (PX (2 - k) va'))"
      using t(1) unfolding m'_def by (intro read64_slot_other_page) auto
  qed
  have three: "agree 3 va va' \<longleftrightarrow> agree 2 va va' \<and> PX 0 va = PX 0 va'"
    by (simp add: numeral_3_eq_3 numeral_2_eq_2)
  show "pte_of m' pt va' = (if agree 3 va va' then v else pte_of m pt va')"
  proof (cases "tab m pt va' 2")
    case None
    then have "\<not> agree 2 va va'" using agree_tab [of 2 va va'] assms(2) by auto
    then show ?thesis using None tab [of 2 va'] by (simp add: pte_of_def three)
  next
    case (Some u)
    have u: "aligned u" using pt_wfD(1) [OF assms(1) Some] by simp
    have "u = t \<longleftrightarrow> agree 2 va va'"
      using t(3) [of va' 2] Some agree_tab [of 2 va va'] assms(2) by auto
    then show ?thesis
      using Some tab [of 2 va'] t(1) u by (auto simp: pte_of_def three m'_def read64_slot_write)
  qed
qed

lemma leaf_write_wf:
  assumes "pt_wf m pt" and "tab m pt va 2 = Some t"
  shows "pt_wf (write64 (slot t (PX 0 va)) v m) pt"
    and "tables (write64 (slot t (PX 0 va)) v m) pt = tables m pt"
proof -
  have tab: "tab (write64 (slot t (PX 0 va)) v m) pt va' d = tab m pt va' d" if "d \<le> 2" for va' d
    by (rule leaf_write(1) [OF assms refl that])
  show "pt_wf (write64 (slot t (PX 0 va)) v m) pt"
    unfolding pt_wf_def
  proof (intro allI impI)
    fix va' d u
    assume "d \<le> 2" "tab (write64 (slot t (PX 0 va)) v m) pt va' d = Some u"
    then have u: "tab m pt va' d = Some u" by (simp only: tab)
    show "pa_ok u \<and> (\<forall>va'' d'. d' \<le> 2 \<longrightarrow>
        tab (write64 (slot t (PX 0 va)) v m) pt va'' d' = Some u \<longrightarrow> d = d' \<and> agree d va' va'')"
      using pt_wfD(2,3) [OF assms(1) u \<open>d \<le> 2\<close>] tab by metis
  qed
  show "tables (write64 (slot t (PX 0 va)) v m) pt = tables m pt"
    unfolding tables_def using tab by metis
qed

section \<open>Adding a table\<close>

lemma new_entry: "pa_ok q \<Longrightarrow> bit (PA2PTE q OR PTE_V) 0" "pa_ok q \<Longrightarrow> PTE2PA (PA2PTE q OR PTE_V) = q"
  by (simp_all add: PTE2PA_entry) (simp add: PTE_V_def bit_or_iff)

lemma table_grow:
  assumes wf: "pt_wf m pt" and t: "tab m pt va d = Some t" and d: "d < 2"
    and inv: "\<not> bit (read64 m (slot t (PX (2 - d) va))) 0"
    and q: "pa_ok q" "q \<notin> tables m pt"
    and m': "m' = write64 (slot t (PX (2 - d) va)) (PA2PTE q OR PTE_V) (memset q 0 4096 m)"
  shows "k \<le> 2 \<Longrightarrow> tab m' pt va' k =
    (if d < k \<and> agree (Suc d) va va' then (if k = Suc d then Some q else None) else tab m pt va' k)"
proof (induction k)
  case (Suc k)
  have al: "aligned q" "aligned t" using q(1) pt_wfD(1) [OF wf t] d by (auto simp: pa_ok_def)
  have tq: "t \<noteq> q" using q(2) t d by (auto simp: tables_def)
  have other: "read64 m' (slot u j) = (if u = t \<and> j = PX (2 - d) va then PA2PTE q OR PTE_V else read64 m (slot u j))"
    if "aligned u" "u \<noteq> q" "j < 512" for u j
    using that al by (simp add: m' read64_slot_write read64_memset_other)
  have new: "read64 m' (slot q j) = 0" if "j < 512" for j
    using that al tq by (simp add: m' read64_slot_write read64_memset_0)
  show ?case
  proof (cases "d < k \<and> agree (Suc d) va va'")
    case True
    then show ?thesis using Suc new by (auto split: option.splits)
  next
    case False
    have "k \<le> 2" using Suc.prems by simp
    from Suc.IH [OF this] False have tk: "tab m' pt va' k = tab m pt va' k" by (simp only: if_False)
    show ?thesis
    proof (cases "tab m pt va' k")
      case None
      have "\<not> (d = k \<and> agree d va va')" using None t agree_tab [of d va va' m pt] by auto
      then show ?thesis using None tk False by auto
    next
      case (Some u)
      have u: "aligned u" "u \<noteq> q" using pt_wfD(1) [OF wf Some] Suc.prems q(2) Some by (auto simp: tables_def)
      have ut: "u = t \<longleftrightarrow> k = d \<and> agree d va va'"
        using pt_wfD(3) [OF wf t, of va' k] d Suc.prems Some agree_tab [of d va va' m pt] t by auto
      show ?thesis
        using Some tk False other [OF u, of "PX (2 - k) va'"] ut new_entry [OF q(1)] inv by auto
    qed
  qed
qed simp

lemma table_grow_wf:
  assumes wf: "pt_wf m pt" and t: "tab m pt va d = Some t" and d: "d < 2"
    and inv: "\<not> bit (read64 m (slot t (PX (2 - d) va))) 0"
    and q: "pa_ok q" "q \<notin> tables m pt"
    and m': "m' = write64 (slot t (PX (2 - d) va)) (PA2PTE q OR PTE_V) (memset q 0 4096 m)"
  shows "pt_wf m' pt" and "tables m' pt = insert q (tables m pt)" and "tab m' pt va (Suc d) = Some q"
    and "pte_of m' pt va' = pte_of m pt va'"
proof -
  note tab' = table_grow [OF assms]
  show "tab m' pt va (Suc d) = Some q" using tab' [of "Suc d" va] d by simp
  have old: "tab m pt va' k = Some u" if "tab m' pt va' k = Some u" "k \<le> 2" "u \<noteq> q" for va' k u
    using that tab' [of k va'] by (auto split: if_splits)
  have isq: "k = Suc d \<and> agree (Suc d) va va'" if "tab m' pt va' k = Some q" "k \<le> 2" for va' k
    using that tab' [of k va'] q(2) by (auto simp: tables_def split: if_splits)
  show "pt_wf m' pt"
    unfolding pt_wf_def
  proof (intro allI impI conjI)
    fix va1 k u assume k: "k \<le> 2" "tab m' pt va1 k = Some u"
    show "pa_ok u" using k old [OF k(2,1)] q(1) pt_wfD(2) [OF wf, of va1 k u] by (cases "u = q") auto
    fix va2 k' assume k': "k' \<le> 2" "tab m' pt va2 k' = Some u"
    have "k = k' \<and> agree k va1 va2"
    proof (cases "u = q")
      case True
      then show ?thesis using isq [of va1 k] isq [of va2 k'] k k' by (auto simp: agree_def)
    next
      case False
      then show ?thesis using old k k' pt_wfD(3) [OF wf, of va1 k u va2 k'] by blast
    qed
    then show "k = k'" "agree k va1 va2" by blast+
  qed
  show "tables m' pt = insert q (tables m pt)"
  proof (intro equalityI subsetI)
    fix u assume "u \<in> tables m' pt"
    then show "u \<in> insert q (tables m pt)" using old by (fastforce simp: tables_def)
  next
    fix u assume "u \<in> insert q (tables m pt)"
    then consider "u = q" | va1 k where "k \<le> 2" "tab m pt va1 k = Some u" by (auto simp: tables_def)
    then show "u \<in> tables m' pt"
    proof cases
      case 1
      then show ?thesis using \<open>tab m' pt va (Suc d) = Some q\<close> d by (auto simp: tables_def intro!: exI [of _ "Suc d"])
    next
      case 2
      have "tab m pt va1 (Suc d) = None" if "agree (Suc d) va va1"
        using agree_tab [OF that, of m pt] t inv by simp
      then have "\<not> (d < k \<and> agree (Suc d) va va1)"
        using 2(2) tab_None [of m pt va1 "Suc d" k] by (auto simp del: tab.simps agree_simps)
      with 2 tab' [of k va1] have "tab m' pt va1 k = Some u" by (simp only: if_False)
      with 2(1) show ?thesis by (auto simp: tables_def)
    qed
  qed
  have al: "aligned q" "aligned t" using q(1) pt_wfD(1) [OF wf t] d by (auto simp: pa_ok_def)
  have tq: "t \<noteq> q" using q(2) t d by (auto simp: tables_def)
  show "pte_of m' pt va' = pte_of m pt va'"
  proof (cases "agree (Suc d) va va'")
    case True
    have "tab m pt va' (Suc d) = None" using agree_tab [OF True, of m pt] t inv by simp
    then have "tab m pt va' 2 = None" by (rule tab_None) (use d in simp)
    moreover have "tab m' pt va' 2 = (if 2 = Suc d then Some q else None)"
      using tab' [of 2 va'] True d by simp
    moreover have "read64 m' (slot q (PX 0 va')) = 0"
      using al tq by (simp add: m' read64_slot_write read64_memset_0)
    ultimately show ?thesis by (simp add: pte_of_def)
  next
    case False
    then have same: "tab m' pt va' 2 = tab m pt va' 2" using tab' [of 2 va'] by (simp del: agree_simps)
    have "read64 m' (slot u (PX 0 va')) = read64 m (slot u (PX 0 va'))" if u: "tab m pt va' 2 = Some u" for u
    proof -
      have "u \<noteq> t" using pt_wfD(3) [OF wf t, of va' 2] d u by auto
      moreover have "u \<noteq> q" using q(2) u by (auto simp: tables_def)
      moreover have "aligned u" using pt_wfD(1) [OF wf u] by simp
      ultimately show ?thesis using al by (simp add: m' read64_slot_write read64_memset_other)
    qed
    with same show ?thesis by (auto simp: pte_of_def split: option.splits)
  qed
qed


section \<open>walk\<close>

lemma ram_page_pa_ok: "ram_page s p \<Longrightarrow> pa_ok p"
  by (auto simp: ram_page_def pa_ok_def PHYSTOP_def KERNBASE_def intro: order.strict_trans)

text \<open>\<open>vm_ok s pt xs\<close>: the free list is \<open>xs\<close>, the page table \<open>pt\<close> is a tree, and its tables are RAM
  pages that are not free.\<close>

definition vm_ok :: "'a mem_state_scheme \<Rightarrow> uint64 \<Rightarrow> uint64 list \<Rightarrow> bool" where
  "vm_ok s pt xs \<longleftrightarrow> free_pages s xs \<and> pt_wf (mem s) pt \<and> tables (mem s) pt \<inter> set xs = {}
     \<and> (\<forall>t \<in> tables (mem s) pt. ram_page s t)"

text \<open>\<open>only_grown s s' pt ys\<close>: the change from \<open>s\<close> to \<open>s'\<close> added the tables \<open>ys\<close> and nothing else.\<close>

definition only_grown :: "'a mem_state_scheme \<Rightarrow> 'a mem_state_scheme \<Rightarrow> uint64 \<Rightarrow> uint64 list \<Rightarrow> bool" where
  "only_grown s s' pt ys \<longleftrightarrow> tables (mem s') pt = tables (mem s) pt \<union> set ys
     \<and> (\<forall>va. pte_of (mem s') pt va = pte_of (mem s) pt va)
     \<and> (\<forall>x. PGROUNDDOWN x \<notin> tables (mem s) pt \<union> set ys \<longrightarrow> mem s' x = mem s x)
     \<and> s' = s\<lparr>mem := mem s', freelist := freelist s'\<rparr>"

lemma only_grown_refl: "only_grown s s pt []"
  by (simp add: only_grown_def)

lemma only_grown_trans:
  assumes "only_grown s t pt ys" and "only_grown t u pt zs"
  shows "only_grown s u pt (ys @ zs)"
proof -
  have t: "t = s\<lparr>mem := mem t, freelist := freelist t\<rparr>" and u: "u = t\<lparr>mem := mem u, freelist := freelist u\<rparr>"
    using assms unfolding only_grown_def by blast+
  have "u = s\<lparr>mem := mem u, freelist := freelist u\<rparr>" by (subst u, subst t) simp
  moreover have "mem u x = mem s x" if "PGROUNDDOWN x \<notin> tables (mem s) pt \<union> set (ys @ zs)" for x
  proof -
    have "mem u x = mem t x" using assms that unfolding only_grown_def by auto
    also have "\<dots> = mem s x" using assms(1) that unfolding only_grown_def by auto
    finally show ?thesis .
  qed
  moreover have "tables (mem u) pt = tables (mem s) pt \<union> set (ys @ zs)"
    using assms unfolding only_grown_def by auto
  moreover have "\<forall>va. pte_of (mem u) pt va = pte_of (mem s) pt va"
    using assms unfolding only_grown_def by simp
  ultimately show ?thesis unfolding only_grown_def by blast
qed

lemma walk_alloc_step:
  assumes ok: "vm_ok s pt (q # xs)" and t: "tab (mem s) pt va d = Some t" and d: "d < 2"
    and inv: "\<not> bit (read64 (mem s) (slot t (PX (2 - d) va))) 0"
  shows "\<exists>u. do {(p, s) \<leftarrow> kalloc s;
       Some (p, s\<lparr>mem := write64 (slot t (PX (2 - d) va)) (PA2PTE p OR PTE_V) (memset p 0 4096 (mem s))\<rparr>)} = Some (q, u)
     \<and> vm_ok u pt xs \<and> tab (mem u) pt va (Suc d) = Some q \<and> only_grown s u pt [q]"
proof -
  have free: "free_pages s (q # xs)" and wf: "pt_wf (mem s) pt" and qt: "q \<notin> tables (mem s) pt"
    and ram: "ram_page s q" "aligned q"
    using ok by (auto simp: vm_ok_def free_pages_def ram_page_def)
  from kalloc_free_pages [OF free] obtain s1 where s1: "kalloc s = Some (q, s1)" "free_pages s1 xs"
    "s1 = s\<lparr>freelist := read64 (mem s) q, mem := memset q 5 4096 (mem s)\<rparr>" by blast
  define m' where "m' = write64 (slot t (PX (2 - d) va)) (PA2PTE q OR PTE_V) (memset q 0 4096 (mem s))"
  have "memset q 0 4096 (mem s1) = memset q 0 4096 (mem s)"
    using ram(2) by (auto simp: s1(3) memset_page fun_eq_iff)
  then have eq: "s1\<lparr>mem := write64 (slot t (PX (2 - d) va)) (PA2PTE q OR PTE_V) (memset q 0 4096 (mem s1))\<rparr>
      = s\<lparr>freelist := read64 (mem s) q, mem := m'\<rparr>"
    by (simp add: m'_def s1(3))
  note g = table_grow_wf [OF wf t d inv ram_page_pa_ok [OF ram(1)] qt m'_def]
  have t': "t \<in> tables (mem s) pt" "aligned t" using t d pt_wfD(1) [OF wf t] by (auto simp: tables_def intro!: exI [of _ d])
  have frame: "m' x = mem s x" if "PGROUNDDOWN x \<notin> tables (mem s) pt \<union> {q}" for x
  proof -
    have "PGROUNDDOWN x \<noteq> t" "PGROUNDDOWN x \<noteq> q" using that t'(1) by auto
    then show ?thesis using t'(2) ram(2) by (simp add: m'_def write64_page memset_page)
  qed
  have "flist m' (read64 (mem s) q) xs"
  proof (rule flist_cong [of _ _ "mem s"])
    show "m' x = mem s x" if "PGROUNDDOWN x \<in> set xs" for x
    proof (rule frame)
      show "PGROUNDDOWN x \<notin> tables (mem s) pt \<union> {q}"
        using that ok unfolding vm_ok_def free_pages_def by auto
    qed
  qed (use free in \<open>auto simp: free_pages_def ram_page_def\<close>)
  then have "vm_ok (s\<lparr>freelist := read64 (mem s) q, mem := m'\<rparr>) pt xs"
    using ok g(1,2) ram by (auto simp: vm_ok_def free_pages_def ram_page_def)
  moreover have "only_grown s (s\<lparr>freelist := read64 (mem s) q, mem := m'\<rparr>) pt [q]"
    using g(2,4) frame by (auto simp: only_grown_def)
  ultimately show ?thesis using s1(1) eq g(3) by (auto simp del: tab.simps)
qed


lemma walk_alloc_ok:
  assumes "vm_ok s pt xs" and "n \<le> 2" and "n \<le> length xs" and "tab (mem s) pt va (2 - n) = Some t"
  shows "\<exists>t' s' ys zs. walk_alloc va True (rev [1..<Suc n]) t s = Some (Some t', s') \<and> xs = ys @ zs
     \<and> length ys \<le> n \<and> vm_ok s' pt zs \<and> tab (mem s') pt va 2 = Some t' \<and> only_grown s s' pt ys"
  using assms
proof (induction n arbitrary: s xs t)
  case 0
  then show ?case using only_grown_refl by (intro exI [of _ t] exI [of _ s] exI [of _ "[]"] exI [of _ xs]) simp
next
  case (Suc n)
  define d where "d = 2 - Suc n"
  have d: "d < 2" "2 - n = Suc d" "2 - d = Suc n" using Suc.prems(2) by (simp_all add: d_def)
  have lv: "rev [1..<Suc (Suc n)] = Suc n # rev [1..<Suc n]" by simp
  let ?e = "read64 (mem s) (slot t (PX (Suc n) va))"
  have t: "tab (mem s) pt va d = Some t" using Suc.prems(4) by (simp add: d_def)
  show ?case
  proof (cases "bit ?e 0")
    case True
    then have "tab (mem s) pt va (2 - n) = Some (PTE2PA ?e)" using t by (simp add: d)
    from Suc.IH [OF Suc.prems(1) _ _ this] Suc.prems(2,3) obtain t' s' ys zs where
      "walk_alloc va True (rev [1..<Suc n]) (PTE2PA ?e) s = Some (Some t', s')" "xs = ys @ zs" "length ys \<le> n"
      "vm_ok s' pt zs" "tab (mem s') pt va 2 = Some t'" "only_grown s s' pt ys" by auto
    then show ?thesis using True unfolding lv
      by (intro exI [of _ t'] exI [of _ s'] exI [of _ ys] exI [of _ zs]) (simp add: flag_tests Let_def del: upt_Suc)
  next
    case False
    from Suc.prems(3) obtain q xs' where xs: "xs = q # xs'" by (cases xs) auto
    have "\<not> bit (read64 (mem s) (slot t (PX (2 - d) va))) 0" using False by (simp add: d)
    from walk_alloc_step [OF Suc.prems(1) [unfolded xs] t d(1) this] obtain u where
      u: "do {(p, s) \<leftarrow> kalloc s;
         Some (p, s\<lparr>mem := write64 (slot t (PX (2 - d) va)) (PA2PTE p OR PTE_V) (memset p 0 4096 (mem s))\<rparr>)} = Some (q, u)"
      "vm_ok u pt xs'" "tab (mem u) pt va (Suc d) = Some q" "only_grown s u pt [q]" by blast
    from u(3) have "tab (mem u) pt va (2 - n) = Some q" by (simp only: d(2))
    from Suc.IH [OF u(2) _ _ this] Suc.prems(2,3) obtain t' s' ys zs where
      r: "walk_alloc va True (rev [1..<Suc n]) q u = Some (Some t', s')" "xs' = ys @ zs" "length ys \<le> n"
      "vm_ok s' pt zs" "tab (mem s') pt va 2 = Some t'" "only_grown u s' pt ys" by (auto simp: xs)
    from u(1) obtain s1 where s1: "kalloc s = Some (q, s1)"
        "u = s1\<lparr>mem := write64 (slot t (PX (2 - d) va)) (PA2PTE q OR PTE_V) (memset q 0 4096 (mem s1))\<rparr>"
      by (cases "kalloc s") auto
    have "q \<noteq> 0" using Suc.prems(1) unfolding xs vm_ok_def free_pages_def by auto
    then have "walk_alloc va True (rev [1..<Suc (Suc n)]) t s = Some (Some t', s')"
      unfolding lv using False s1 r(1) by (simp add: flag_tests Let_def d del: upt_Suc)
    moreover have "only_grown s s' pt (q # ys)" using only_grown_trans [OF u(4) r(6)] by simp
    ultimately show ?thesis
      using r by (intro exI [of _ t'] exI [of _ s'] exI [of _ "q # ys"] exI [of _ zs]) (simp add: xs)
  qed
qed

lemma walk_ok:
  assumes "vm_ok s pt xs" and "2 \<le> length xs" and "va < MAXVA"
  shows "\<exists>t s' ys zs. walk pt va True s = Some (Some (slot t (PX 0 va)), s') \<and> xs = ys @ zs \<and> length ys \<le> 2
     \<and> vm_ok s' pt zs \<and> tab (mem s') pt va 2 = Some t \<and> only_grown s s' pt ys"
proof -
  have lv: "rev [1..<Suc 2] = [2, 1 :: nat]" by (simp add: numeral_2_eq_2)
  from walk_alloc_ok [OF assms(1) order.refl assms(2), of va pt] obtain t s' ys zs where
    "walk_alloc va True [2, 1] pt s = Some (Some t, s')" "xs = ys @ zs" "length ys \<le> 2"
    "vm_ok s' pt zs" "tab (mem s') pt va 2 = Some t" "only_grown s s' pt ys" unfolding lv by auto
  then show ?thesis using assms(3)
    by (intro exI [of _ t] exI [of _ s'] exI [of _ ys] exI [of _ zs]) (simp add: walk_def)
qed

lemma walk_no_alloc:
  assumes "va < MAXVA"
  shows "walk pt va False s = Some (map_option (\<lambda>t. slot t (PX 0 va)) (tab (mem s) pt va 2), s)"
proof -
  have w: "walk_alloc va False ls t s = Some (walk_down (mem s) va ls t, s)" for ls t
    by (induction ls arbitrary: t) (simp_all add: Let_def)
  show ?thesis
    unfolding walk_def w walk_down_tab using assms by (simp add: not_le)
qed


section \<open>mappages\<close>

lemma PX_same_page:
  assumes "PGROUNDDOWN va = PGROUNDDOWN va'"
  shows "PX l va = PX l va'"
proof (rule bit_eqI)
  fix n :: nat
  have "bit va k = bit va' k" if "12 \<le> k" for k
  proof -
    have "bit (push_bit 12 (drop_bit 12 va)) k = bit (push_bit 12 (drop_bit 12 va')) k"
      using assms by (simp add: PGROUNDDOWN_shift)
    then show ?thesis using that by (auto simp: bit_simps dest: bit_imp_le_length)
  qed
  then show "bit (PX l va) n = bit (PX l va') n" by (simp add: PX_bit PXSHIFT_def PGSHIFT_def)
qed

lemma agree3_page:
  assumes "va < MAXVA" and "va' < MAXVA"
  shows "agree 3 va va' \<longleftrightarrow> PGROUNDDOWN va = PGROUNDDOWN va'"
proof
  assume "agree 3 va va'"
  then have a: "\<forall>k < 3. PX (2 - k) va = PX (2 - k) va'" by (simp add: agree_def)
  have "PX l va = PX l va'" if "l < 3" for l
    using a [rule_format, of "2 - l"] that by simp
  then show "PGROUNDDOWN va = PGROUNDDOWN va'" using PX_page [OF assms] by blast
qed (auto simp: agree_def intro: PX_same_page)

text \<open>A change of entries: \<open>f\<close> gives the new entries by page; the tables \<open>ys\<close> were added, and no memory
  outside the tables changed.  Changes compose like map updates.\<close>

definition entries_set :: "'a mem_state_scheme \<Rightarrow> 'a mem_state_scheme \<Rightarrow> uint64 \<Rightarrow> uint64 list
    \<Rightarrow> (uint64 \<Rightarrow> uint64 option) \<Rightarrow> bool" where
  "entries_set s s' pt ys f \<longleftrightarrow> tables (mem s') pt = tables (mem s) pt \<union> set ys
     \<and> (\<forall>va < MAXVA. pte_of (mem s') pt va =
          (case f (PGROUNDDOWN va) of None \<Rightarrow> pte_of (mem s) pt va | Some v \<Rightarrow> v))
     \<and> (\<forall>x. PGROUNDDOWN x \<notin> tables (mem s) pt \<union> set ys \<longrightarrow> mem s' x = mem s x)
     \<and> s' = s\<lparr>mem := mem s', freelist := freelist s'\<rparr>"

lemma mem_freelist_trans:
  assumes "t = s\<lparr>mem := mem t, freelist := freelist t\<rparr>" and "u = t\<lparr>mem := mem u, freelist := freelist u\<rparr>"
  shows "u = s\<lparr>mem := mem u, freelist := freelist u\<rparr>"
  by (subst assms(2), subst assms(1)) simp

lemma entries_set_trans:
  assumes "entries_set s t pt ys f" and "entries_set t u pt zs g"
  shows "entries_set s u pt (ys @ zs) (f ++ g)"
proof -
  have "u = s\<lparr>mem := mem u, freelist := freelist u\<rparr>"
    using assms mem_freelist_trans unfolding entries_set_def by blast
  moreover have "mem u x = mem s x" if "PGROUNDDOWN x \<notin> tables (mem s) pt \<union> set (ys @ zs)" for x
  proof -
    have "mem u x = mem t x" using assms that unfolding entries_set_def by auto
    also have "\<dots> = mem s x" using assms(1) that unfolding entries_set_def by auto
    finally show ?thesis .
  qed
  moreover have "tables (mem u) pt = tables (mem s) pt \<union> set (ys @ zs)"
    using assms unfolding entries_set_def by auto
  moreover have "pte_of (mem u) pt va =
      (case (f ++ g) (PGROUNDDOWN va) of None \<Rightarrow> pte_of (mem s) pt va | Some v \<Rightarrow> v)" if "va < MAXVA" for va
  proof -
    have "pte_of (mem u) pt va = (case g (PGROUNDDOWN va) of None \<Rightarrow> pte_of (mem t) pt va | Some v \<Rightarrow> v)"
      "pte_of (mem t) pt va = (case f (PGROUNDDOWN va) of None \<Rightarrow> pte_of (mem s) pt va | Some v \<Rightarrow> v)"
      using assms that unfolding entries_set_def by blast+
    then show ?thesis by (simp add: map_add_def split: option.splits)
  qed
  ultimately show ?thesis unfolding entries_set_def by blast
qed

lemma entries_set_cong:
  assumes "entries_set s t pt ys f" and "\<And>w. aligned w \<Longrightarrow> f w = g w"
  shows "entries_set s t pt ys g"
  using assms unfolding entries_set_def by simp

lemma set_one:
  assumes "vm_ok s pt xs" and "2 \<le> length xs" and "va < MAXVA"
  shows "\<exists>a s' ys zs. walk pt va True s = Some (Some a, s') \<and> xs = ys @ zs \<and> length ys \<le> 2
     \<and> read64 (mem s') a = pte_of (mem s) pt va
     \<and> (\<forall>v. vm_ok (s'\<lparr>mem := write64 a v (mem s')\<rparr>) pt zs
          \<and> entries_set s (s'\<lparr>mem := write64 a v (mem s')\<rparr>) pt ys [PGROUNDDOWN va \<mapsto> v])"
proof -
  from walk_ok [OF assms] obtain t s' ys zs where
    w: "walk pt va True s = Some (Some (slot t (PX 0 va)), s')" "xs = ys @ zs" "length ys \<le> 2"
     "vm_ok s' pt zs" "tab (mem s') pt va 2 = Some t" and g: "only_grown s s' pt ys" by blast
  have wf: "pt_wf (mem s') pt" using w(4) by (simp add: vm_ok_def)
  have tt: "t \<in> tables (mem s') pt" "aligned t" using w(5) pt_wfD(1) [OF wf w(5)] by (auto simp: tables_def)
  let ?a = "slot t (PX 0 va)"
  have frame: "write64 ?a v (mem s') x = mem s' x" if "PGROUNDDOWN x \<notin> tables (mem s') pt" for v x
    using that tt write64_page [of t "PX 0 va" x] by (metis PX_512)
  have "vm_ok (s'\<lparr>mem := write64 ?a v (mem s')\<rparr>) pt zs" for v
  proof -
    have "flist (write64 ?a v (mem s')) (freelist s') zs"
    proof (rule flist_cong [of _ _ "mem s'"])
      show "write64 ?a v (mem s') x = mem s' x" if "PGROUNDDOWN x \<in> set zs" for x
        using that w(4) by (intro frame) (auto simp: vm_ok_def)
    qed (use w(4) in \<open>auto simp: vm_ok_def free_pages_def ram_page_def\<close>)
    then show ?thesis
      using w(4) leaf_write_wf [OF wf w(5)] by (auto simp: vm_ok_def free_pages_def ram_page_def)
  qed
  moreover have "entries_set s (s'\<lparr>mem := write64 ?a v (mem s')\<rparr>) pt ys [PGROUNDDOWN va \<mapsto> v]" for v
  proof -
    have "s'\<lparr>mem := write64 ?a v (mem s')\<rparr> = s\<lparr>mem := write64 ?a v (mem s'), freelist := freelist s'\<rparr>"
    proof -
      have "s' = s\<lparr>mem := mem s', freelist := freelist s'\<rparr>" using g unfolding only_grown_def by blast
      from arg_cong [OF this, of "\<lambda>t. t\<lparr>mem := write64 ?a v (mem s')\<rparr>"] show ?thesis by simp
    qed
    moreover have "pte_of (write64 ?a v (mem s')) pt va' =
        (if PGROUNDDOWN va' = PGROUNDDOWN va then v else pte_of (mem s) pt va')" if "va' < MAXVA" for va'
      using leaf_write(2) [OF wf w(5) refl] agree3_page [OF assms(3) that] g by (auto simp: only_grown_def)
    moreover have "write64 ?a v (mem s') x = mem s x" if "PGROUNDDOWN x \<notin> tables (mem s) pt \<union> set ys" for x
      using that frame [of x v] g by (simp add: only_grown_def)
    moreover have "tables (write64 ?a v (mem s')) pt = tables (mem s) pt \<union> set ys"
      using leaf_write_wf(2) [OF wf w(5)] g by (simp add: only_grown_def)
    ultimately show ?thesis by (simp add: entries_set_def)
  qed
  moreover have "pte_of (mem s') pt va = read64 (mem s') ?a" using w(5) by (simp add: pte_of_def)
  then have "read64 (mem s') ?a = pte_of (mem s) pt va" using g by (simp add: only_grown_def)
  ultimately show ?thesis
    using w(1-3) by (intro exI [of _ ?a] exI [of _ s'] exI [of _ ys] exI [of _ zs]) blast
qed

lemma MAXVA_nat: "unat MAXVA = 2 ^ 38"
  by (simp add: MAXVA_def push_bit_eq_mult)

lemma aligned_diff: "aligned w \<Longrightarrow> aligned va \<Longrightarrow> 4096 dvd unat (w - va)"
proof -
  assume "aligned w" "aligned va"
  then obtain i j where ij: "unat w = 4096 * i" "unat va = 4096 * j" by (auto simp: aligned_iff elim!: dvdE)
  show "4096 dvd unat (w - va)"
  proof (cases "unat va \<le> unat w")
    case True
    then show ?thesis using ij by (simp add: unat_sub_if' dvd_diff_nat)
  next
    case False
    have "(4096 :: nat) dvd 4096 * i + 2 ^ 64 - 4096 * j" by (rule dvd_diff_nat) simp_all
    then show ?thesis using False ij by (simp add: unat_sub_if')
  qed
qed

lemma pages_nat: "n * 4096 \<le> unat MAXVA \<Longrightarrow> unat (of_nat n * PGSIZE) = n * 4096"
  by (simp add: MAXVA_nat unat_word_ariths(2) unat_of_nat take_bit_eq_mod PGSIZE_def)

lemma page_range:
  assumes "aligned w" and "aligned va" and "Suc (Suc n) * 4096 \<le> unat MAXVA"
  shows "w - va < of_nat (Suc (Suc n)) * PGSIZE \<longleftrightarrow> w = va \<or> w - (va + PGSIZE) < of_nat (Suc n) * PGSIZE"
proof -
  obtain k where k: "unat (w - va) = 4096 * k" using aligned_diff [OF assms(1,2)] by (auto elim: dvdE)
  have n: "unat (of_nat (Suc (Suc n)) * PGSIZE) = Suc (Suc n) * 4096" "unat (of_nat (Suc n) * PGSIZE) = Suc n * 4096"
    using assms(3) by (intro pages_nat; simp)+
  have z: "w = va \<longleftrightarrow> k = 0" using k by (auto simp: word_unat_eq_iff [of "w - va" 0, symmetric] unat_eq_0)
  have d: "unat (w - va - PGSIZE) = (if k = 0 then 2 ^ 64 - 4096 else 4096 * k - 4096)"
    using k by (simp add: unat_sub_if' PGSIZE_def)
  have "w - (va + PGSIZE) = w - va - PGSIZE" by simp
  then show ?thesis
    using assms(3) unfolding word_less_nat_alt n by (simp only: d k z MAXVA_nat) auto
qed

lemma PGROUNDDOWN_idem [simp]: "PGROUNDDOWN (PGROUNDDOWN a) = PGROUNDDOWN a"
  using aligned_PGROUNDDOWN [of "PGROUNDDOWN a"] by simp

text \<open>The entries \<open>mappages\<close> asks for.\<close>

definition range_entries :: "uint64 \<Rightarrow> nat \<Rightarrow> uint64 \<Rightarrow> uint64 \<Rightarrow> uint64 \<Rightarrow> uint64 option" where
  "range_entries va n pa perm w =
     (if w - va < of_nat n * PGSIZE then Some (PA2PTE (pa + (w - va)) OR perm OR PTE_V) else None)"

lemma range_entries_1: "aligned w \<Longrightarrow> aligned va \<Longrightarrow> range_entries va 1 pa perm w = [va \<mapsto> PA2PTE pa OR perm OR PTE_V] w"
  using page_of [of va w] aligned_PGROUNDDOWN [of w] by (auto simp: range_entries_def)

lemma range_entries_Suc:
  assumes "aligned w" and "aligned va" and "Suc (Suc n) * 4096 \<le> unat MAXVA"
  shows "range_entries va (Suc (Suc n)) pa perm w =
    ([va \<mapsto> PA2PTE pa OR perm OR PTE_V] ++ range_entries (va + PGSIZE) (Suc n) (pa + PGSIZE) perm) w"
proof -
  have "pa + PGSIZE + (w - (va + PGSIZE)) = pa + (w - va)" by (simp add: algebra_simps)
  moreover have "\<not> va - (va + PGSIZE) < of_nat (Suc n) * PGSIZE"
  proof -
    have "Suc n * 4096 \<le> unat MAXVA" using assms(3) by simp
    note eq = pages_nat [OF this]
    have "unat (of_nat (Suc n) * PGSIZE) \<le> 2 ^ 38"
      unfolding eq using assms(3) unfolding MAXVA_nat by simp
    moreover have "unat (va - (va + PGSIZE)) = 2 ^ 64 - 4096"
      by (simp add: PGSIZE_def)
    ultimately show ?thesis by (simp only: word_less_nat_alt) simp
  qed
  ultimately show ?thesis
    unfolding range_entries_def page_range [OF assms] by (simp add: map_add_def)
qed

lemma mappages_loop_ok:
  assumes "vm_ok s pt xs" and "aligned va" and "unat va + Suc n * 4096 \<le> unat MAXVA" and "2 * Suc n \<le> length xs"
    and "\<forall>k \<le> n. \<not> bit (pte_of (mem s) pt (va + of_nat k * PGSIZE)) 0"
  shows "\<exists>s' ys zs. mappages_loop pt va (va + of_nat n * PGSIZE) pa perm s = Some (0, s') \<and> xs = ys @ zs
     \<and> length ys \<le> 2 * Suc n \<and> vm_ok s' pt zs \<and> entries_set s s' pt ys (range_entries va (Suc n) pa perm)"
  using assms
proof (induction n arbitrary: s va pa xs)
  case 0
  have lt: "va < MAXVA" using 0(3) by (simp add: word_less_nat_alt)
  from set_one [OF 0(1) _ lt] 0(4) obtain a s1 ys zs where
    w: "walk pt va True s = Some (Some a, s1)" "xs = ys @ zs" "length ys \<le> 2"
      "read64 (mem s1) a = pte_of (mem s) pt va"
    and W: "\<And>v. vm_ok (s1\<lparr>mem := write64 a v (mem s1)\<rparr>) pt zs"
      "\<And>v. entries_set s (s1\<lparr>mem := write64 a v (mem s1)\<rparr>) pt ys [PGROUNDDOWN va \<mapsto> v]" by auto
  let ?s' = "s1\<lparr>mem := write64 a (PA2PTE pa OR perm OR PTE_V) (mem s1)\<rparr>"
  have "mappages_loop pt va va pa perm s = Some (0, ?s')"
    using w(1,4) 0(5) by (subst mappages_loop.simps) (simp add: flag_tests Let_def)
  moreover have "entries_set s ?s' pt ys (range_entries va (Suc 0) pa perm)"
    by (rule entries_set_cong [OF W(2)])
       (use range_entries_1 [OF _ 0(2)] 0(2) aligned_PGROUNDDOWN [of va] in auto)
  ultimately show ?case using w(2,3) W(1) by auto
next
  case (Suc n)
  have top: "unat va + Suc (Suc n) * 4096 \<le> 2 ^ 38" using Suc.prems(3) by (simp only: MAXVA_nat)
  have lt: "va < MAXVA" using top by (simp add: word_less_nat_alt MAXVA_nat)
  from set_one [OF Suc.prems(1) _ lt] Suc.prems(4) obtain a s1 ys zs where
    w: "walk pt va True s = Some (Some a, s1)" "xs = ys @ zs" "length ys \<le> 2"
      "read64 (mem s1) a = pte_of (mem s) pt va"
    and W: "\<And>v. vm_ok (s1\<lparr>mem := write64 a v (mem s1)\<rparr>) pt zs"
      "\<And>v. entries_set s (s1\<lparr>mem := write64 a v (mem s1)\<rparr>) pt ys [PGROUNDDOWN va \<mapsto> v]" by auto
  let ?v = "PA2PTE pa OR perm OR PTE_V"
  let ?s' = "s1\<lparr>mem := write64 a ?v (mem s1)\<rparr>" and ?lst = "va + of_nat (Suc n) * PGSIZE"
  have step: "?lst = (va + PGSIZE) + of_nat n * PGSIZE" by (simp add: algebra_simps)
  have nx: "unat (va + PGSIZE) = unat va + 4096"
    using top by (simp add: unat_word_ariths(1) PGSIZE_def)
  have off: "unat (va + of_nat k * PGSIZE) = unat va + k * 4096" if "k \<le> Suc n" for k
  proof -
    have "unat (of_nat k * PGSIZE) = k * 4096" using that top by (intro pages_nat) (simp add: MAXVA_nat)
    then show ?thesis using that top by (simp add: unat_word_ariths(1))
  qed
  have ne: "va \<noteq> ?lst" using off [of "Suc n"] by (auto simp: word_unat_eq_iff simp del: of_nat_Suc)
  have "\<not> bit (pte_of (mem s) pt va) 0" using Suc.prems(5) [rule_format, of 0] by simp
  then have eq: "mappages_loop pt va ?lst pa perm s = mappages_loop pt (va + PGSIZE) ?lst (pa + PGSIZE) perm ?s'"
    using w(1,4) ne by (subst mappages_loop.simps) (simp add: flag_tests Let_def)
  have al: "aligned (va + PGSIZE)" using Suc.prems(2) nx by (simp add: aligned_iff)
  have unm: "\<not> bit (pte_of (mem ?s') pt ((va + PGSIZE) + of_nat k * PGSIZE)) 0" if "k \<le> n" for k
  proof -
    let ?w = "va + of_nat (Suc k) * PGSIZE"
    have w': "(va + PGSIZE) + of_nat k * PGSIZE = ?w" by (simp add: algebra_simps)
    have u: "unat ?w = unat va + Suc k * 4096" using off [of "Suc k"] that by simp
    then have "?w < MAXVA" using top that by (simp only: word_less_nat_alt MAXVA_nat) simp
    moreover have "PGROUNDDOWN ?w \<noteq> PGROUNDDOWN va"
    proof -
      have "aligned ?w" using u Suc.prems(2) by (simp add: aligned_iff)
      then show ?thesis using u Suc.prems(2) aligned_PGROUNDDOWN
        by (metis add_eq_self_zero mult_eq_0_iff zero_neq_numeral nat.distinct(1))
    qed
    ultimately have "pte_of (mem ?s') pt ?w = pte_of (mem s) pt ?w"
      using W(2) [of ?v] unfolding entries_set_def by (auto simp del: of_nat_Suc)
    then show ?thesis unfolding w' using Suc.prems(5) that by (simp del: of_nat_Suc)
  qed
  have "\<exists>s' ys' zs'. mappages_loop pt (va + PGSIZE) ((va + PGSIZE) + of_nat n * PGSIZE) (pa + PGSIZE) perm ?s' = Some (0, s')
      \<and> zs = ys' @ zs' \<and> length ys' \<le> 2 * Suc n \<and> vm_ok s' pt zs'
      \<and> entries_set ?s' s' pt ys' (range_entries (va + PGSIZE) (Suc n) (pa + PGSIZE) perm)"
    by (rule Suc.IH [OF W(1) al]) (use nx Suc.prems(3,4) w(2,3) unm in auto)
  then obtain s' ys' zs' where r: "mappages_loop pt (va + PGSIZE) ?lst (pa + PGSIZE) perm ?s' = Some (0, s')"
      "zs = ys' @ zs'" "length ys' \<le> 2 * Suc n" "vm_ok s' pt zs'"
      "entries_set ?s' s' pt ys' (range_entries (va + PGSIZE) (Suc n) (pa + PGSIZE) perm)" unfolding step by blast
  have "entries_set s s' pt (ys @ ys') ([PGROUNDDOWN va \<mapsto> ?v] ++ range_entries (va + PGSIZE) (Suc n) (pa + PGSIZE) perm)"
    by (rule entries_set_trans [OF W(2) r(5)])
  then have "entries_set s s' pt (ys @ ys') (range_entries va (Suc (Suc n)) pa perm)"
  proof (rule entries_set_cong)
    show "([PGROUNDDOWN va \<mapsto> ?v] ++ range_entries (va + PGSIZE) (Suc n) (pa + PGSIZE) perm) w'
      = range_entries va (Suc (Suc n)) pa perm w'" if "aligned w'" for w'
      using range_entries_Suc [OF that Suc.prems(2), of n pa perm] Suc.prems(2,3) aligned_PGROUNDDOWN [of va] by simp
  qed
  then show ?case
    using eq r w(2,3) by (intro exI [of _ s'] exI [of _ "ys @ ys'"] exI [of _ zs']) simp
qed

text \<open>C13.  A page table is a map from pages to entries, and \<open>mappages\<close> is its update: when the
  range is aligned, below \<open>MAXVA\<close> and unmapped, and enough free pages remain for new tables, it
  returns 0; afterwards the entry of each page of the range is the one requested, every other
  entry is as before, the tables still form a tree disjoint from the free pages, and no memory
  outside the tables changed.\<close>

theorem mappages_correct:
  assumes "vm_ok s pt xs" and "aligned va" and "0 < n" and "unat va + n * 4096 \<le> unat MAXVA"
    and "2 * n \<le> length xs" and "\<forall>k < n. \<not> bit (pte_of (mem s) pt (va + of_nat k * PGSIZE)) 0"
  shows "\<exists>s' ys zs. mappages pt va (of_nat n * PGSIZE) pa perm s = Some (0, s') \<and> xs = ys @ zs
     \<and> vm_ok s' pt zs \<and> entries_set s s' pt ys (range_entries va n pa perm)"
proof -
  from assms(3) obtain k where n: "n = Suc k" by (cases n) auto
  have sz: "unat (of_nat n * PGSIZE) = n * 4096" using assms(4) by (intro pages_nat) simp
  have "(of_nat n * PGSIZE) mod PGSIZE = 0" using sz by (simp add: word_unat_eq_iff unat_mod PGSIZE_def)
  moreover have "of_nat n * PGSIZE \<noteq> 0" using sz assms(3) by (auto simp: word_unat_eq_iff)
  moreover have "va mod PGSIZE = 0" using assms(2) by (simp add: aligned_def)
  moreover have "va + of_nat n * PGSIZE - PGSIZE = va + of_nat k * PGSIZE" by (simp add: n algebra_simps)
  ultimately have eq: "mappages pt va (of_nat n * PGSIZE) pa perm s
      = mappages_loop pt va (va + of_nat k * PGSIZE) pa perm s"
    unfolding mappages_def by metis
  have "\<forall>j \<le> k. \<not> bit (pte_of (mem s) pt (va + of_nat j * PGSIZE)) 0"
    using assms(6) by (simp add: n less_Suc_eq_le)
  from mappages_loop_ok [OF assms(1,2) assms(4,5) [unfolded n] this, of pa perm]
  show ?thesis unfolding eq by (simp only: n) blast
qed


text \<open>An empty page table in the small machine.\<close>

lemma demo_mem_zero: "PGROUNDDOWN x \<noteq> 0x80100000 \<Longrightarrow> mem demo_mem x = 0"
  using write64_page [of "0x80100000" 0 x "0x80101000" "\<lambda>_. 0"]
  by (simp add: demo_mem_def aligned_def PGSIZE_def)

lemma demo_pte: "i < 512 \<Longrightarrow> read64 (mem demo_mem) (slot 0x80103000 i) = 0"
proof -
  assume "i < 512"
  then have "read64 (mem demo_mem) (slot 0x80103000 i) = read64 (\<lambda>_. 0) (slot 0x80103000 i)"
    by (intro read64_slot_cong) (auto simp: demo_mem_zero aligned_def PGSIZE_def)
  then show ?thesis by (simp add: read64_def upt_rec)
qed

lemma demo_tab: "d \<le> 2 \<Longrightarrow> tab (mem demo_mem) 0x80103000 va d = (if d = 0 then Some 0x80103000 else None)"
proof (induction d)
  case (Suc d)
  then show ?case by (cases "d = 0") (simp_all add: demo_pte)
qed simp

lemma demo_tables: "tables (mem demo_mem) 0x80103000 = {0x80103000}"
proof (intro equalityI subsetI)
  fix t assume "t \<in> tables (mem demo_mem) 0x80103000"
  then obtain va d where "d \<le> 2" "tab (mem demo_mem) 0x80103000 va d = Some t" unfolding tables_def by blast
  then show "t \<in> {0x80103000}" by (cases "d = 0") (simp_all add: demo_tab)
qed (auto simp: tables_def intro!: exI [of _ 0])

lemma demo_vm_ok: "vm_ok demo_mem 0x80103000 [0x80100000, 0x80101000]"
proof -
  have "pt_wf (mem demo_mem) 0x80103000"
    unfolding pt_wf_def
  proof (intro allI impI)
    fix va d t assume d: "d \<le> 2" "tab (mem demo_mem) 0x80103000 va d = Some t"
    then have "d = 0" "t = 0x80103000" by (cases "d = 0"; simp add: demo_tab)+
    then show "pa_ok t \<and> (\<forall>va' d'. d' \<le> 2 \<longrightarrow> tab (mem demo_mem) 0x80103000 va' d' = Some t \<longrightarrow> d = d' \<and> agree d va va')"
      by (auto simp: demo_tab pa_ok_def aligned_def PGSIZE_def split: if_splits)
  qed
  moreover have "ram_page demo_mem 0x80103000"
    by (simp add: ram_page_def demo_mem_def aligned_def PGSIZE_def KERNBASE_def PHYSTOP_def)
  ultimately show ?thesis using demo_free by (simp add: vm_ok_def demo_tables)
qed

lemma demo_pte_of: "pte_of (mem demo_mem) 0x80103000 va = 0"
  by (simp add: pte_of_def demo_tab)

theorem mappages_correct_witness:
  "\<exists>s'. mappages 0x80103000 0x1000 PGSIZE 0x80104000 PTE_R demo_mem = Some (0, s')
     \<and> pte_of (mem s') 0x80103000 0x1234 = PA2PTE 0x80104000 OR PTE_R OR PTE_V"
proof -
  have "\<exists>s' ys zs. mappages 0x80103000 0x1000 (of_nat 1 * PGSIZE) 0x80104000 PTE_R demo_mem = Some (0, s')
     \<and> [0x80100000, 0x80101000] = ys @ zs
     \<and> vm_ok s' 0x80103000 zs \<and> entries_set demo_mem s' 0x80103000 ys (range_entries 0x1000 1 0x80104000 PTE_R)"
    by (rule mappages_correct [OF demo_vm_ok]) (simp_all add: demo_pte_of aligned_def PGSIZE_def MAXVA_nat)
  then obtain s' ys where "mappages 0x80103000 0x1000 PGSIZE 0x80104000 PTE_R demo_mem = Some (0, s')"
    and e: "entries_set demo_mem s' 0x80103000 ys (range_entries 0x1000 1 0x80104000 PTE_R)" by auto
  moreover have "PGROUNDDOWN 0x1234 = 0x1000" by (simp add: PGROUNDDOWN_def PGSIZE_def)
  moreover have "(0x1234 :: uint64) < MAXVA" by (simp add: MAXVA_def)
  ultimately show ?thesis
    by (intro exI [of _ s']) (simp add: entries_set_def range_entries_def PGSIZE_def)
qed

end
