(* ===== verification/Bio.thy ===== *)
theory Bio
  imports Vm
begin

text \<open>
  Sleep locks (\<^verbatim>\<open>kernel/sleeplock.c\<close>) and the buffer cache (\<^verbatim>\<open>kernel/bio.c\<close>).

  The disk is a function from block numbers to blocks; \<open>disk_writes\<close> records the order in
  which blocks reached it.  \<open>virtio_disk_rw\<close> is the transfer that the driver
  promises to its client: one block is read into or written from the buffer.

  A buffer pointer is an index: \<open>0 ..< NBUF\<close> are the entries of \<^verbatim>\<open>bcache.buf\<close>, \<open>NBUF\<close> is
  \<^verbatim>\<open>bcache.head\<close>.  The least-recently-used list is kept in the \<open>prev\<close> and \<open>next\<close> fields, as in
  the code, and followed pointer by pointer.

  A thread that finds a sleep lock taken goes to sleep until it is released; the model of the
  caller does not return (\<^term>\<open>None\<close>) in that case.
\<close>

section \<open>Constants and state\<close>

definition BSIZE :: nat where "BSIZE = 1024"
definition MAXOPBLOCKS :: nat where "MAXOPBLOCKS = 10"
definition LOGBLOCKS :: nat where "LOGBLOCKS = MAXOPBLOCKS * 3"
definition NBUF :: nat where "NBUF = MAXOPBLOCKS * 3"

type_synonym block = "uint8 list"

record sleeplock =
  sl_locked :: uint_t
  sl_name :: string
  sl_pid :: int

datatype sleepid = BufLock nat | InodeLock nat

record buf =
  b_valid :: bool
  b_disk :: bool
  b_dev :: uint_t
  b_blockno :: uint_t
  b_refcnt :: uint_t
  b_prev :: nat
  b_next :: nat
  b_data :: block

record bio_state = mem_state +
  disk :: "uint_t \<Rightarrow> block"
  disk_writes :: "(uint_t \<times> block) list"
  slocks :: "sleepid \<Rightarrow> sleeplock"
  bufs :: "nat \<Rightarrow> buf"

definition upd_buf :: "nat \<Rightarrow> (buf \<Rightarrow> buf) \<Rightarrow> 'a bio_state_scheme \<Rightarrow> 'a bio_state_scheme" where
  "upd_buf b f s = s\<lparr>bufs := (bufs s)(b := f (bufs s b))\<rparr>"

definition upd_slock :: "sleepid \<Rightarrow> (sleeplock \<Rightarrow> sleeplock) \<Rightarrow> 'a bio_state_scheme \<Rightarrow> 'a bio_state_scheme" where
  "upd_slock l f s = s\<lparr>slocks := (slocks s)(l := f (slocks s l))\<rparr>"

section \<open>Sleep locks\<close>

fun inner_lk :: "sleepid \<Rightarrow> lockid" where
  "inner_lk (BufLock b) = BufSleepLk b"
| "inner_lk (InodeLock i) = InodeSleepLk i"

fun sleep_chan :: "sleepid \<Rightarrow> chan" where
  "sleep_chan (BufLock b) = ChanBufLock b"
| "sleep_chan (InodeLock i) = ChanInodeLock i"

definition mypid :: "'a sched_state_scheme \<Rightarrow> int option" where
  "mypid s = map_option (\<lambda>p. p_pid (procs s p)) (myproc s)"

definition initsleeplock :: "sleepid \<Rightarrow> string \<Rightarrow> 'a bio_state_scheme \<Rightarrow> 'a bio_state_scheme" where
  "initsleeplock l name s = upd_slock l (\<lambda>_. \<lparr>sl_locked = 0, sl_name = name, sl_pid = 0\<rparr>) s"

definition acquiresleep :: "sleepid \<Rightarrow> 'a bio_state_scheme \<Rightarrow> 'a bio_state_scheme option" where
  "acquiresleep l s = do {
     s \<leftarrow> acq (inner_lk l) s;
     check (sl_locked (slocks s l) = 0);
     pid \<leftarrow> mypid s;
     let s = upd_slock l (\<lambda>k. k\<lparr>sl_locked := 1, sl_pid := pid\<rparr>) s;
     rel (inner_lk l) s
   }"

definition releasesleep :: "sleepid \<Rightarrow> 'a bio_state_scheme \<Rightarrow> 'a bio_state_scheme option" where
  "releasesleep l s = do {
     s \<leftarrow> acq (inner_lk l) s;
     let s = upd_slock l (\<lambda>k. k\<lparr>sl_locked := 0, sl_pid := 0\<rparr>) s;
     s \<leftarrow> wakeup (sleep_chan l) s;
     rel (inner_lk l) s
   }"

definition holdingsleep :: "sleepid \<Rightarrow> 'a bio_state_scheme \<Rightarrow> (bool \<times> 'a bio_state_scheme) option" where
  "holdingsleep l s = do {
     s \<leftarrow> acq (inner_lk l) s;
     r \<leftarrow> (if sl_locked (slocks s l) = 0 then Some False
          else do { pid \<leftarrow> mypid s; Some (sl_pid (slocks s l) = pid) });
     s \<leftarrow> rel (inner_lk l) s;
     Some (r, s)
   }"

section \<open>The disk\<close>

definition virtio_disk_rw :: "nat \<Rightarrow> bool \<Rightarrow> 'a bio_state_scheme \<Rightarrow> 'a bio_state_scheme" where
  "virtio_disk_rw b write s =
     (let blockno = b_blockno (bufs s b) in
      if write
      then s\<lparr>disk := (disk s)(blockno := b_data (bufs s b)),
             disk_writes := disk_writes s @ [(blockno, b_data (bufs s b))]\<rparr>
      else upd_buf b (\<lambda>x. x\<lparr>b_data := disk s blockno\<rparr>) s)"

section \<open>The buffer cache\<close>

text \<open>\<open>link_first b\<close>: the four assignments that put \<open>b\<close> right after the list head.\<close>

definition link_first :: "nat \<Rightarrow> 'a bio_state_scheme \<Rightarrow> 'a bio_state_scheme" where
  "link_first b s =
     (let s = upd_buf b (\<lambda>x. x\<lparr>b_next := b_next (bufs s NBUF)\<rparr>) s;
          s = upd_buf b (\<lambda>x. x\<lparr>b_prev := NBUF\<rparr>) s;
          s = upd_buf (b_next (bufs s NBUF)) (\<lambda>x. x\<lparr>b_prev := b\<rparr>) s
      in upd_buf NBUF (\<lambda>x. x\<lparr>b_next := b\<rparr>) s)"

text \<open>\<open>unlink_buf b\<close>: the two assignments that take \<open>b\<close> out of the list.\<close>

definition unlink_buf :: "nat \<Rightarrow> 'a bio_state_scheme \<Rightarrow> 'a bio_state_scheme" where
  "unlink_buf b s =
     (let s = upd_buf (b_next (bufs s b)) (\<lambda>x. x\<lparr>b_prev := b_prev (bufs s b)\<rparr>) s
      in upd_buf (b_prev (bufs s b)) (\<lambda>x. x\<lparr>b_next := b_next (bufs s b)\<rparr>) s)"

definition binit :: "'a bio_state_scheme \<Rightarrow> 'a bio_state_scheme" where
  "binit s =
     (let s = upd_buf NBUF (\<lambda>x. x\<lparr>b_prev := NBUF\<rparr>) s;
          s = upd_buf NBUF (\<lambda>x. x\<lparr>b_next := NBUF\<rparr>) s
      in fold (\<lambda>b s. initsleeplock (BufLock b) ''buffer'' (link_first b s)) [0..<NBUF] s)"

partial_function (option) bget_cached :: "uint_t \<Rightarrow> uint_t \<Rightarrow> nat \<Rightarrow> 'a bio_state_scheme \<Rightarrow> nat option option" where
  "bget_cached dev blockno b s =
     (if b = NBUF then Some None
      else if b_dev (bufs s b) = dev \<and> b_blockno (bufs s b) = blockno then Some (Some b)
      else bget_cached dev blockno (b_next (bufs s b)) s)"

partial_function (option) bget_free :: "nat \<Rightarrow> 'a bio_state_scheme \<Rightarrow> nat option option" where
  "bget_free b s =
     (if b = NBUF then Some None
      else if b_refcnt (bufs s b) = 0 then Some (Some b)
      else bget_free (b_prev (bufs s b)) s)"

definition bget :: "uint_t \<Rightarrow> uint_t \<Rightarrow> 'a bio_state_scheme \<Rightarrow> (nat \<times> 'a bio_state_scheme) option" where
  "bget dev blockno s = do {
     s \<leftarrow> acq BcacheLock s;
     cached \<leftarrow> bget_cached dev blockno (b_next (bufs s NBUF)) s;
     case cached of
       Some b \<Rightarrow> do {
         let s = upd_buf b (\<lambda>x. x\<lparr>b_refcnt := b_refcnt x + 1\<rparr>) s;
         s \<leftarrow> rel BcacheLock s;
         s \<leftarrow> acquiresleep (BufLock b) s;
         Some (b, s) }
     | None \<Rightarrow> do {
         free \<leftarrow> bget_free (b_prev (bufs s NBUF)) s;
         case free of
           Some b \<Rightarrow> do {
             let s = upd_buf b (\<lambda>x. x\<lparr>b_dev := dev, b_blockno := blockno, b_valid := False,
                                        b_refcnt := 1\<rparr>) s;
             s \<leftarrow> rel BcacheLock s;
             s \<leftarrow> acquiresleep (BufLock b) s;
             Some (b, s) }
         | None \<Rightarrow> panic ''bget: no buffers'' }
   }"

definition bread :: "uint_t \<Rightarrow> uint_t \<Rightarrow> 'a bio_state_scheme \<Rightarrow> (nat \<times> 'a bio_state_scheme) option" where
  "bread dev blockno s = do {
     (b, s) \<leftarrow> bget dev blockno s;
     if \<not> b_valid (bufs s b)
     then Some (b, upd_buf b (\<lambda>x. x\<lparr>b_valid := True\<rparr>) (virtio_disk_rw b False s))
     else Some (b, s)
   }"

definition bwrite :: "nat \<Rightarrow> 'a bio_state_scheme \<Rightarrow> 'a bio_state_scheme option" where
  "bwrite b s = do {
     (h, s) \<leftarrow> holdingsleep (BufLock b) s;
     if \<not> h then panic ''bwrite'' else Some (virtio_disk_rw b True s)
   }"

definition brelse :: "nat \<Rightarrow> 'a bio_state_scheme \<Rightarrow> 'a bio_state_scheme option" where
  "brelse b s = do {
     (h, s) \<leftarrow> holdingsleep (BufLock b) s;
     if \<not> h then panic ''brelse''
     else do {
       s \<leftarrow> releasesleep (BufLock b) s;
       s \<leftarrow> acq BcacheLock s;
       let s = upd_buf b (\<lambda>x. x\<lparr>b_refcnt := b_refcnt x - 1\<rparr>) s;
       let s = (if b_refcnt (bufs s b) = 0 then link_first b (unlink_buf b s) else s);
       rel BcacheLock s }
   }"

definition bpin :: "nat \<Rightarrow> 'a bio_state_scheme \<Rightarrow> 'a bio_state_scheme option" where
  "bpin b s = do {
     s \<leftarrow> acq BcacheLock s;
     rel BcacheLock (upd_buf b (\<lambda>x. x\<lparr>b_refcnt := b_refcnt x + 1\<rparr>) s)
   }"

definition bunpin :: "nat \<Rightarrow> 'a bio_state_scheme \<Rightarrow> 'a bio_state_scheme option" where
  "bunpin b s = do {
     s \<leftarrow> acq BcacheLock s;
     rel BcacheLock (upd_buf b (\<lambda>x. x\<lparr>b_refcnt := b_refcnt x - 1\<rparr>) s)
   }"

section \<open>The least-recently-used list\<close>

text \<open>\<open>seg N P a xs c\<close>: following the next pointers \<open>N\<close> from \<open>a\<close> one passes through \<open>xs\<close> and arrives at \<open>c\<close>,
  and the previous pointers \<open>P\<close> lead back.\<close>

fun seg :: "(nat \<Rightarrow> nat) \<Rightarrow> (nat \<Rightarrow> nat) \<Rightarrow> nat \<Rightarrow> nat list \<Rightarrow> nat \<Rightarrow> bool" where
  "seg N P a [] c \<longleftrightarrow> N a = c \<and> P c = a"
| "seg N P a (x # xs) c \<longleftrightarrow> N a = x \<and> P x = a \<and> seg N P x xs c"

lemma seg_append: "seg N P a (xs @ b # ys) c \<longleftrightarrow> seg N P a xs b \<and> seg N P b ys c"
  by (induction xs arbitrary: a) auto

lemma seg_cong:
  "(\<And>x. x \<in> insert a (set xs) \<Longrightarrow> N x = N' x) \<Longrightarrow> (\<And>x. x \<in> insert c (set xs) \<Longrightarrow> P x = P' x)
   \<Longrightarrow> seg N P a xs c = seg N' P' a xs c"
  by (induction xs arbitrary: a) auto

lemma seg_first: "seg N P a xs c \<Longrightarrow> N a = hd (xs @ [c])"
  by (cases xs) auto

lemma seg_last: "seg N P a xs c \<Longrightarrow> P c = last (a # xs)"
  by (induction xs arbitrary: a) auto

lemma seg_unlink:
  assumes "seg N P h (ys @ b # zs) h" and "distinct (h # ys @ b # zs)"
  shows "seg (N(P b := N b)) (P(N b := P b)) h (ys @ zs) h"
proof -
  from assms(1) have s: "seg N P h ys b" "seg N P b zs h" by (simp_all add: seg_append)
  have n: "N b = hd (zs @ [h])" and p: "P b = last (h # ys)"
    using seg_first [OF s(2)] seg_last [OF s(1)] by simp_all
  show ?thesis
  proof (cases zs)
    case Nil
    have "seg (N(P b := h)) (P(h := P b)) h ys h"
      using s(1) assms(2) p
    proof (induction ys rule: rev_induct)
      case (snoc y ys)
      then have "seg N P h ys y" by (simp add: seg_append)
      moreover have "seg (N(y := h)) (P(h := y)) h ys y = seg N P h ys y"
        using snoc.prems(2) by (intro seg_cong) auto
      ultimately show ?case using snoc.prems by (simp add: seg_append fun_upd_def)
    qed simp
    then show ?thesis using Nil n by simp
  next
    case (Cons z zs')
    then have z: "N b = z" "P z = b" "seg N P z zs' h" using s(2) by simp_all
    have z': "seg (N(P b := z)) (P(z := P b)) z zs' h = seg N P z zs' h"
    proof (rule seg_cong)
      have "P b \<in> insert h (set ys)" using p by auto
      then show "x \<in> insert z (set zs') \<Longrightarrow> (N(P b := z)) x = N x" for x
        using assms(2) Cons by auto
      show "x \<in> insert h (set zs') \<Longrightarrow> (P(z := P b)) x = P x" for x
        using assms(2) Cons by auto
    qed
    have "seg (N(P b := z)) (P(z := P b)) h ys z"
      using s(1) assms(2) p unfolding Cons
    proof (induction ys rule: rev_induct)
      case (snoc y ys)
      then have "seg N P h ys y" by (simp add: seg_append)
      moreover have "seg (N(y := z)) (P(z := y)) h ys y = seg N P h ys y"
        using snoc.prems(2) by (intro seg_cong) auto
      ultimately show ?case using snoc.prems by (simp add: seg_append fun_upd_def)
    qed simp
    then show ?thesis using Cons z z' by (simp add: seg_append)
  qed
qed

lemma seg_link:
  assumes "seg N P h xs h" and "b \<notin> set xs" and "b \<noteq> h" and "distinct (h # xs)"
  shows "seg (N(b := N h, h := b)) (P(b := h, N h := b)) h (b # xs) h"
proof (cases xs)
  case Nil
  then show ?thesis using assms by simp
next
  case (Cons x xs')
  have "seg (N(b := x, h := b)) (P(b := h, x := b)) x xs' h = seg N P x xs' h"
    using assms Cons by (intro seg_cong) auto
  then show ?thesis using assms Cons by auto
qed

text \<open>The list a state holds, most recently used first.\<close>

definition lru :: "(nat \<Rightarrow> buf) \<Rightarrow> nat list \<Rightarrow> bool" where
  "lru B xs \<longleftrightarrow> seg (\<lambda>b. b_next (B b)) (\<lambda>b. b_prev (B b)) NBUF xs NBUF \<and> distinct xs \<and> set xs = {..<NBUF}"

lemma lru_cong:
  "(\<And>b. b \<le> NBUF \<Longrightarrow> b_next (B b) = b_next (B' b) \<and> b_prev (B b) = b_prev (B' b)) \<Longrightarrow> lru B xs = lru B' xs"
proof -
  assume *: "\<And>b. b \<le> NBUF \<Longrightarrow> b_next (B b) = b_next (B' b) \<and> b_prev (B b) = b_prev (B' b)"
  have "seg (\<lambda>b. b_next (B b)) (\<lambda>b. b_prev (B b)) NBUF xs NBUF =
      seg (\<lambda>b. b_next (B' b)) (\<lambda>b. b_prev (B' b)) NBUF xs NBUF" if "set xs = {..<NBUF}"
    using * that by (intro seg_cong) auto
  then show ?thesis by (auto simp: lru_def)
qed

lemma bget_cached_find:
  assumes "seg (\<lambda>b. b_next (bufs s b)) (\<lambda>b. b_prev (bufs s b)) a xs NBUF" and "NBUF \<notin> set xs"
  shows "bget_cached dev blockno (b_next (bufs s a)) s =
     Some (find (\<lambda>b. b_dev (bufs s b) = dev \<and> b_blockno (bufs s b) = blockno) xs)"
  using assms
proof (induction xs arbitrary: a)
  case Nil
  then show ?case by (simp add: bget_cached.simps)
next
  case (Cons x xs)
  then have "b_next (bufs s a) = x" "x \<noteq> NBUF" by auto
  with Cons show ?case by (subst bget_cached.simps) auto
qed

lemma bget_free_find:
  assumes "seg (\<lambda>b. b_next (bufs s b)) (\<lambda>b. b_prev (bufs s b)) NBUF xs c" and "NBUF \<notin> set xs"
  shows "bget_free (b_prev (bufs s c)) s = Some (find (\<lambda>b. b_refcnt (bufs s b) = 0) (rev xs))"
  using assms
proof (induction xs arbitrary: c rule: rev_induct)
  case Nil
  then show ?case by (simp add: bget_free.simps)
next
  case (snoc x xs)
  then have "b_prev (bufs s c) = x" "x \<noteq> NBUF" "seg (\<lambda>b. b_next (bufs s b)) (\<lambda>b. b_prev (bufs s b)) NBUF xs x"
    by (auto simp: seg_append)
  with snoc show ?case by (subst bget_free.simps) auto
qed

section \<open>The cache as a map from blocks to contents\<close>

definition has :: "'a bio_state_scheme \<Rightarrow> uint_t \<Rightarrow> uint_t \<Rightarrow> nat \<Rightarrow> bool" where
  "has s d k b \<longleftrightarrow> b < NBUF \<and> b_dev (bufs s b) = d \<and> b_blockno (bufs s b) = k"

definition cached_at :: "'a bio_state_scheme \<Rightarrow> uint_t \<Rightarrow> uint_t \<Rightarrow> nat option" where
  "cached_at s d k = find (\<lambda>b. b_dev (bufs s b) = d \<and> b_blockno (bufs s b) = k) [0..<NBUF]"

text \<open>The contents of a block as a reader sees it, and its reference count.\<close>

definition view :: "'a bio_state_scheme \<Rightarrow> uint_t \<Rightarrow> uint_t \<Rightarrow> block" where
  "view s d k = (case cached_at s d k of
     Some b \<Rightarrow> if b_valid (bufs s b) then b_data (bufs s b) else disk s k
   | None \<Rightarrow> disk s k)"

definition refs :: "'a bio_state_scheme \<Rightarrow> uint_t \<Rightarrow> uint_t \<Rightarrow> nat" where
  "refs s d k = (case cached_at s d k of Some b \<Rightarrow> unat (b_refcnt (bufs s b)) | None \<Rightarrow> 0)"

definition locked :: "'a bio_state_scheme \<Rightarrow> uint_t \<Rightarrow> uint_t set" where
  "locked s d = {k. \<exists>b. has s d k b \<and> sl_locked (slocks s (BufLock b)) \<noteq> 0}"

definition binv :: "uint_t \<Rightarrow> 'a bio_state_scheme \<Rightarrow> bool" where
  "binv d s \<longleftrightarrow> (\<exists>xs. lru (bufs s) xs)
   \<and> (\<forall>b c k. has s d k b \<longrightarrow> has s d k c \<longrightarrow> b = c)
   \<and> (\<forall>b < NBUF. b_refcnt (bufs s b) = 0 \<longrightarrow> sl_locked (slocks s (BufLock b)) = 0
        \<and> (b_dev (bufs s b) = d \<and> b_valid (bufs s b) \<longrightarrow> b_data (bufs s b) = disk s (b_blockno (bufs s b))))
   \<and> (\<forall>b < NBUF. b_refcnt (bufs s b) \<noteq> 0 \<longrightarrow> b_dev (bufs s b) = d)"

lemma cached_at_iff:
  assumes "binv d s"
  shows "cached_at s d k = Some b \<longleftrightarrow> has s d k b"
proof
  assume "cached_at s d k = Some b"
  then show "has s d k b" by (auto simp: cached_at_def has_def find_Some_iff)
next
  assume h: "has s d k b"
  then have "cached_at s d k \<noteq> None" by (auto simp: cached_at_def has_def find_None_iff)
  then obtain c where c: "cached_at s d k = Some c" by auto
  then have "has s d k c" by (auto simp: cached_at_def has_def find_Some_iff)
  with h assms have "b = c" unfolding binv_def by blast
  with c show "cached_at s d k = Some b" by simp
qed

lemma cached_at_None: "cached_at s d k = None \<longleftrightarrow> (\<forall>b. \<not> has s d k b)"
  by (auto simp: cached_at_def has_def find_None_iff)

lemma view_has: "binv d s \<Longrightarrow> has s d k b \<Longrightarrow>
    view s d k = (if b_valid (bufs s b) then b_data (bufs s b) else disk s k)"
  by (simp add: view_def cached_at_iff [THEN iffD2])

lemma refs_has: "binv d s \<Longrightarrow> has s d k b \<Longrightarrow> refs s d k = unat (b_refcnt (bufs s b))"
  by (simp add: refs_def cached_at_iff [THEN iffD2])

lemma not_cached: "\<forall>b. \<not> has s d k b \<Longrightarrow> view s d k = disk s k \<and> refs s d k = 0"
  by (simp add: view_def refs_def cached_at_None [THEN iffD2])

lemma refs_pos: "binv d s \<Longrightarrow> 0 < refs s d k \<Longrightarrow> \<exists>b. has s d k b \<and> b_refcnt (bufs s b) \<noteq> 0"
  using not_cached [of s d k] by (cases "\<exists>b. has s d k b") (auto simp: refs_has unat_gt_0)

text \<open>Room in the cache: fewer blocks in use than buffers.\<close>

lemma free_buffer:
  assumes "binv d s" and "card {k. 0 < refs s d k} < NBUF"
  shows "\<exists>b < NBUF. b_refcnt (bufs s b) = 0"
proof (rule ccontr)
  assume "\<not> ?thesis"
  then have busy: "b_refcnt (bufs s b) \<noteq> 0" if "b < NBUF" for b using that by blast
  let ?f = "\<lambda>b. b_blockno (bufs s b)"
  have has: "has s d (?f b) b" if "b < NBUF" for b
    using assms(1) busy [OF that] that by (auto simp: binv_def has_def)
  have inj: "inj_on ?f {..<NBUF}"
  proof (rule inj_onI)
    fix b c assume "b \<in> {..<NBUF}" "c \<in> {..<NBUF}" "?f b = ?f c"
    then have "has s d (?f b) b" "has s d (?f b) c" using has [of b] has [of c] by simp_all
    then show "b = c" using assms(1) unfolding binv_def by blast
  qed
  have fin: "finite {k. 0 < refs s d k}"
  proof (rule finite_subset)
    show "{k. 0 < refs s d k} \<subseteq> ?f ` {..<NBUF}"
    proof
      fix k assume "k \<in> {k. 0 < refs s d k}"
      then obtain b where "has s d k b" using refs_pos [OF assms(1), of k] by auto
      then show "k \<in> ?f ` {..<NBUF}" by (auto simp: has_def)
    qed
  qed simp
  have "?f ` {..<NBUF} \<subseteq> {k. 0 < refs s d k}"
  proof
    fix k assume "k \<in> ?f ` {..<NBUF}"
    then obtain b where b: "b < NBUF" "k = ?f b" by auto
    then show "k \<in> {k. 0 < refs s d k}"
      using refs_has [OF assms(1) has [OF b(1)]] busy [OF b(1)] by (simp add: unat_gt_0)
  qed
  then have "card (?f ` {..<NBUF}) \<le> card {k. 0 < refs s d k}" by (rule card_mono [OF fin])
  then show False using assms(2) card_image [OF inj] by simp
qed

section \<open>What bread does\<close>

lemma upd_buf_simps [simp]:
  "bufs (upd_buf b f s) = (bufs s)(b := f (bufs s b))" "slocks (upd_buf b f s) = slocks s"
  "held (upd_buf b f s) = held s" "disk (upd_buf b f s) = disk s" "disk_writes (upd_buf b f s) = disk_writes s"
  "procs (upd_buf b f s) = procs s" "cpu_proc (upd_buf b f s) = cpu_proc s" "tp (upd_buf b f s) = tp s"
  "pqueue (upd_buf b f s) = pqueue s"
  by (simp_all add: upd_buf_def)

lemma bio_outermost [simp]:
  "s\<lparr>slocks := l, bufs := b\<rparr> = s\<lparr>bufs := b, slocks := l\<rparr>"
  "s\<lparr>held := h, bufs := b\<rparr> = s\<lparr>bufs := b, held := h\<rparr>"
  "s\<lparr>held := h, slocks := l\<rparr> = s\<lparr>slocks := l, held := h\<rparr>"
  by simp_all

lemma buf_order [simp]: "x\<lparr>b_data := u, b_valid := v\<rparr> = x\<lparr>b_valid := v, b_data := u\<rparr>"
  by simp

lemma buf_same: "b_valid x \<Longrightarrow> x\<lparr>b_refcnt := r, b_valid := True, b_data := b_data x\<rparr> = x\<lparr>b_refcnt := r\<rparr>"
  by (cases x) simp

lemma acquiresleep_eq:
  assumes "held s = {}" and "myproc s = Some p" and "sl_locked (slocks s l) = 0"
  shows "acquiresleep l s = Some (upd_slock l (\<lambda>k. k\<lparr>sl_locked := 1, sl_pid := p_pid (procs s p)\<rparr>) s)"
  using assms by (simp add: acquiresleep_def acq_def rel_def mypid_def upd_slock_def myproc_def)

text \<open>The buffer \<open>bread\<close> returns: the cached one, or the least recently used free one.\<close>

definition bread_buf :: "'a bio_state_scheme \<Rightarrow> uint_t \<Rightarrow> uint_t \<Rightarrow> nat \<Rightarrow> buf" where
  "bread_buf s d k b =
     (if has s d k b
      then (bufs s b)\<lparr>b_refcnt := b_refcnt (bufs s b) + 1, b_valid := True, b_data := view s d k\<rparr>
      else (bufs s b)\<lparr>b_dev := d, b_blockno := k, b_refcnt := 1, b_valid := True, b_data := disk s k\<rparr>)"

lemma find_in: "find Q ys = Some b \<Longrightarrow> b \<in> set ys \<and> Q b"
  by (induction ys) (auto split: if_splits)

lemma find_lru:
  assumes "lru B xs"
  shows "find Q xs = None \<longleftrightarrow> (\<forall>b < NBUF. \<not> Q b)"
    and "find Q xs = Some b \<Longrightarrow> b < NBUF \<and> Q b"
    and "find Q (rev xs) = None \<longleftrightarrow> (\<forall>b < NBUF. \<not> Q b)"
    and "find Q (rev xs) = Some b \<Longrightarrow> b < NBUF \<and> Q b"
proof -
  have s: "set xs = {..<NBUF}" "set (rev xs) = {..<NBUF}" using assms by (simp_all add: lru_def)
  show "find Q xs = None \<longleftrightarrow> (\<forall>b < NBUF. \<not> Q b)" "find Q (rev xs) = None \<longleftrightarrow> (\<forall>b < NBUF. \<not> Q b)"
    unfolding find_None_iff s by auto
  show "find Q xs = Some b \<Longrightarrow> b < NBUF \<and> Q b" "find Q (rev xs) = Some b \<Longrightarrow> b < NBUF \<and> Q b"
    using find_in [of Q xs b] find_in [of Q "rev xs" b] unfolding s by auto
qed

lemma bread_eq:
  assumes "held s = {}" and "myproc s = Some p" and "binv d s" and "k \<notin> locked s d"
    and "(\<exists>b. has s d k b) \<or> (\<exists>b < NBUF. b_refcnt (bufs s b) = 0)"
  shows "\<exists>b. bread d k s = Some (b, upd_slock (BufLock b) (\<lambda>l. l\<lparr>sl_locked := 1, sl_pid := p_pid (procs s p)\<rparr>)
      (upd_buf b (\<lambda>_. bread_buf s d k b) s)) \<and> b < NBUF \<and> sl_locked (slocks s (BufLock b)) = 0
    \<and> (has s d k b \<or> b_refcnt (bufs s b) = 0 \<and> (\<forall>c. \<not> has s d k c))"
proof -
  obtain xs where xs: "lru (bufs s) xs" using assms(3) by (auto simp: binv_def)
  then have sg: "seg (\<lambda>b. b_next (bufs s b)) (\<lambda>b. b_prev (bufs s b)) NBUF xs NBUF" "NBUF \<notin> set xs"
    by (auto simp: lru_def)
  let ?s = "s\<lparr>held := {BcacheLock}\<rparr>"
  let ?Q = "\<lambda>b. b_dev (bufs s b) = d \<and> b_blockno (bufs s b) = k"
  have c: "bget_cached d k (b_next (bufs s NBUF)) ?s = Some (find ?Q xs)"
    using bget_cached_find [of ?s NBUF xs d k] sg by simp
  have f: "bget_free (b_prev (bufs s NBUF)) ?s = Some (find (\<lambda>b. b_refcnt (bufs s b) = 0) (rev xs))"
    using bget_free_find [of ?s xs NBUF] sg by simp
  show ?thesis
  proof (cases "find ?Q xs")
    case (Some b)
    then have b: "b < NBUF" "has s d k b" using find_lru(2) [OF xs Some] by (simp_all add: has_def)
    then have unlocked: "sl_locked (slocks s (BufLock b)) = 0" using assms(4) by (auto simp: locked_def)
    have "bget d k s = Some (b, upd_slock (BufLock b) (\<lambda>l. l\<lparr>sl_locked := 1, sl_pid := p_pid (procs s p)\<rparr>)
        (upd_buf b (\<lambda>x. x\<lparr>b_refcnt := b_refcnt x + 1\<rparr>) s))"
      using assms(1,2) unlocked c Some
      by (simp add: bget_def acq_def rel_def upd_buf_def acquiresleep_eq upd_slock_def myproc_def)
    then have "bread d k s = Some (b, upd_slock (BufLock b) (\<lambda>l. l\<lparr>sl_locked := 1, sl_pid := p_pid (procs s p)\<rparr>)
        (upd_buf b (\<lambda>_. bread_buf s d k b) s))"
      using b view_has [OF assms(3) b(2)]
      by (auto simp: bread_def bread_buf_def virtio_disk_rw_def upd_buf_def upd_slock_def has_def buf_same)
    with b unlocked show ?thesis by blast
  next
    case None
    then have no: "\<forall>c. \<not> has s d k c" using find_lru(1) [OF xs, of ?Q] by (simp add: has_def)
    then obtain b0 where "b0 < NBUF" "b_refcnt (bufs s b0) = 0" using assms(5) by blast
    then obtain b where fb: "find (\<lambda>b. b_refcnt (bufs s b) = 0) (rev xs) = Some b"
      using find_lru(3) [OF xs, of "\<lambda>b. b_refcnt (bufs s b) = 0"] by (cases "find (\<lambda>b. b_refcnt (bufs s b) = 0) (rev xs)") auto
    then have b: "b < NBUF" "b_refcnt (bufs s b) = 0" using find_lru(4) [OF xs] by auto
    then have unlocked: "sl_locked (slocks s (BufLock b)) = 0" using assms(3) by (auto simp: binv_def)
    have "bget d k s = Some (b, upd_slock (BufLock b) (\<lambda>l. l\<lparr>sl_locked := 1, sl_pid := p_pid (procs s p)\<rparr>)
        (upd_buf b (\<lambda>x. x\<lparr>b_dev := d, b_blockno := k, b_valid := False, b_refcnt := 1\<rparr>) s))"
      using assms(1,2) unlocked c None f fb
      by (simp add: bget_def acq_def rel_def upd_buf_def acquiresleep_eq upd_slock_def myproc_def)
    then have "bread d k s = Some (b, upd_slock (BufLock b) (\<lambda>l. l\<lparr>sl_locked := 1, sl_pid := p_pid (procs s p)\<rparr>)
        (upd_buf b (\<lambda>_. bread_buf s d k b) s))"
      using no by (simp add: bread_def bread_buf_def virtio_disk_rw_def upd_buf_def upd_slock_def)
    with b no unlocked show ?thesis by blast
  qed
qed

section \<open>What brelse does\<close>

text \<open>The pointer assignments of \<open>brelse\<close> on the table of buffers.\<close>

definition set_next :: "nat \<Rightarrow> nat \<Rightarrow> (nat \<Rightarrow> buf) \<Rightarrow> nat \<Rightarrow> buf" where
  "set_next i v B = B(i := (B i)\<lparr>b_next := v\<rparr>)"

definition set_prev :: "nat \<Rightarrow> nat \<Rightarrow> (nat \<Rightarrow> buf) \<Rightarrow> nat \<Rightarrow> buf" where
  "set_prev i v B = B(i := (B i)\<lparr>b_prev := v\<rparr>)"

definition relink :: "nat \<Rightarrow> (nat \<Rightarrow> buf) \<Rightarrow> nat \<Rightarrow> buf" where
  "relink b B =
     (let B = set_prev (b_next (B b)) (b_prev (B b)) B;
          B = set_next (b_prev (B b)) (b_next (B b)) B;
          B = set_next b (b_next (B NBUF)) B;
          B = set_prev b NBUF B;
          B = set_prev (b_next (B NBUF)) b B
      in set_next NBUF b B)"

lemma set_fields [simp]:
  "b_data (set_next i v B c) = b_data (B c)" "b_dev (set_next i v B c) = b_dev (B c)"
  "b_blockno (set_next i v B c) = b_blockno (B c)" "b_valid (set_next i v B c) = b_valid (B c)"
  "b_refcnt (set_next i v B c) = b_refcnt (B c)" "b_prev (set_next i v B c) = b_prev (B c)"
  "b_next (set_next i v B c) = (if c = i then v else b_next (B c))"
  "b_data (set_prev i v B c) = b_data (B c)" "b_dev (set_prev i v B c) = b_dev (B c)"
  "b_blockno (set_prev i v B c) = b_blockno (B c)" "b_valid (set_prev i v B c) = b_valid (B c)"
  "b_refcnt (set_prev i v B c) = b_refcnt (B c)" "b_next (set_prev i v B c) = b_next (B c)"
  "b_prev (set_prev i v B c) = (if c = i then v else b_prev (B c))"
  by (simp_all add: set_next_def set_prev_def)

lemma relink_fields [simp]:
  "b_data (relink b B c) = b_data (B c)" "b_dev (relink b B c) = b_dev (B c)"
  "b_blockno (relink b B c) = b_blockno (B c)" "b_valid (relink b B c) = b_valid (B c)"
  "b_refcnt (relink b B c) = b_refcnt (B c)"
  by (simp_all add: relink_def Let_def)

lemma relink_lru:
  assumes "lru B xs" and "b < NBUF"
  shows "lru (relink b B) (b # remove1 b xs)"
proof -
  let ?N = "\<lambda>c. b_next (B c)" and ?P = "\<lambda>c. b_prev (B c)"
  from assms obtain ys zs where xs: "xs = ys @ b # zs" by (metis lru_def lessThan_iff split_list)
  have sg: "seg ?N ?P NBUF (ys @ b # zs) NBUF" and d: "distinct (NBUF # ys @ b # zs)"
    using assms(1) by (auto simp: lru_def xs)
  let ?N' = "?N(?P b := ?N b)" and ?P' = "?P(?N b := ?P b)"
  have u: "seg ?N' ?P' NBUF (ys @ zs) NBUF" by (rule seg_unlink [OF sg d])
  have l: "seg (?N'(b := ?N' NBUF, NBUF := b)) (?P'(b := NBUF, ?N' NBUF := b)) NBUF (b # ys @ zs) NBUF"
    by (rule seg_link [OF u]) (use d in auto)
  have nb: "?N b = hd (zs @ [NBUF])" "?P b = last (NBUF # ys)"
    using sg seg_first [of ?N ?P b zs NBUF] seg_last [of ?N ?P NBUF ys b] by (simp_all add: seg_append)
  have ne: "?N b \<noteq> b" "?P b \<noteq> b" "b \<noteq> NBUF"
    using d nb by (cases zs; cases ys rule: rev_cases; auto)+
  have nh: "?N' NBUF \<noteq> b"
    using seg_first [OF u] d by (cases ys; cases zs) auto
  have "(\<lambda>c. b_next (relink b B c)) = ?N'(b := ?N' NBUF, NBUF := b)"
    using ne nh by (auto simp: relink_def Let_def fun_eq_iff)
  moreover have "(\<lambda>c. b_prev (relink b B c)) = ?P'(b := NBUF, ?N' NBUF := b)"
    using ne nh by (auto simp: relink_def Let_def fun_eq_iff)
  moreover have "remove1 b xs = ys @ zs" using d by (simp add: xs remove1_append)
  ultimately show ?thesis using l d assms by (auto simp: lru_def xs)
qed

lemma upd_buf_link:
  "upd_buf i (\<lambda>x. x\<lparr>b_next := v\<rparr>) s = s\<lparr>bufs := set_next i v (bufs s)\<rparr>"
  "upd_buf i (\<lambda>x. x\<lparr>b_prev := v\<rparr>) s = s\<lparr>bufs := set_prev i v (bufs s)\<rparr>"
  by (simp_all add: upd_buf_def set_next_def set_prev_def)

lemma bufs_bufs: "bufs (s\<lparr>bufs := B\<rparr>) = B" "s\<lparr>bufs := A, bufs := B\<rparr> = s\<lparr>bufs := B\<rparr>"
  by simp_all

lemma unlink_link: "link_first b (unlink_buf b s) = s\<lparr>bufs := relink b (bufs s)\<rparr>"
  by (simp only: Let_def link_first_def unlink_buf_def upd_buf_link relink_def bufs_bufs)

lemma upd_slock_simps [simp]:
  "bufs (upd_slock l f s) = bufs s" "slocks (upd_slock l f s) = (slocks s)(l := f (slocks s l))"
  "held (upd_slock l f s) = held s" "disk (upd_slock l f s) = disk s" "disk_writes (upd_slock l f s) = disk_writes s"
  "procs (upd_slock l f s) = procs s" "cpu_proc (upd_slock l f s) = cpu_proc s" "tp (upd_slock l f s) = tp s"
  "pqueue (upd_slock l f s) = pqueue s"
  by (simp_all add: upd_slock_def)

lemma make_ready_bio [simp]:
  "bufs (make_ready p s) = bufs s" "slocks (make_ready p s) = slocks s" "disk (make_ready p s) = disk s"
  "disk_writes (make_ready p s) = disk_writes s"
  by (simp_all add: make_ready_def upd_proc_def upd_queue_def)

lemma fold_make_ready_bio [simp]:
  "bufs (fold make_ready ps s) = bufs s" "slocks (fold make_ready ps s) = slocks s"
  "disk (fold make_ready ps s) = disk s" "disk_writes (fold make_ready ps s) = disk_writes s"
  by (induction ps arbitrary: s) simp_all

lemma fold_make_ready_held: "fold make_ready ps (s\<lparr>held := h\<rparr>) = (fold make_ready ps s)\<lparr>held := h\<rparr>"
  by (induction ps arbitrary: s) simp_all

lemma holdingsleep_eq:
  assumes "held s = {}" and "myproc s = Some p"
  shows "holdingsleep l s = Some (sl_locked (slocks s l) \<noteq> 0 \<and> sl_pid (slocks s l) = p_pid (procs s p), s)"
  using assms by (simp add: holdingsleep_def acq_def rel_def mypid_def myproc_def)

definition brelse_bufs :: "nat \<Rightarrow> (nat \<Rightarrow> buf) \<Rightarrow> nat \<Rightarrow> buf" where
  "brelse_bufs b B =
     (let B = B(b := (B b)\<lparr>b_refcnt := b_refcnt (B b) - 1\<rparr>) in if b_refcnt (B b) = 0 then relink b B else B)"

lemma brelse_eq:
  assumes "held s = {}" and "myproc s = Some p" and "sched_ok s"
    and "sl_locked (slocks s (BufLock b)) \<noteq> 0" and "sl_pid (slocks s (BufLock b)) = p_pid (procs s p)"
  shows "\<exists>ps. brelse b s = Some ((fold make_ready ps (upd_slock (BufLock b) (\<lambda>k. k\<lparr>sl_locked := 0, sl_pid := 0\<rparr>) s))
      \<lparr>bufs := brelse_bufs b (bufs s), held := {}\<rparr>) \<and> p \<notin> set ps \<and> set ps \<subseteq> {..<NPROC}"
proof -
  let ?s = "(upd_slock (BufLock b) (\<lambda>k. k\<lparr>sl_locked := 0, sl_pid := 0\<rparr>) s)\<lparr>held := {BufSleepLk b}\<rparr>"
  let ?W = "filter (wakes (ChanBufLock b) ?s) [0..<NPROC]"
  have ok: "sched_ok ?s" using assms(3) by (simp add: sched_ok_def)
  have w: "wakeup (ChanBufLock b) ?s = Some (fold make_ready ?W ?s)"
    by (rule wakeup_eq [OF ok]) (simp_all add: queues_free_def)
  have r: "releasesleep (BufLock b) s =
      Some ((fold make_ready ?W (upd_slock (BufLock b) (\<lambda>k. k\<lparr>sl_locked := 0, sl_pid := 0\<rparr>) s))\<lparr>held := {}\<rparr>)"
    using w assms(1) by (simp add: releasesleep_def acq_def rel_def upd_slock_def fold_make_ready_held)
  have "p \<notin> set ?W" using assms(2) by (simp add: wakes_def myproc_def)
  moreover have "brelse b s = Some ((fold make_ready ?W (upd_slock (BufLock b) (\<lambda>k. k\<lparr>sl_locked := 0, sl_pid := 0\<rparr>) s))
      \<lparr>bufs := brelse_bufs b (bufs s), held := {}\<rparr>)"
    using assms r holdingsleep_eq [OF assms(1,2), of "BufLock b"]
    by (simp add: brelse_def acq_def rel_def brelse_bufs_def unlink_link upd_buf_def Let_def)
  ultimately show ?thesis by (intro exI [of _ ?W]) auto
qed

section \<open>Changes of one buffer\<close>

text \<open>Changing one buffer \<open>b\<close> so that it holds block \<open>k\<close>, which it or no buffer held before.\<close>

definition same_buf :: "buf \<Rightarrow> buf \<Rightarrow> bool" where
  "same_buf x y \<longleftrightarrow> b_dev x = b_dev y \<and> b_blockno x = b_blockno y \<and> b_valid x = b_valid y
   \<and> b_data x = b_data y \<and> b_refcnt x = b_refcnt y"

definition one_change ::
    "uint_t \<Rightarrow> 'a bio_state_scheme \<Rightarrow> 'b bio_state_scheme \<Rightarrow> nat \<Rightarrow> buf \<Rightarrow> sleeplock \<Rightarrow> uint_t \<Rightarrow> bool" where
  "one_change d s t b x l k \<longleftrightarrow> binv d s \<and> b < NBUF
   \<and> (\<forall>c. same_buf (bufs t c) (if c = b then x else bufs s c)) \<and> disk t = disk s
   \<and> slocks t = (slocks s)(BufLock b := l) \<and> b_dev x = d \<and> b_blockno x = k
   \<and> (has s d k b \<or> b_refcnt (bufs s b) = 0 \<and> (\<forall>c. \<not> has s d k c)) \<and> (\<exists>xs. lru (bufs t) xs)
   \<and> (b_refcnt x = 0 \<longrightarrow> sl_locked l = 0 \<and> (b_valid x \<longrightarrow> b_data x = disk s k))"

lemma binvD:
  assumes "binv d s"
  shows "has s d k b \<Longrightarrow> has s d k c \<Longrightarrow> b = c"
    and "b < NBUF \<Longrightarrow> b_refcnt (bufs s b) = 0 \<Longrightarrow> sl_locked (slocks s (BufLock b)) = 0
      \<and> (b_dev (bufs s b) = d \<and> b_valid (bufs s b) \<longrightarrow> b_data (bufs s b) = disk s (b_blockno (bufs s b)))"
    and "b < NBUF \<Longrightarrow> b_refcnt (bufs s b) \<noteq> 0 \<Longrightarrow> b_dev (bufs s b) = d"
  using assms unfolding binv_def by blast+

lemma one_fields:
  assumes "one_change d s t b x l k"
  shows "same_buf (bufs t b) x" and "c \<noteq> b \<Longrightarrow> same_buf (bufs t c) (bufs s c)"
    and "has t d k' c \<longleftrightarrow> (if c = b then k' = k else has s d k' c)"
proof -
  have all: "same_buf (bufs t c) (if c = b then x else bufs s c)" for c
    using assms unfolding one_change_def by blast
  show f: "same_buf (bufs t b) x" using all [of b] by simp
  show g: "c \<noteq> b \<Longrightarrow> same_buf (bufs t c) (bufs s c)" for c using all [of c] by simp
  show "has t d k' c \<longleftrightarrow> (if c = b then k' = k else has s d k' c)"
    using f g [of c] assms by (auto simp: has_def same_buf_def one_change_def)
qed

lemma one_uniq:
  assumes "one_change d s t b x l k" and "has t d k' c" and "has t d k' c'"
  shows "c = c'"
proof -
  have u: "has s d k' c \<Longrightarrow> has s d k' c' \<Longrightarrow> c = c'" and before: "has s d k b \<or> (\<forall>c. \<not> has s d k c)"
    and ub: "has s d k b \<Longrightarrow> has s d k c'' \<Longrightarrow> b = c''" for c''
    using assms(1) binvD(1) [of d s] by (auto simp: one_change_def)
  have h: "if c = b then k' = k else has s d k' c" "if c' = b then k' = k else has s d k' c'"
    using assms(2,3) unfolding one_fields(3) [OF assms(1)] .
  show ?thesis
    using h u before ub [of c] ub [of c'] by (cases "c = b"; cases "c' = b") auto
qed

lemma one_inv:
  assumes "one_change d s t b x l k"
  shows "binv d t"
proof -
  have inv: "binv d s" using assms by (simp add: one_change_def)
  have "sl_locked (slocks t (BufLock c)) = 0
      \<and> (b_dev (bufs t c) = d \<and> b_valid (bufs t c) \<longrightarrow> b_data (bufs t c) = disk t (b_blockno (bufs t c)))"
    if "c < NBUF" "b_refcnt (bufs t c) = 0" for c
    using binvD(2) [OF inv, of c] one_fields(1) [OF assms] one_fields(2) [OF assms, of c] that assms
    by (cases "c = b") (auto simp: same_buf_def one_change_def)
  moreover have "b_dev (bufs t c) = d" if "c < NBUF" "b_refcnt (bufs t c) \<noteq> 0" for c
    using binvD(3) [OF inv, of c] one_fields(1) [OF assms] one_fields(2) [OF assms, of c] that assms
    by (cases "c = b") (auto simp: same_buf_def one_change_def)
  moreover have "\<exists>xs. lru (bufs t) xs" using assms by (simp add: one_change_def)
  ultimately show ?thesis unfolding binv_def using one_uniq [OF assms] by blast
qed

lemma one_other:
  assumes o: "one_change d s t b x l k" and "k' \<noteq> k"
  shows "view t d k' = view s d k' \<and> refs t d k' = refs s d k'"
proof -
  have inv: "binv d s" and b: "b < NBUF" and disk: "disk t = disk s"
    and before: "has s d k b \<or> b_refcnt (bufs s b) = 0"
    using o by (auto simp: one_change_def)
  consider (cached) c where "has t d k' c" | (was) "\<forall>c. \<not> has t d k' c" "has s d k' b"
    | (none) "\<forall>c. \<not> has t d k' c" "\<forall>c. \<not> has s d k' c"
  proof (cases "\<exists>c. has t d k' c")
    case False
    moreover have "\<not> has s d k' c" if "c \<noteq> b" for c
      using False one_fields(3) [OF o, of k' c] that by auto
    ultimately show thesis using was none by metis
  qed (blast intro: cached)
  then show ?thesis
  proof cases
    case cached
    then have c: "c \<noteq> b" "has s d k' c" using one_fields(3) [OF o, of k' c] assms(2) by (auto split: if_splits)
    then show ?thesis
      using view_has [OF one_inv [OF o] cached] view_has [OF inv c(2)] refs_has [OF one_inv [OF o] cached]
        refs_has [OF inv c(2)] one_fields(2) [OF o c(1)] disk by (simp add: same_buf_def)
  next
    case was
    then have r: "b_refcnt (bufs s b) = 0" using before assms(2) by (auto simp: has_def)
    with binvD(2) [OF inv b] was(2) have "b_valid (bufs s b) \<longrightarrow> b_data (bufs s b) = disk s k'"
      by (auto simp: has_def)
    then show ?thesis
      using view_has [OF inv was(2)] refs_has [OF inv was(2)] not_cached [of t d k'] was(1) r disk by simp
  next
    case none
    then show ?thesis using not_cached [of t d k'] not_cached [of s d k'] disk by simp
  qed
qed

lemma one_view:
  assumes o: "one_change d s t b x l k"
  shows "view t d = (view s d)(k := if b_valid x then b_data x else disk s k)"
    and "refs t d = (refs s d)(k := unat (b_refcnt x))"
proof -
  have "has t d k b" by (simp add: one_fields(3) [OF o])
  note h = view_has [OF one_inv [OF o] this] refs_has [OF one_inv [OF o] this]
  show "view t d = (view s d)(k := if b_valid x then b_data x else disk s k)"
    "refs t d = (refs s d)(k := unat (b_refcnt x))"
    using h one_fields(1) [OF o] one_other [OF o] o by (auto simp: fun_eq_iff same_buf_def one_change_def)
qed

lemma one_locked:
  assumes o: "one_change d s t b x l k"
  shows "locked t d = (if sl_locked l \<noteq> 0 then insert k (locked s d) else locked s d - {k})"
proof -
  have sl: "slocks t = (slocks s)(BufLock b := l)" and inv: "binv d s" and b: "b < NBUF"
    and before: "has s d k b \<or> b_refcnt (bufs s b) = 0"
    using o by (auto simp: one_change_def)
  have old: "(\<exists>c. c \<noteq> b \<and> has s d k' c \<and> sl_locked (slocks s (BufLock c)) \<noteq> 0) \<longleftrightarrow> k' \<in> locked s d \<and> k' \<noteq> k" for k'
  proof
    assume "\<exists>c. c \<noteq> b \<and> has s d k' c \<and> sl_locked (slocks s (BufLock c)) \<noteq> 0"
    then obtain c where c: "c \<noteq> b" "has s d k' c" "sl_locked (slocks s (BufLock c)) \<noteq> 0" by blast
    then have "has t d k' c" "has t d k b" by (simp_all add: one_fields(3) [OF o])
    then have "k' \<noteq> k" using one_uniq [OF o, of k c b] c(1) by blast
    with c show "k' \<in> locked s d \<and> k' \<noteq> k" by (auto simp: locked_def)
  next
    assume "k' \<in> locked s d \<and> k' \<noteq> k"
    then obtain c where c: "has s d k' c" "sl_locked (slocks s (BufLock c)) \<noteq> 0" "k' \<noteq> k" by (auto simp: locked_def)
    moreover have "c \<noteq> b"
    proof
      assume "c = b"
      then have "b_refcnt (bufs s b) = 0" using before c(1,3) by (auto simp: has_def)
      then show False using binvD(2) [OF inv b] c(2) \<open>c = b\<close> by simp
    qed
    ultimately show "\<exists>c. c \<noteq> b \<and> has s d k' c \<and> sl_locked (slocks s (BufLock c)) \<noteq> 0" by blast
  qed
  have "k' \<in> locked t d \<longleftrightarrow> (k' = k \<and> sl_locked l \<noteq> 0)
      \<or> (\<exists>c. c \<noteq> b \<and> has s d k' c \<and> sl_locked (slocks s (BufLock c)) \<noteq> 0)" for k'
    unfolding locked_def mem_Collect_eq one_fields(3) [OF o] sl by auto
  then have "k' \<in> locked t d \<longleftrightarrow> (k' = k \<and> sl_locked l \<noteq> 0) \<or> (k' \<in> locked s d \<and> k' \<noteq> k)" for k'
    unfolding old by blast
  then show ?thesis by auto
qed

lemma one_update:
  assumes "binv d s" and "b < NBUF" and "\<And>c. same_buf (bufs t c) (if c = b then x else bufs s c)"
    and "disk t = disk s" and "slocks t = (slocks s)(BufLock b := l)"
    and "b_dev x = d" "b_blockno x = k"
    and "has s d k b \<or> b_refcnt (bufs s b) = 0 \<and> (\<forall>c. \<not> has s d k c)"
    and "\<exists>xs. lru (bufs t) xs"
    and "b_refcnt x = 0 \<Longrightarrow> sl_locked l = 0 \<and> (b_valid x \<longrightarrow> b_data x = disk s k)"
  shows "binv d t"
    and "view t d = (view s d)(k := if b_valid x then b_data x else disk s k)"
    and "refs t d = (refs s d)(k := unat (b_refcnt x))"
    and "locked t d = (if sl_locked l \<noteq> 0 then insert k (locked s d) else locked s d - {k})"
    and "\<And>k' c. has t d k' c \<longleftrightarrow> (if c = b then k' = k else has s d k' c)"
proof -
  have "\<forall>c. same_buf (bufs t c) (if c = b then x else bufs s c)"
    "b_refcnt x = 0 \<longrightarrow> sl_locked l = 0 \<and> (b_valid x \<longrightarrow> b_data x = disk s k)"
    using assms(3,10) by blast+
  with assms(1,2,4-9) have o: "one_change d s t b x l k" unfolding one_change_def by blast
  show "binv d t" by (rule one_inv [OF o])
  show "view t d = (view s d)(k := if b_valid x then b_data x else disk s k)"
    "refs t d = (refs s d)(k := unat (b_refcnt x))" by (rule one_view [OF o])+
  show "locked t d = (if sl_locked l \<noteq> 0 then insert k (locked s d) else locked s d - {k})"
    by (rule one_locked [OF o])
  show "\<And>k' c. has t d k' c \<longleftrightarrow> (if c = b then k' = k else has s d k' c)" by (rule one_fields(3) [OF o])
qed

end
