(* ===== verification/Log.thy ===== *)
theory Log
  imports Bio
begin

text \<open>
  The write-ahead log (\<^verbatim>\<open>kernel/log.c\<close>).  The in-memory log header is part of the state; the
  on-disk header is the block at \<open>lg_start\<close>, read and written as bytes.  \<open>begin_op\<close> does not
  return where the code goes to sleep (a commit is running or the log is short of space).
\<close>

section \<open>Integers in a block\<close>

definition get16 :: "block \<Rightarrow> nat \<Rightarrow> uint16" where
  "get16 d i = ucast (d ! i) OR push_bit 8 (ucast (d ! (i + 1)))"

definition get32 :: "block \<Rightarrow> nat \<Rightarrow> uint32" where
  "get32 d i = ucast (d ! i) OR push_bit 8 (ucast (d ! (i + 1)))
     OR push_bit 16 (ucast (d ! (i + 2))) OR push_bit 24 (ucast (d ! (i + 3)))"

definition put16 :: "nat \<Rightarrow> uint16 \<Rightarrow> block \<Rightarrow> block" where
  "put16 i v d = d[i := ucast v, i + 1 := ucast (drop_bit 8 v)]"

definition put32 :: "nat \<Rightarrow> uint32 \<Rightarrow> block \<Rightarrow> block" where
  "put32 i v d = d[i := ucast v, i + 1 := ucast (drop_bit 8 v),
     i + 2 := ucast (drop_bit 16 v), i + 3 := ucast (drop_bit 24 v)]"

section \<open>State\<close>

record log =
  lg_start :: uint_t
  lg_outstanding :: int
  lg_committing :: bool
  lg_dev :: uint_t
  lg_n :: int
  lg_block :: "nat \<Rightarrow> uint_t"

record superblock =
  sb_magic :: uint_t
  sb_size :: uint_t
  sb_nblocks :: uint_t
  sb_ninodes :: uint_t
  sb_nlog :: uint_t
  sb_logstart :: uint_t
  sb_inodestart :: uint_t
  sb_bmapstart :: uint_t

record log_state = bio_state +
  lg :: log

definition upd_log :: "(log \<Rightarrow> log) \<Rightarrow> 'a log_state_scheme \<Rightarrow> 'a log_state_scheme" where
  "upd_log f s = s\<lparr>lg := f (lg s)\<rparr>"

section \<open>Header and log blocks\<close>

definition read_head :: "'a log_state_scheme \<Rightarrow> 'a log_state_scheme option" where
  "read_head s = do {
     (b, s) \<leftarrow> bread (lg_dev (lg s)) (lg_start (lg s)) s;
     let d = b_data (bufs s b);
     let s = upd_log (\<lambda>l. l\<lparr>lg_n := sint (get32 d 0)\<rparr>) s;
     s \<leftarrow> for_each (\<lambda>i s. do {
            check (i < LOGBLOCKS);
            Some (upd_log (\<lambda>l. l\<lparr>lg_block := (lg_block l)(i := get32 d (4 + 4 * i))\<rparr>) s) })
          [0..<nat (lg_n (lg s))] s;
     brelse b s
   }"

definition write_head :: "'a log_state_scheme \<Rightarrow> 'a log_state_scheme option" where
  "write_head s = do {
     (b, s) \<leftarrow> bread (lg_dev (lg s)) (lg_start (lg s)) s;
     let s = upd_buf b (\<lambda>x. x\<lparr>b_data := put32 0 (of_int (lg_n (lg s))) (b_data x)\<rparr>) s;
     s \<leftarrow> for_each (\<lambda>i s. do {
            check (i < LOGBLOCKS);
            Some (upd_buf b (\<lambda>x. x\<lparr>b_data := put32 (4 + 4 * i) (lg_block (lg s) i) (b_data x)\<rparr>) s) })
          [0..<nat (lg_n (lg s))] s;
     s \<leftarrow> bwrite b s;
     brelse b s
   }"

definition install_block :: "bool \<Rightarrow> nat \<Rightarrow> 'a log_state_scheme \<Rightarrow> 'a log_state_scheme option" where
  "install_block recovering tail s = do {
     check (tail < LOGBLOCKS);
     (lbuf, s) \<leftarrow> bread (lg_dev (lg s)) (lg_start (lg s) + of_nat tail + 1) s;
     (dbuf, s) \<leftarrow> bread (lg_dev (lg s)) (lg_block (lg s) tail) s;
     let s = upd_buf dbuf (\<lambda>x. x\<lparr>b_data := b_data (bufs s lbuf)\<rparr>) s;
     s \<leftarrow> bwrite dbuf s;
     s \<leftarrow> (if \<not> recovering then bunpin dbuf s else Some s);
     s \<leftarrow> brelse lbuf s;
     brelse dbuf s
   }"

definition install_trans :: "bool \<Rightarrow> 'a log_state_scheme \<Rightarrow> 'a log_state_scheme option" where
  "install_trans recovering s =
     for_each (install_block recovering) [0..<nat (lg_n (lg s))] s"

definition recover_from_log :: "'a log_state_scheme \<Rightarrow> 'a log_state_scheme option" where
  "recover_from_log s = do {
     s \<leftarrow> read_head s;
     s \<leftarrow> install_trans True s;
     let s = upd_log (\<lambda>l. l\<lparr>lg_n := 0\<rparr>) s;
     write_head s
   }"

definition initlog :: "uint_t \<Rightarrow> superblock \<Rightarrow> 'a log_state_scheme \<Rightarrow> 'a log_state_scheme option" where
  "initlog dev sb s =
     (if 4 + 4 * LOGBLOCKS \<ge> BSIZE then panic ''initlog: too big logheader''
      else recover_from_log (upd_log (\<lambda>l. l\<lparr>lg_start := sb_logstart sb, lg_dev := dev\<rparr>) s))"

section \<open>Transactions\<close>

definition begin_op :: "'a log_state_scheme \<Rightarrow> 'a log_state_scheme option" where
  "begin_op s = do {
     s \<leftarrow> acq LogLock s;
     check (\<not> lg_committing (lg s));
     check (\<not> lg_n (lg s) + (lg_outstanding (lg s) + 1) * int MAXOPBLOCKS > int LOGBLOCKS);
     let s = upd_log (\<lambda>l. l\<lparr>lg_outstanding := lg_outstanding l + 1\<rparr>) s;
     rel LogLock s
   }"

definition write_log_block :: "nat \<Rightarrow> 'a log_state_scheme \<Rightarrow> 'a log_state_scheme option" where
  "write_log_block tail s = do {
     check (tail < LOGBLOCKS);
     (to, s) \<leftarrow> bread (lg_dev (lg s)) (lg_start (lg s) + of_nat tail + 1) s;
     (from, s) \<leftarrow> bread (lg_dev (lg s)) (lg_block (lg s) tail) s;
     let s = upd_buf to (\<lambda>x. x\<lparr>b_data := b_data (bufs s from)\<rparr>) s;
     s \<leftarrow> bwrite to s;
     s \<leftarrow> brelse from s;
     brelse to s
   }"

definition write_log :: "'a log_state_scheme \<Rightarrow> 'a log_state_scheme option" where
  "write_log s = for_each write_log_block [0..<nat (lg_n (lg s))] s"

definition commit :: "'a log_state_scheme \<Rightarrow> 'a log_state_scheme option" where
  "commit s =
     (if lg_n (lg s) > 0
      then do {
        s \<leftarrow> write_log s;
        s \<leftarrow> write_head s;
        s \<leftarrow> install_trans False s;
        let s = upd_log (\<lambda>l. l\<lparr>lg_n := 0\<rparr>) s;
        write_head s }
      else Some s)"

definition end_op :: "'a log_state_scheme \<Rightarrow> 'a log_state_scheme option" where
  "end_op s = do {
     s \<leftarrow> acq LogLock s;
     let s = upd_log (\<lambda>l. l\<lparr>lg_outstanding := lg_outstanding l - 1\<rparr>) s;
     if lg_committing (lg s) then panic ''log.committing''
     else if lg_outstanding (lg s) = 0
     then do {
       let s = upd_log (\<lambda>l. l\<lparr>lg_committing := True\<rparr>) s;
       s \<leftarrow> rel LogLock s;
       s \<leftarrow> commit s;
       s \<leftarrow> acq LogLock s;
       let s = upd_log (\<lambda>l. l\<lparr>lg_committing := False\<rparr>) s;
       s \<leftarrow> wakeup ChanLog s;
       rel LogLock s }
     else do {
       s \<leftarrow> wakeup ChanLog s;
       rel LogLock s }
   }"

text \<open>The slot of a block in the log: where it is already logged (absorption), or the next one.\<close>

definition log_slot :: "uint_t \<Rightarrow> log \<Rightarrow> nat" where
  "log_slot blockno l =
     (case find (\<lambda>i. lg_block l i = blockno) [0..<nat (lg_n l)] of
        Some i \<Rightarrow> i | None \<Rightarrow> nat (lg_n l))"

definition log_write :: "nat \<Rightarrow> 'a log_state_scheme \<Rightarrow> 'a log_state_scheme option" where
  "log_write b s = do {
     s \<leftarrow> acq LogLock s;
     if lg_n (lg s) \<ge> int LOGBLOCKS then panic ''too big a transaction''
     else if lg_outstanding (lg s) < 1 then panic ''log_write outside of trans''
     else do {
       let i = log_slot (b_blockno (bufs s b)) (lg s);
       let s = upd_log (\<lambda>l. l\<lparr>lg_block := (lg_block l)(i := b_blockno (bufs s b))\<rparr>) s;
       s \<leftarrow> (if int i = lg_n (lg s)
            then do { s \<leftarrow> bpin b s; Some (upd_log (\<lambda>l. l\<lparr>lg_n := lg_n l + 1\<rparr>) s) }
            else Some s);
       rel LogLock s }
   }"

section \<open>Records in blocks\<close>

lemma length_put [simp]: "length (put16 i v d) = length d" "length (put32 i w d) = length d"
  by (simp_all add: put16_def put32_def)

lemma bit_ucast_8: "bit (ucast (w :: 'a::len word) :: uint8) n \<longleftrightarrow> n < 8 \<and> bit w n"
  by (simp add: bit_ucast_iff) 

lemma get16_put16: "i + 1 < length d \<Longrightarrow> get16 (put16 i v d) i = v"
  by (rule bit_word_eqI) (auto simp: get16_def put16_def bit_simps)

lemma get32_put32: "i + 3 < length d \<Longrightarrow> get32 (put32 i v d) i = v"
proof (rule bit_word_eqI)
  fix n assume *: "i + 3 < length d" "n < LENGTH(32)"
  then consider "n < 8" | "8 \<le> n" "n < 16" | "16 \<le> n" "n < 24" | "24 \<le> n" "n < 32" by fastforce
  then show "bit (get32 (put32 i v d) i) n \<longleftrightarrow> bit v n"
    by cases (use *(1) in \<open>auto simp: get32_def put32_def bit_simps\<close>)
qed

lemma get16_put16_other: "j + 1 < i \<or> i + 1 < j \<Longrightarrow> get16 (put16 i v d) j = get16 d j"
  by (auto simp: get16_def put16_def)

lemma get16_put32_other: "j + 1 < i \<or> i + 3 < j \<Longrightarrow> get16 (put32 i v d) j = get16 d j"
  by (auto simp: get16_def put32_def)

lemma get32_put16_other: "j + 3 < i \<or> i + 1 < j \<Longrightarrow> get32 (put16 i v d) j = get32 d j"
  by (auto simp: get32_def put16_def)

lemma get32_put32_other: "j + 3 < i \<or> i + 3 < j \<Longrightarrow> get32 (put32 i v d) j = get32 d j"
  by (auto simp: get32_def put32_def)

section \<open>The cache as an abstract block store\<close>

text \<open>What the file system sees of the cache: the contents of every block, how often it is in use, which
  blocks are locked, and the disk behind it; and the in-memory log.\<close>

record store =
  a_view :: "uint_t \<Rightarrow> block"
  a_refs :: "uint_t \<Rightarrow> nat"
  a_locked :: "uint_t set"
  a_disk :: "uint_t \<Rightarrow> block"
  a_trace :: "(uint_t \<times> block) list"
  a_log :: log

definition sim :: "uint_t \<Rightarrow> nat \<Rightarrow> 'a log_state_scheme \<Rightarrow> store \<Rightarrow> bool" where
  "sim d p s A \<longleftrightarrow> held s = {} \<and> sched_ok s \<and> myproc s = Some p \<and> binv d s
   \<and> view s d = a_view A \<and> refs s d = a_refs A \<and> locked s d = a_locked A
   \<and> disk s = a_disk A \<and> disk_writes s = a_trace A \<and> lg s = a_log A"

definition mine :: "uint_t \<Rightarrow> nat \<Rightarrow> 'a log_state_scheme \<Rightarrow> uint_t \<Rightarrow> nat \<Rightarrow> bool" where
  "mine d p s k b \<longleftrightarrow> has s d k b \<and> b_valid (bufs s b) \<and> b_refcnt (bufs s b) \<noteq> 0
   \<and> sl_locked (slocks s (BufLock b)) \<noteq> 0 \<and> sl_pid (slocks s (BufLock b)) = p_pid (procs s p)"

lemma sim_clean: "sim d p s A \<Longrightarrow> a_refs A k = 0 \<Longrightarrow> a_view A k = a_disk A k"
proof -
  assume s: "sim d p s A" and r: "a_refs A k = 0"
  have inv: "binv d s" and e: "refs s d k = 0" "a_view A k = view s d k" "a_disk A k = disk s k"
    using s r by (auto simp: sim_def)
  show ?thesis
  proof (cases "\<exists>b. has s d k b")
    case True
    then obtain b where b: "has s d k b" by blast
    have "b_refcnt (bufs s b) = 0" using refs_has [OF inv b] e(1) by (simp add: unat_eq_0)
    then have "b_valid (bufs s b) \<longrightarrow> b_data (bufs s b) = disk s k"
      using inv b by (auto simp: binv_def has_def)
    then show ?thesis using view_has [OF inv b] e by simp
  next
    case False
    then show ?thesis using not_cached [of s d k] e by simp
  qed
qed

text \<open>\<open>bread\<close> returns the contents of the block, locked; no other block is affected.\<close>

lemma bread_sim:
  assumes "sim d p s A" and "k \<notin> a_locked A" and "0 < a_refs A k \<or> card {k. 0 < a_refs A k} < NBUF"
    and "a_refs A k + 1 < 2 ^ 32"
  shows "runs (bread d k s) (\<lambda>(b, t).
     sim d p t (A\<lparr>a_refs := (a_refs A)(k := a_refs A k + 1), a_locked := insert k (a_locked A)\<rparr>)
   \<and> mine d p t k b \<and> b_data (bufs t b) = a_view A k \<and> (\<forall>k' b'. mine d p s k' b' \<longrightarrow> mine d p t k' b'))"
proof -
  have s: "held s = {}" "sched_ok s" "myproc s = Some p" "binv d s" "view s d = a_view A" "refs s d = a_refs A"
      "locked s d = a_locked A" "disk s = a_disk A" "disk_writes s = a_trace A" "lg s = a_log A"
    using assms(1) by (simp_all add: sim_def)
  have av: "(\<exists>b. has s d k b) \<or> (\<exists>b < NBUF. b_refcnt (bufs s b) = 0)"
    using assms(3) refs_pos [OF s(4), of k] free_buffer [OF s(4)] s(6) by auto
  obtain b where b: "bread d k s = Some (b, upd_slock (BufLock b) (\<lambda>l. l\<lparr>sl_locked := 1, sl_pid := p_pid (procs s p)\<rparr>)
      (upd_buf b (\<lambda>_. bread_buf s d k b) s))" "b < NBUF" "sl_locked (slocks s (BufLock b)) = 0"
      "has s d k b \<or> b_refcnt (bufs s b) = 0 \<and> (\<forall>c. \<not> has s d k c)"
    using bread_eq [OF s(1,3,4) _ av] assms(2) s(7) by auto
  let ?x = "bread_buf s d k b" and ?l = "(slocks s (BufLock b))\<lparr>sl_locked := 1, sl_pid := p_pid (procs s p)\<rparr>"
  let ?t = "upd_slock (BufLock b) (\<lambda>l. l\<lparr>sl_locked := 1, sl_pid := p_pid (procs s p)\<rparr>) (upd_buf b (\<lambda>_. ?x) s)"
  have r: "refs s d k = (if has s d k b then unat (b_refcnt (bufs s b)) else 0)"
    using refs_has [OF s(4), of k b] not_cached [of s d k] b(4) by auto
  have x: "b_dev ?x = d" "b_blockno ?x = k" "b_valid ?x" "unat (b_refcnt ?x) = a_refs A k + 1"
      "b_next ?x = b_next (bufs s b)" "b_prev ?x = b_prev (bufs s b)" "b_data ?x = view s d k"
    using r assms(4) s(6) not_cached [of s d k] b(4)
    by (auto simp: bread_buf_def has_def unat_word_ariths)
  then have rx: "b_refcnt ?x \<noteq> 0" by (metis add_is_0 unat_0 zero_neq_one)
  obtain xs where "lru (bufs s) xs" using s(4) by (auto simp: binv_def)
  moreover have "lru (bufs ?t) xs = lru (bufs s) xs" by (rule lru_cong) (simp add: x(5,6))
  ultimately have lru: "\<exists>xs. lru (bufs ?t) xs" by blast
  have pre: "\<And>c. same_buf (bufs ?t c) (if c = b then ?x else bufs s c)" "disk ?t = disk s"
      "slocks ?t = (slocks s)(BufLock b := ?l)"
    by (simp_all add: same_buf_def)
  note u = one_update [OF s(4) b(2) pre x(1,2) b(4) lru]
  have t: "sim d p ?t (A\<lparr>a_refs := (a_refs A)(k := a_refs A k + 1), a_locked := insert k (a_locked A)\<rparr>)"
  proof -
    have "view ?t d = a_view A" using u(2) rx x(3,7) s(5) by (auto simp: fun_eq_iff)
    moreover have "lg ?t = lg s" by (simp add: upd_slock_def upd_buf_def)
    ultimately show ?thesis
      using u(1,3,4) rx s x(4) unfolding sim_def
      by (simp add: myproc_def sched_ok_def)
  qed
  have m: "mine d p ?t k b" using u(5) [of k b] rx x(3) by (simp add: mine_def)
  have old: "mine d p ?t k' b'" if "mine d p s k' b'" for k' b'
  proof -
    have "b' \<noteq> b" using that b(3) by (auto simp: mine_def)
    then show ?thesis using that u(5) [of k' b'] rx by (simp add: mine_def)
  qed
  show ?thesis using b(1) t m old x(7) s(5) by simp
qed

lemma mine_data: "sim d p s A \<Longrightarrow> mine d p s k b \<Longrightarrow> b_data (bufs s b) = a_view A k"
  using view_has [of d s k b] by (auto simp: sim_def mine_def)

lemma mine_refs: "sim d p s A \<Longrightarrow> mine d p s k b \<Longrightarrow> unat (b_refcnt (bufs s b)) = a_refs A k"
  using refs_has [of d s k b] by (auto simp: sim_def mine_def)

lemma mine_block: "mine d p s k b \<Longrightarrow> b < NBUF \<and> b_dev (bufs s b) = d \<and> b_blockno (bufs s b) = k"
  by (simp add: mine_def has_def)

lemma upd_buf_log [simp]: "lg (upd_buf b f s) = lg s" "lg (upd_slock l g s) = lg s"
  by (simp_all add: upd_buf_def upd_slock_def)

lemma fold_make_ready_log [simp]: "lg (fold make_ready ps s) = lg s"
  by (induction ps arbitrary: s) (simp_all add: make_ready_def upd_proc_def upd_queue_def)

text \<open>An update of the data or the count of a buffer that stays in use.\<close>

lemma upd_sim:
  assumes s: "sim d p s A" and m: "mine d p s k b" and x: "b_dev (f (bufs s b)) = d" "b_blockno (f (bufs s b)) = k"
      "b_valid (f (bufs s b))" "b_refcnt (f (bufs s b)) \<noteq> 0" "b_next (f (bufs s b)) = b_next (bufs s b)"
      "b_prev (f (bufs s b)) = b_prev (bufs s b)"
  shows "sim d p (upd_buf b f s) (A\<lparr>a_view := (a_view A)(k := b_data (f (bufs s b))),
      a_refs := (a_refs A)(k := unat (b_refcnt (f (bufs s b))))\<rparr>)"
    and "mine d p s k' b' \<Longrightarrow> mine d p (upd_buf b f s) k' b'"
proof -
  let ?t = "upd_buf b f s" and ?x = "f (bufs s b)"
  have inv: "binv d s" and b: "b < NBUF" and h: "has s d k b"
    using s m by (auto simp: sim_def mine_def has_def)
  obtain xs where "lru (bufs s) xs" using inv by (auto simp: binv_def)
  moreover have "lru (bufs ?t) xs = lru (bufs s) xs" by (rule lru_cong) (simp add: x)
  ultimately have lru: "\<exists>xs. lru (bufs ?t) xs" by blast
  have pre: "\<And>c. same_buf (bufs ?t c) (if c = b then ?x else bufs s c)" "disk ?t = disk s"
      "slocks ?t = (slocks s)(BufLock b := slocks s (BufLock b))"
    by (simp_all add: same_buf_def)
  note u = one_update [OF inv b pre x(1,2) disjI1 [OF h] lru]
  have l: "insert k (a_locked A) = a_locked A"
    using s m by (auto simp: sim_def mine_def locked_def)
  show "sim d p ?t (A\<lparr>a_view := (a_view A)(k := b_data ?x), a_refs := (a_refs A)(k := unat (b_refcnt ?x))\<rparr>)"
    using u(1-4) x(3,4) s m l unfolding sim_def by (simp add: mine_def myproc_def sched_ok_def)
  show "mine d p s k' b' \<Longrightarrow> mine d p ?t k' b'"
    using u(5) [of k' b'] x m by (auto simp: mine_def has_def split: if_splits)
qed

lemma set_data_sim:
  assumes "sim d p s A" and "mine d p s k b"
  shows "sim d p (upd_buf b (\<lambda>x. x\<lparr>b_data := g x\<rparr>) s) (A\<lparr>a_view := (a_view A)(k := g (bufs s b))\<rparr>)"
    and "mine d p s k' b' \<Longrightarrow> mine d p (upd_buf b (\<lambda>x. x\<lparr>b_data := g x\<rparr>) s) k' b'"
proof -
  have x: "b_dev ((bufs s b)\<lparr>b_data := g (bufs s b)\<rparr>) = d" "b_blockno ((bufs s b)\<lparr>b_data := g (bufs s b)\<rparr>) = k"
      "b_valid ((bufs s b)\<lparr>b_data := g (bufs s b)\<rparr>)" "b_refcnt ((bufs s b)\<lparr>b_data := g (bufs s b)\<rparr>) \<noteq> 0"
    using assms(2) by (auto simp: mine_def has_def)
  note u = upd_sim [OF assms, of "\<lambda>x. x\<lparr>b_data := g x\<rparr>", OF x]
  show "sim d p (upd_buf b (\<lambda>x. x\<lparr>b_data := g x\<rparr>) s) (A\<lparr>a_view := (a_view A)(k := g (bufs s b))\<rparr>)"
    using u(1) mine_refs [OF assms] by simp
  show "mine d p s k' b' \<Longrightarrow> mine d p (upd_buf b (\<lambda>x. x\<lparr>b_data := g x\<rparr>) s) k' b'"
    using u(2) by simp
qed

lemma bunpin_sim:
  assumes "sim d p s A" and "mine d p s k b" and "2 \<le> a_refs A k"
  shows "runs (bunpin b s) (\<lambda>t. sim d p t (A\<lparr>a_refs := (a_refs A)(k := a_refs A k - 1)\<rparr>)
    \<and> (\<forall>k' b'. mine d p s k' b' \<longrightarrow> mine d p t k' b'))"
proof -
  have e: "bunpin b s = Some (upd_buf b (\<lambda>x. x\<lparr>b_refcnt := b_refcnt x - 1\<rparr>) s)"
    using assms(1) by (simp add: sim_def bunpin_def acq_def rel_def upd_buf_def)
  have r: "unat (b_refcnt (bufs s b) - 1) = a_refs A k - 1"
    using mine_refs [OF assms(1,2)] assms(3) by (metis one_le_numeral order_trans unat_1 unat_sub word_le_nat_alt)
  then have nz: "b_refcnt (bufs s b) - 1 \<noteq> 0" using assms(3) by auto
  note u = upd_sim [OF assms(1,2), of "\<lambda>x. x\<lparr>b_refcnt := b_refcnt x - 1\<rparr>"]
  have same: "(a_view A)(k := b_data (bufs s b)) = a_view A" using mine_data [OF assms(1,2)] by auto
  have "sim d p (upd_buf b (\<lambda>x. x\<lparr>b_refcnt := b_refcnt x - 1\<rparr>) s) (A\<lparr>a_refs := (a_refs A)(k := a_refs A k - 1)\<rparr>)"
    using u(1) r nz assms(2) same by (simp add: mine_def has_def)
  then show ?thesis using e u(2) nz assms(2) by (simp add: mine_def has_def)
qed

lemma bwrite_sim:
  assumes s: "sim d p s A" and m: "mine d p s k b"
  shows "runs (bwrite b s) (\<lambda>t. sim d p t (A\<lparr>a_disk := (a_disk A)(k := a_view A k), a_trace := a_trace A @ [(k, a_view A k)]\<rparr>)
    \<and> (\<forall>k' b'. mine d p s k' b' \<longrightarrow> mine d p t k' b'))"
proof -
  let ?v = "a_view A k"
  let ?t = "s\<lparr>disk := (disk s)(k := ?v), disk_writes := disk_writes s @ [(k, ?v)]\<rparr>"
  have inv: "binv d s" and h: "has s d k b" using s m by (auto simp: sim_def mine_def)
  have e: "bwrite b s = Some ?t"
    using s m holdingsleep_eq [of s p "BufLock b"] mine_data [OF s m] mine_block [OF m]
    by (simp add: sim_def mine_def bwrite_def virtio_disk_rw_def)
  have ht: "has ?t d k' c = has s d k' c" for k' c by (simp add: has_def)
  have apart: "b_blockno (bufs s c) \<noteq> k" if "c < NBUF" "b_refcnt (bufs s c) = 0" "b_dev (bufs s c) = d" for c
  proof
    assume "b_blockno (bufs s c) = k"
    then have "has s d k c" using that by (simp add: has_def)
    then have "c = b" using inv h unfolding binv_def by blast
    then show False using that m by (simp add: mine_def)
  qed
  have "binv d ?t" using inv apart unfolding binv_def ht by auto
  moreover have "view ?t d = view s d"
  proof
    fix k' show "view ?t d k' = view s d k'"
      using view_has [OF inv h] m mine_data [OF s m]
      by (cases "k' = k") (auto simp: view_def cached_at_def mine_def split: option.splits)
  qed
  moreover have "refs ?t d = refs s d" "locked ?t d = locked s d"
    by (auto simp: refs_def cached_at_def locked_def has_def fun_eq_iff split: option.splits)
  ultimately have "sim d p ?t (A\<lparr>a_disk := (a_disk A)(k := ?v), a_trace := a_trace A @ [(k, ?v)]\<rparr>)"
    using s unfolding sim_def by (simp add: myproc_def sched_ok_def)
  moreover have "mine d p ?t k' b' = mine d p s k' b'" for k' b' by (simp add: mine_def ht)
  ultimately show ?thesis using e by simp
qed

text \<open>Releasing a buffer: the block stays readable unless its last user leaves it dirty.\<close>

lemma brelse_lru:
  assumes "lru B xs" and "b < NBUF"
  shows "\<exists>xs. lru (brelse_bufs b B) xs"
proof -
  let ?B = "B(b := (B b)\<lparr>b_refcnt := b_refcnt (B b) - 1\<rparr>)"
  have l: "lru ?B xs = lru B xs" by (rule lru_cong) auto
  show ?thesis
    using l assms relink_lru [of ?B xs b] by (auto simp: brelse_bufs_def Let_def)
qed

lemma brelse_sim:
  assumes s: "sim d p s A" and m: "mine d p s k b" and r: "2 \<le> a_refs A k \<or> a_view A k = a_disk A k"
  shows "runs (brelse b s) (\<lambda>t. sim d p t (A\<lparr>a_refs := (a_refs A)(k := a_refs A k - 1), a_locked := a_locked A - {k}\<rparr>)
    \<and> (\<forall>k' b'. mine d p s k' b' \<and> k' \<noteq> k \<longrightarrow> mine d p t k' b'))"
proof -
  have inv: "binv d s" and h: "has s d k b" and b: "b < NBUF"
    and p: "held s = {}" "myproc s = Some p" "sched_ok s"
      "sl_locked (slocks s (BufLock b)) \<noteq> 0" "sl_pid (slocks s (BufLock b)) = p_pid (procs s p)"
    using s m by (auto simp: sim_def mine_def has_def)
  let ?u = "upd_slock (BufLock b) (\<lambda>k. k\<lparr>sl_locked := 0, sl_pid := 0\<rparr>) s"
  let ?x = "(bufs s b)\<lparr>b_refcnt := b_refcnt (bufs s b) - 1\<rparr>"
  obtain ps where ps: "brelse b s = Some ((fold make_ready ps ?u)\<lparr>bufs := brelse_bufs b (bufs s), held := {}\<rparr>)"
      "p \<notin> set ps" "set ps \<subseteq> {..<NPROC}"
    using brelse_eq [OF p] by blast
  let ?t = "(fold make_ready ps ?u)\<lparr>bufs := brelse_bufs b (bufs s), held := {}\<rparr>"
  obtain xs where "lru (bufs s) xs" using inv by (auto simp: binv_def)
  then have lru: "\<exists>xs. lru (bufs ?t) xs" using brelse_lru b by simp
  have pre: "\<And>c. same_buf (bufs ?t c) (if c = b then ?x else bufs s c)" "disk ?t = disk s"
      "slocks ?t = (slocks s)(BufLock b := (slocks s (BufLock b))\<lparr>sl_locked := 0, sl_pid := 0\<rparr>)"
    by (simp_all add: same_buf_def brelse_bufs_def Let_def)
  have x: "b_dev ?x = d" "b_blockno ?x = k" "b_valid ?x" "b_data ?x = a_view A k"
    using m mine_data [OF s m] by (simp_all add: mine_def has_def)
  have rx: "unat (b_refcnt ?x) = a_refs A k - 1"
    using mine_refs [OF s m] m by (simp add: mine_def unat_minus_one)
  then have free: "b_refcnt ?x = 0 \<Longrightarrow> a_view A k = disk s k"
    using r s by (auto simp: sim_def)
  have fr: "b_refcnt ?x = 0 \<Longrightarrow> sl_locked ((slocks s (BufLock b))\<lparr>sl_locked := 0, sl_pid := 0\<rparr>) = 0
      \<and> (b_valid ?x \<longrightarrow> b_data ?x = disk s k)"
    using free x by simp
  note u = one_update [OF inv b pre x(1,2) disjI1 [OF h] lru fr]
  have ok: "sched_ok ?t"
    using fold_make_ready_ok [of ?u ps] ps(3) p(3) by (auto simp: sched_ok_def)
  have "view ?t d = a_view A" using u(2) x(3,4) s by (auto simp: sim_def fun_eq_iff)
  then have t: "sim d p ?t (A\<lparr>a_refs := (a_refs A)(k := a_refs A k - 1), a_locked := a_locked A - {k}\<rparr>)"
    using u(1,3,4) s rx ok unfolding sim_def by (simp add: myproc_def)
  have pid: "p_pid (procs ?t p) = p_pid (procs s p)" using ps(2) by (simp add: fold_make_ready_procs)
  have "mine d p ?t k' b'" if "mine d p s k' b'" "k' \<noteq> k" for k' b'
  proof -
    have "b' \<noteq> b" using that h by (auto simp: mine_def has_def)
    then show ?thesis
      using that u(5) [of k' b'] pid pre(1) [of b'] pre(3) unfolding mine_def by (simp add: same_buf_def)
  qed
  then show ?thesis using ps(1) t by simp
qed

lemma upd_log_sim:
  assumes "sim d p s A"
  shows "sim d p (upd_log f s) (A\<lparr>a_log := f (a_log A)\<rparr>)" and "mine d p (upd_log f s) k b = mine d p s k b"
proof -
  let ?t = "upd_log f s"
  have e: "bufs ?t = bufs s" "slocks ?t = slocks s" "disk ?t = disk s" "disk_writes ?t = disk_writes s"
      "held ?t = held s" "procs ?t = procs s" "cpu_proc ?t = cpu_proc s" "tp ?t = tp s" "pqueue ?t = pqueue s"
      "lg ?t = f (lg s)"
    by (simp_all add: upd_log_def)
  have "binv d ?t = binv d s" unfolding binv_def has_def e ..
  moreover have "view ?t d = view s d" "refs ?t d = refs s d" "locked ?t d = locked s d"
    unfolding view_def refs_def locked_def cached_at_def has_def e by simp_all
  ultimately show "sim d p ?t (A\<lparr>a_log := f (a_log A)\<rparr>)"
    using assms e by (simp add: sim_def sched_ok_def myproc_def)
  show "mine d p ?t k b = mine d p s k b" using e by (simp add: mine_def has_def)
qed

end
