(* ===== verification/Fs.thy ===== *)
theory Fs
  imports Log
begin

text \<open>
  The file system (\<^verbatim>\<open>kernel/fs.c\<close>): block allocation, inodes, file content, directories, paths.

  An inode pointer is an index into \<^verbatim>\<open>itable.inode\<close>.  Structures stored in blocks (\<open>superblock\<close>,
  \<open>dinode\<close>, \<open>dirent\<close>) are read and written as little-endian fields at their C offsets.  The
  \<^verbatim>\<open>short\<close> fields are 16-bit words, compared as signed numbers where the code does.

  A C string argument is the list of its bytes up to the terminator.  The source and destination
  of \<open>readi\<close> and \<open>writei\<close> is a user address, a kernel (physical) address, or an object of the
  caller (\<^verbatim>\<open>(uint64)&de\<close>), whose bytes are passed or returned.  Messages printed on the
  console are left out.
\<close>

section \<open>Constants, layout and state\<close>

definition ROOTINO :: uint_t where "ROOTINO = 1"
definition ROOTDEV :: uint_t where "ROOTDEV = 1"
definition FSMAGIC :: uint_t where "FSMAGIC = 0x10203040"
definition NDIRECT :: nat where "NDIRECT = 12"
definition NINDIRECT :: nat where "NINDIRECT = BSIZE div 4"
definition MAXFILE :: nat where "MAXFILE = NDIRECT + NINDIRECT"
definition IPB :: nat where "IPB = BSIZE div 64"
definition BPB :: nat where "BPB = BSIZE * 8"
definition DIRSIZ :: nat where "DIRSIZ = 14"
definition NINODE :: nat where "NINODE = 50"
definition T_DIR :: uint16 where "T_DIR = 1"
definition T_FILE :: uint16 where "T_FILE = 2"
definition T_DEVICE :: uint16 where "T_DEVICE = 3"

definition IBLOCK :: "uint_t \<Rightarrow> superblock \<Rightarrow> uint_t" where
  "IBLOCK i sb = i div of_nat IPB + sb_inodestart sb"

definition BBLOCK :: "uint_t \<Rightarrow> superblock \<Rightarrow> uint_t" where
  "BBLOCK b sb = b div of_nat BPB + sb_bmapstart sb"

record inode =
  i_dev :: uint_t
  i_inum :: uint_t
  i_ref :: int
  i_valid :: bool
  i_type :: uint16
  i_major :: uint16
  i_minor :: uint16
  i_nlink :: uint16
  i_size :: uint_t
  i_addrs :: "nat \<Rightarrow> uint_t"

record dinode =
  di_type :: uint16
  di_major :: uint16
  di_minor :: uint16
  di_nlink :: uint16
  di_size :: uint_t
  di_addrs :: "nat \<Rightarrow> uint_t"

definition get_dinode :: "block \<Rightarrow> nat \<Rightarrow> dinode" where
  "get_dinode d k = \<lparr>di_type = get16 d k, di_major = get16 d (k + 2), di_minor = get16 d (k + 4),
     di_nlink = get16 d (k + 6), di_size = get32 d (k + 8), di_addrs = (\<lambda>i. get32 d (k + 12 + 4 * i))\<rparr>"

definition put_dinode :: "nat \<Rightarrow> dinode \<Rightarrow> block \<Rightarrow> block" where
  "put_dinode k di d = fold (\<lambda>i. put32 (k + 12 + 4 * i) (di_addrs di i)) [0..<NDIRECT + 1]
     (put32 (k + 8) (di_size di) (put16 (k + 6) (di_nlink di) (put16 (k + 4) (di_minor di)
     (put16 (k + 2) (di_major di) (put16 k (di_type di) d)))))"

record dirent =
  de_inum :: ushort
  de_name :: "uint8 list"

definition get_dirent :: "uint8 list \<Rightarrow> dirent" where
  "get_dirent d = \<lparr>de_inum = get16 d 0, de_name = take DIRSIZ (drop 2 d)\<rparr>"

definition put_dirent :: "dirent \<Rightarrow> uint8 list" where
  "put_dirent de = [ucast (de_inum de), ucast (drop_bit 8 (de_inum de))] @ de_name de"

record fs_state = log_state +
  sb :: superblock
  itable :: "nat \<Rightarrow> inode"

definition upd_inode :: "nat \<Rightarrow> (inode \<Rightarrow> inode) \<Rightarrow> 'a fs_state_scheme \<Rightarrow> 'a fs_state_scheme" where
  "upd_inode i f s = s\<lparr>itable := (itable s)(i := f (itable s i))\<rparr>"

definition set_data :: "nat \<Rightarrow> block \<Rightarrow> 'a bio_state_scheme \<Rightarrow> 'a bio_state_scheme" where
  "set_data b d s = upd_buf b (\<lambda>x. x\<lparr>b_data := d\<rparr>) s"

section \<open>Blocks\<close>

definition readsb :: "uint_t \<Rightarrow> 'a fs_state_scheme \<Rightarrow> 'a fs_state_scheme option" where
  "readsb dev s = do {
     (b, s) \<leftarrow> bread dev 1 s;
     let d = b_data (bufs s b);
     let s = s\<lparr>sb := \<lparr>sb_magic = get32 d 0, sb_size = get32 d 4, sb_nblocks = get32 d 8,
                 sb_ninodes = get32 d 12, sb_nlog = get32 d 16, sb_logstart = get32 d 20,
                 sb_inodestart = get32 d 24, sb_bmapstart = get32 d 28\<rparr>\<rparr>;
     brelse b s
   }"

definition bzero :: "uint_t \<Rightarrow> uint_t \<Rightarrow> 'a fs_state_scheme \<Rightarrow> 'a fs_state_scheme option" where
  "bzero dev bno s = do {
     (b, s) \<leftarrow> bread dev bno s;
     let s = set_data b (replicate BSIZE 0) s;
     s \<leftarrow> log_write b s;
     brelse b s
   }"

text \<open>The inner loop of \<open>balloc\<close>: the first clear bit among the first \<open>n\<close> bits of a bitmap block.\<close>

definition bit_mask :: "nat \<Rightarrow> uint8" where
  "bit_mask bi = push_bit (bi mod 8) 1"

definition free_bit :: "block \<Rightarrow> nat \<Rightarrow> nat option" where
  "free_bit d n = find (\<lambda>bi. d ! (bi div 8) AND bit_mask bi = 0) [0..<n]"

fun balloc_scan :: "uint_t \<Rightarrow> nat list \<Rightarrow> 'a fs_state_scheme \<Rightarrow> (uint_t \<times> 'a fs_state_scheme) option" where
  "balloc_scan dev [] s = Some (0, s)"
| "balloc_scan dev (b # bs) s = do {
     (bp, s) \<leftarrow> bread dev (BBLOCK (of_nat b) (sb s)) s;
     let d = b_data (bufs s bp);
     case free_bit d (min BPB (unat (sb_size (sb s)) - b)) of
       Some bi \<Rightarrow> do {
         let s = set_data bp (d[bi div 8 := d ! (bi div 8) OR bit_mask bi]) s;
         s \<leftarrow> log_write bp s;
         s \<leftarrow> brelse bp s;
         s \<leftarrow> bzero dev (of_nat (b + bi)) s;
         Some (of_nat (b + bi), s) }
     | None \<Rightarrow> do {
         s \<leftarrow> brelse bp s;
         balloc_scan dev bs s }
   }"

definition balloc :: "uint_t \<Rightarrow> 'a fs_state_scheme \<Rightarrow> (uint_t \<times> 'a fs_state_scheme) option" where
  "balloc dev s =
     balloc_scan dev (map (\<lambda>k. k * BPB) [0..<(unat (sb_size (sb s)) + BPB - 1) div BPB]) s"

definition bfree :: "uint_t \<Rightarrow> uint_t \<Rightarrow> 'a fs_state_scheme \<Rightarrow> 'a fs_state_scheme option" where
  "bfree dev b s = do {
     (bp, s) \<leftarrow> bread dev (BBLOCK b (sb s)) s;
     let bi = unat b mod BPB;
     let d = b_data (bufs s bp);
     if d ! (bi div 8) AND bit_mask bi = 0 then panic ''freeing free block''
     else do {
       let s = set_data bp (d[bi div 8 := d ! (bi div 8) AND NOT (bit_mask bi)]) s;
       s \<leftarrow> log_write bp s;
       brelse bp s }
   }"

section \<open>Inodes\<close>

definition iinit :: "'a fs_state_scheme \<Rightarrow> 'a fs_state_scheme" where
  "iinit s = fold (\<lambda>i. initsleeplock (InodeLock i) ''inode'') [0..<NINODE] s"

definition iget :: "uint_t \<Rightarrow> uint_t \<Rightarrow> 'a fs_state_scheme \<Rightarrow> (nat \<times> 'a fs_state_scheme) option" where
  "iget dev inum s = do {
     s \<leftarrow> acq ItableLock s;
     case find (\<lambda>i. i_ref (itable s i) > 0 \<and> i_dev (itable s i) = dev \<and> i_inum (itable s i) = inum)
            [0..<NINODE] of
       Some i \<Rightarrow> do {
         let s = upd_inode i (\<lambda>x. x\<lparr>i_ref := i_ref x + 1\<rparr>) s;
         s \<leftarrow> rel ItableLock s;
         Some (i, s) }
     | None \<Rightarrow>
         (case find (\<lambda>i. i_ref (itable s i) = 0) [0..<NINODE] of
            None \<Rightarrow> panic ''iget: no inodes''
          | Some i \<Rightarrow> do {
              let s = upd_inode i (\<lambda>x. x\<lparr>i_dev := dev, i_inum := inum, i_ref := 1, i_valid := False\<rparr>) s;
              s \<leftarrow> rel ItableLock s;
              Some (i, s) })
   }"

definition idup :: "nat \<Rightarrow> 'a fs_state_scheme \<Rightarrow> (nat \<times> 'a fs_state_scheme) option" where
  "idup ip s = do {
     s \<leftarrow> acq ItableLock s;
     let s = upd_inode ip (\<lambda>x. x\<lparr>i_ref := i_ref x + 1\<rparr>) s;
     s \<leftarrow> rel ItableLock s;
     Some (ip, s)
   }"

definition dinode_off :: "uint_t \<Rightarrow> nat" where
  "dinode_off inum = 64 * (unat inum mod IPB)"

fun ialloc_scan :: "uint_t \<Rightarrow> uint16 \<Rightarrow> nat list \<Rightarrow> 'a fs_state_scheme \<Rightarrow> (nat option \<times> 'a fs_state_scheme) option" where
  "ialloc_scan dev type [] s = Some (None, s)"
| "ialloc_scan dev type (n # ns) s = do {
     let inum = of_nat n;
     (bp, s) \<leftarrow> bread dev (IBLOCK inum (sb s)) s;
     let d = b_data (bufs s bp);
     let k = dinode_off inum;
     if get16 d k = 0
     then do {
       let s = set_data bp (put16 k type (take k d @ replicate 64 0 @ drop (k + 64) d)) s;
       s \<leftarrow> log_write bp s;
       s \<leftarrow> brelse bp s;
       (ip, s) \<leftarrow> iget dev inum s;
       Some (Some ip, s) }
     else do {
       s \<leftarrow> brelse bp s;
       ialloc_scan dev type ns s }
   }"

definition ialloc :: "uint_t \<Rightarrow> uint16 \<Rightarrow> 'a fs_state_scheme \<Rightarrow> (nat option \<times> 'a fs_state_scheme) option" where
  "ialloc dev type s = ialloc_scan dev type [1..<unat (sb_ninodes (sb s))] s"

definition iupdate :: "nat \<Rightarrow> 'a fs_state_scheme \<Rightarrow> 'a fs_state_scheme option" where
  "iupdate ip s = do {
     let x = itable s ip;
     (bp, s) \<leftarrow> bread (i_dev x) (IBLOCK (i_inum x) (sb s)) s;
     let di = \<lparr>di_type = i_type x, di_major = i_major x, di_minor = i_minor x,
               di_nlink = i_nlink x, di_size = i_size x, di_addrs = i_addrs x\<rparr>;
     let s = set_data bp (put_dinode (dinode_off (i_inum x)) di (b_data (bufs s bp))) s;
     s \<leftarrow> log_write bp s;
     brelse bp s
   }"

definition ilock :: "nat \<Rightarrow> 'a fs_state_scheme \<Rightarrow> 'a fs_state_scheme option" where
  "ilock ip s = do {
     if i_ref (itable s ip) < 1 then panic ''ilock'' else do {
     s \<leftarrow> acquiresleep (InodeLock ip) s;
     let x = itable s ip;
     if \<not> i_valid x
     then do {
       (bp, s) \<leftarrow> bread (i_dev x) (IBLOCK (i_inum x) (sb s)) s;
       let di = get_dinode (b_data (bufs s bp)) (dinode_off (i_inum x));
       let s = upd_inode ip (\<lambda>x. x\<lparr>i_type := di_type di, i_major := di_major di, i_minor := di_minor di,
                 i_nlink := di_nlink di, i_size := di_size di,
                 i_addrs := (\<lambda>i. if i \<le> NDIRECT then di_addrs di i else i_addrs x i)\<rparr>) s;
       s \<leftarrow> brelse bp s;
       let s = upd_inode ip (\<lambda>x. x\<lparr>i_valid := True\<rparr>) s;
       if i_type (itable s ip) = 0 then panic ''ilock: no type'' else Some s }
     else Some s }
   }"

definition iunlock :: "nat \<Rightarrow> 'a fs_state_scheme \<Rightarrow> 'a fs_state_scheme option" where
  "iunlock ip s = do {
     (h, s) \<leftarrow> holdingsleep (InodeLock ip) s;
     if \<not> h \<or> i_ref (itable s ip) < 1 then panic ''iunlock''
     else releasesleep (InodeLock ip) s
   }"

section \<open>Inode content\<close>

definition bmap :: "nat \<Rightarrow> nat \<Rightarrow> 'a fs_state_scheme \<Rightarrow> (uint_t \<times> 'a fs_state_scheme) option" where
  "bmap ip bn s =
     (if bn < NDIRECT
      then let addr = i_addrs (itable s ip) bn in
        if addr = 0
        then do {
          (addr, s) \<leftarrow> balloc (i_dev (itable s ip)) s;
          if addr = 0 then Some (0, s)
          else Some (addr, upd_inode ip (\<lambda>x. x\<lparr>i_addrs := (i_addrs x)(bn := addr)\<rparr>) s) }
        else Some (addr, s)
      else let bn = bn - NDIRECT in
      if bn < NINDIRECT
      then do {
        (addr, s) \<leftarrow>
          (let addr = i_addrs (itable s ip) NDIRECT in
           if addr = 0
           then do {
             (addr, s) \<leftarrow> balloc (i_dev (itable s ip)) s;
             if addr = 0 then Some (0, s)
             else Some (addr, upd_inode ip (\<lambda>x. x\<lparr>i_addrs := (i_addrs x)(NDIRECT := addr)\<rparr>) s) }
           else Some (addr, s));
        if addr = 0 then Some (0, s)
        else do {
          (bp, s) \<leftarrow> bread (i_dev (itable s ip)) addr s;
          let addr = get32 (b_data (bufs s bp)) (4 * bn);
          (addr, s) \<leftarrow>
            (if addr = 0
             then do {
               (addr, s) \<leftarrow> balloc (i_dev (itable s ip)) s;
               if addr \<noteq> 0
               then do {
                 let s = set_data bp (put32 (4 * bn) addr (b_data (bufs s bp))) s;
                 s \<leftarrow> log_write bp s;
                 Some (addr, s) }
               else Some (addr, s) }
             else Some (addr, s));
          s \<leftarrow> brelse bp s;
          Some (addr, s) } }
      else panic ''bmap: out of range'')"

definition itrunc_direct :: "nat \<Rightarrow> nat \<Rightarrow> 'a fs_state_scheme \<Rightarrow> 'a fs_state_scheme option" where
  "itrunc_direct ip i s =
     (if i_addrs (itable s ip) i \<noteq> 0
      then do {
        s \<leftarrow> bfree (i_dev (itable s ip)) (i_addrs (itable s ip) i) s;
        Some (upd_inode ip (\<lambda>x. x\<lparr>i_addrs := (i_addrs x)(i := 0)\<rparr>) s) }
      else Some s)"

definition itrunc :: "nat \<Rightarrow> 'a fs_state_scheme \<Rightarrow> 'a fs_state_scheme option" where
  "itrunc ip s = do {
     s \<leftarrow> for_each (itrunc_direct ip) [0..<NDIRECT] s;
     s \<leftarrow>
       (if i_addrs (itable s ip) NDIRECT \<noteq> 0
        then do {
          (bp, s) \<leftarrow> bread (i_dev (itable s ip)) (i_addrs (itable s ip) NDIRECT) s;
          s \<leftarrow> for_each (\<lambda>j s.
                 let a = get32 (b_data (bufs s bp)) (4 * j) in
                 if a \<noteq> 0 then bfree (i_dev (itable s ip)) a s else Some s) [0..<NINDIRECT] s;
          s \<leftarrow> brelse bp s;
          s \<leftarrow> bfree (i_dev (itable s ip)) (i_addrs (itable s ip) NDIRECT) s;
          Some (upd_inode ip (\<lambda>x. x\<lparr>i_addrs := (i_addrs x)(NDIRECT := 0)\<rparr>) s) }
        else Some s);
     let s = upd_inode ip (\<lambda>x. x\<lparr>i_size := 0\<rparr>) s;
     iupdate ip s
   }"

definition iput :: "nat \<Rightarrow> 'a fs_state_scheme \<Rightarrow> 'a fs_state_scheme option" where
  "iput ip s = do {
     s \<leftarrow> acq ItableLock s;
     s \<leftarrow>
       (if i_ref (itable s ip) = 1 \<and> i_valid (itable s ip) \<and> i_nlink (itable s ip) = 0
        then do {
          s \<leftarrow> acquiresleep (InodeLock ip) s;
          s \<leftarrow> rel ItableLock s;
          s \<leftarrow> itrunc ip s;
          let s = upd_inode ip (\<lambda>x. x\<lparr>i_type := 0\<rparr>) s;
          s \<leftarrow> iupdate ip s;
          let s = upd_inode ip (\<lambda>x. x\<lparr>i_valid := False\<rparr>) s;
          s \<leftarrow> releasesleep (InodeLock ip) s;
          acq ItableLock s }
        else Some s);
     let s = upd_inode ip (\<lambda>x. x\<lparr>i_ref := i_ref x - 1\<rparr>) s;
     rel ItableLock s
   }"

definition iunlockput :: "nat \<Rightarrow> 'a fs_state_scheme \<Rightarrow> 'a fs_state_scheme option" where
  "iunlockput ip s = do { s \<leftarrow> iunlock ip s; iput ip s }"

definition ireclaim_one :: "uint_t \<Rightarrow> nat \<Rightarrow> 'a fs_state_scheme \<Rightarrow> 'a fs_state_scheme option" where
  "ireclaim_one dev n s = do {
     let inum = of_nat n;
     (bp, s) \<leftarrow> bread dev (IBLOCK inum (sb s)) s;
     let di = get_dinode (b_data (bufs s bp)) (dinode_off inum);
     if di_type di \<noteq> 0 \<and> di_nlink di = 0
     then do {
       (ip, s) \<leftarrow> iget dev inum s;
       s \<leftarrow> brelse bp s;
       s \<leftarrow> begin_op s;
       s \<leftarrow> ilock ip s;
       s \<leftarrow> iunlock ip s;
       s \<leftarrow> iput ip s;
       end_op s }
     else brelse bp s
   }"

definition ireclaim :: "uint_t \<Rightarrow> 'a fs_state_scheme \<Rightarrow> 'a fs_state_scheme option" where
  "ireclaim dev s = for_each (ireclaim_one dev) [1..<unat (sb_ninodes (sb s))] s"

definition fsinit :: "uint_t \<Rightarrow> 'a fs_state_scheme \<Rightarrow> 'a fs_state_scheme option" where
  "fsinit dev s = do {
     s \<leftarrow> readsb dev s;
     if sb_magic (sb s) \<noteq> FSMAGIC then panic ''invalid file system''
     else do {
       s \<leftarrow> initlog dev (sb s) s;
       ireclaim dev s }
   }"

record stat =
  st_dev :: int
  st_ino :: uint_t
  st_type :: uint16
  st_nlink :: uint16
  st_size :: uint64

definition stati :: "nat \<Rightarrow> 'a fs_state_scheme \<Rightarrow> stat" where
  "stati ip s = (let x = itable s ip in
     \<lparr>st_dev = sint (i_dev x), st_ino = i_inum x, st_type = i_type x, st_nlink = i_nlink x,
      st_size = ucast (i_size x)\<rparr>)"

section \<open>Reading and writing content\<close>

datatype place = UserVa uint64 | KernelPa uint64 | Local "uint8 list"

fun advance :: "place \<Rightarrow> nat \<Rightarrow> place" where
  "advance (UserVa a) m = UserVa (a + of_nat m)"
| "advance (KernelPa a) m = KernelPa (a + of_nat m)"
| "advance (Local bs) m = Local bs"

text \<open>A \<open>Local\<close> destination collects the bytes copied so far.\<close>

fun either_copyout :: "place \<Rightarrow> uint8 list \<Rightarrow> 'a fs_state_scheme \<Rightarrow> (int \<times> place \<times> 'a fs_state_scheme) option" where
  "either_copyout (UserVa dst) src s = do {
     p \<leftarrow> myproc s;
     (r, s) \<leftarrow> copyout (p_pagetable (procs s p)) dst src s;
     Some (r, UserVa dst, s) }"
| "either_copyout (KernelPa dst) src s = Some (0, KernelPa dst, s\<lparr>mem := store_bytes dst src (mem s)\<rparr>)"
| "either_copyout (Local bs) src s = Some (0, Local (bs @ src), s)"

text \<open>\<open>either_copyin\<close> returns the bytes read; a \<open>Local\<close> source is an object of the caller from
  offset \<open>k\<close> on.\<close>

fun either_copyin :: "place \<Rightarrow> nat \<Rightarrow> nat \<Rightarrow> 'a fs_state_scheme \<Rightarrow> (int \<times> uint8 list \<times> 'a fs_state_scheme) option" where
  "either_copyin (UserVa src) k len s = do {
     p \<leftarrow> myproc s;
     copyin (p_pagetable (procs s p)) src len s }"
| "either_copyin (KernelPa src) k len s = Some (0, load_bytes src len (mem s), s)"
| "either_copyin (Local bs) k len s = Some (0, take len (drop k bs), s)"

partial_function (option) readi_loop :: "nat \<Rightarrow> place \<Rightarrow> uint_t \<Rightarrow> uint_t \<Rightarrow> uint_t
    \<Rightarrow> 'a fs_state_scheme \<Rightarrow> (int \<times> place \<times> 'a fs_state_scheme) option" where
  "readi_loop ip dst tot off n s =
     (if tot < n
      then do {
        (addr, s) \<leftarrow> bmap ip (unat off div BSIZE) s;
        if addr = 0 then Some (uint tot, dst, s)
        else do {
          (bp, s) \<leftarrow> bread (i_dev (itable s ip)) addr s;
          let m = min (unat (n - tot)) (BSIZE - unat off mod BSIZE);
          (r, dst, s) \<leftarrow> either_copyout dst (take m (drop (unat off mod BSIZE) (b_data (bufs s bp)))) s;
          s \<leftarrow> brelse bp s;
          if r = - 1 then Some (- 1, dst, s)
          else readi_loop ip (advance dst m) (tot + of_nat m) (off + of_nat m) n s } }
      else Some (uint tot, dst, s))"

definition readi :: "nat \<Rightarrow> place \<Rightarrow> uint_t \<Rightarrow> uint_t
    \<Rightarrow> 'a fs_state_scheme \<Rightarrow> (int \<times> place \<times> 'a fs_state_scheme) option" where
  "readi ip dst off n s =
     (let size = i_size (itable s ip) in
      if off > size \<or> off + n < off then Some (0, dst, s)
      else readi_loop ip dst 0 off (if off + n > size then size - off else n) s)"

text \<open>\<open>splice d k bs\<close>: the bytes \<open>bs\<close> copied into the block \<open>d\<close> from offset \<open>k\<close> on.  A failed
  \<open>either_copyin\<close> may have copied some of them before it failed.\<close>

definition splice :: "block \<Rightarrow> nat \<Rightarrow> uint8 list \<Rightarrow> block" where
  "splice d k bs = take k d @ bs @ drop (k + length bs) d"

partial_function (option) writei_loop :: "nat \<Rightarrow> place \<Rightarrow> uint_t \<Rightarrow> uint_t \<Rightarrow> uint_t
    \<Rightarrow> 'a fs_state_scheme \<Rightarrow> (uint_t \<times> uint_t \<times> 'a fs_state_scheme) option" where
  "writei_loop ip src tot off n s =
     (if tot < n
      then do {
        (addr, s) \<leftarrow> bmap ip (unat off div BSIZE) s;
        if addr = 0 then Some (tot, off, s)
        else do {
          (bp, s) \<leftarrow> bread (i_dev (itable s ip)) addr s;
          let m = min (unat (n - tot)) (BSIZE - unat off mod BSIZE);
          (r, bytes, s) \<leftarrow> either_copyin src (unat tot) m s;
          let s = set_data bp (splice (b_data (bufs s bp)) (unat off mod BSIZE) bytes) s;
          if r = - 1
          then do {
            s \<leftarrow> brelse bp s;
            Some (tot, off, s) }
          else do {
            s \<leftarrow> log_write bp s;
            s \<leftarrow> brelse bp s;
            writei_loop ip (advance src m) (tot + of_nat m) (off + of_nat m) n s } } }
      else Some (tot, off, s))"

definition writei :: "nat \<Rightarrow> place \<Rightarrow> uint_t \<Rightarrow> uint_t
    \<Rightarrow> 'a fs_state_scheme \<Rightarrow> (int \<times> 'a fs_state_scheme) option" where
  "writei ip src off n s =
     (if off > i_size (itable s ip) \<or> off + n < off then Some (- 1, s)
      else if unat (off + n) > MAXFILE * BSIZE then Some (- 1, s)
      else do {
        (tot, off, s) \<leftarrow> writei_loop ip src 0 off n s;
        let s = (if off > i_size (itable s ip) then upd_inode ip (\<lambda>x. x\<lparr>i_size := off\<rparr>) s else s);
        s \<leftarrow> iupdate ip s;
        Some (uint tot, s) })"

section \<open>Directories\<close>

definition str_at :: "uint8 list \<Rightarrow> nat \<Rightarrow> uint8" where
  "str_at bs i = (if i < length bs then bs ! i else 0)"

definition namecmp :: "uint8 list \<Rightarrow> uint8 list \<Rightarrow> int" where
  "namecmp s t = strncmp (str_at s) (str_at t) DIRSIZ"

text \<open>One directory entry, read by \<open>readi\<close> into a local \<^verbatim>\<open>struct dirent\<close>.\<close>

definition read_dirent :: "string \<Rightarrow> nat \<Rightarrow> uint_t \<Rightarrow> 'a fs_state_scheme \<Rightarrow> (dirent \<times> 'a fs_state_scheme) option" where
  "read_dirent msg dp off s = do {
     (r, dst, s) \<leftarrow> readi dp (Local []) off 16 s;
     case dst of
       Local bs \<Rightarrow> if r \<noteq> 16 then panic msg else Some (get_dirent bs, s)
     | _ \<Rightarrow> None
   }"

partial_function (option) dirlookup_from :: "nat \<Rightarrow> uint8 list \<Rightarrow> uint_t
    \<Rightarrow> 'a fs_state_scheme \<Rightarrow> ((nat \<times> uint_t) option \<times> 'a fs_state_scheme) option" where
  "dirlookup_from dp name off s =
     (if off < i_size (itable s dp)
      then do {
        (de, s) \<leftarrow> read_dirent ''dirlookup read'' dp off s;
        if de_inum de \<noteq> 0 \<and> namecmp name (de_name de) = 0
        then do {
          (ip, s) \<leftarrow> iget (i_dev (itable s dp)) (ucast (de_inum de)) s;
          Some (Some (ip, off), s) }
        else dirlookup_from dp name (off + 16) s }
      else Some (None, s))"

definition dirlookup :: "nat \<Rightarrow> uint8 list \<Rightarrow> 'a fs_state_scheme
    \<Rightarrow> ((nat \<times> uint_t) option \<times> 'a fs_state_scheme) option" where
  "dirlookup dp name s =
     (if i_type (itable s dp) \<noteq> T_DIR then panic ''dirlookup not DIR''
      else dirlookup_from dp name 0 s)"

partial_function (option) empty_dirent_from :: "nat \<Rightarrow> uint_t
    \<Rightarrow> 'a fs_state_scheme \<Rightarrow> (uint_t \<times> 'a fs_state_scheme) option" where
  "empty_dirent_from dp off s =
     (if off < i_size (itable s dp)
      then do {
        (de, s) \<leftarrow> read_dirent ''dirlink read'' dp off s;
        if de_inum de = 0 then Some (off, s) else empty_dirent_from dp (off + 16) s }
      else Some (off, s))"

definition dirlink :: "nat \<Rightarrow> uint8 list \<Rightarrow> uint_t \<Rightarrow> 'a fs_state_scheme \<Rightarrow> (int \<times> 'a fs_state_scheme) option" where
  "dirlink dp name inum s = do {
     (found, s) \<leftarrow> dirlookup dp name s;
     case found of
       Some (ip, _) \<Rightarrow> do { s \<leftarrow> iput ip s; Some (- 1, s) }
     | None \<Rightarrow> do {
         (off, s) \<leftarrow> empty_dirent_from dp 0 s;
         let nm = map (strncpy (\<lambda>_. 0) (str_at name) (int DIRSIZ)) [0..<DIRSIZ];
         let de = \<lparr>de_inum = ucast inum, de_name = nm\<rparr>;
         (r, s) \<leftarrow> writei dp (Local (put_dirent de)) off 16 s;
         Some (if r \<noteq> 16 then - 1 else 0, s) }
   }"

section \<open>Paths\<close>

definition slash :: uint8 where "slash = 47"

text \<open>\<open>skipelem\<close>: the rest of the path and the name buffer after the next element was copied
  into it, or \<^term>\<open>None\<close> when there is no element left.\<close>

definition skipelem :: "uint8 list \<Rightarrow> uint8 list \<Rightarrow> (uint8 list \<times> uint8 list) option" where
  "skipelem path name =
     (let path = dropWhile (\<lambda>c. c = slash) path in
      if path = [] then None
      else
        let elem = takeWhile (\<lambda>c. c \<noteq> slash) path;
            path = dropWhile (\<lambda>c. c \<noteq> slash) path;
            len = length elem;
            name = (if len \<ge> DIRSIZ then take DIRSIZ elem @ drop DIRSIZ name
                    else elem @ [0] @ drop (len + 1) name)
        in Some (dropWhile (\<lambda>c. c = slash) path, name))"

partial_function (option) namex_loop :: "nat \<Rightarrow> uint8 list \<Rightarrow> bool \<Rightarrow> uint8 list
    \<Rightarrow> 'a fs_state_scheme \<Rightarrow> (nat option \<times> uint8 list \<times> 'a fs_state_scheme) option" where
  "namex_loop ip path nameiparent name s =
     (case skipelem path name of
        None \<Rightarrow>
          if nameiparent then do { s \<leftarrow> iput ip s; Some (None, name, s) }
          else Some (Some ip, name, s)
      | Some (path, name) \<Rightarrow> do {
          s \<leftarrow> ilock ip s;
          if i_type (itable s ip) \<noteq> T_DIR
          then do { s \<leftarrow> iunlockput ip s; Some (None, name, s) }
          else if nameiparent \<and> path = []
          then do { s \<leftarrow> iunlock ip s; Some (Some ip, name, s) }
          else do {
            (found, s) \<leftarrow> dirlookup ip name s;
            case found of
              None \<Rightarrow> do { s \<leftarrow> iunlockput ip s; Some (None, name, s) }
            | Some (next_ip, _) \<Rightarrow> do {
                s \<leftarrow> iunlockput ip s;
                namex_loop next_ip path nameiparent name s } } })"

definition namex :: "uint8 list \<Rightarrow> bool \<Rightarrow> uint8 list
    \<Rightarrow> 'a fs_state_scheme \<Rightarrow> (nat option \<times> uint8 list \<times> 'a fs_state_scheme) option" where
  "namex path nameiparent name s = do {
     (ip, s) \<leftarrow>
       (if path \<noteq> [] \<and> hd path = slash then iget ROOTDEV ROOTINO s
        else do { p \<leftarrow> myproc s; cwd \<leftarrow> p_cwd (procs s p); idup cwd s });
     namex_loop ip path nameiparent name s
   }"

definition namei :: "uint8 list \<Rightarrow> 'a fs_state_scheme \<Rightarrow> (nat option \<times> 'a fs_state_scheme) option" where
  "namei path s = do {
     (ip, _, s) \<leftarrow> namex path False (replicate DIRSIZ 0) s;
     Some (ip, s)
   }"

definition nameiparent :: "uint8 list \<Rightarrow> uint8 list
    \<Rightarrow> 'a fs_state_scheme \<Rightarrow> (nat option \<times> uint8 list \<times> 'a fs_state_scheme) option" where
  "nameiparent path name s = namex path True name s"

text \<open>What a block holds at the offset of an inode after \<open>put_dinode\<close>.\<close>

lemma get16_fold_put32:
  assumes "\<forall>i \<in> set is. j + 1 < k + 4 * i"
  shows "get16 (fold (\<lambda>i. put32 (k + 4 * i) (f i)) is d) j = get16 d j"
  using assms by (induction "is" arbitrary: d) (simp_all add: get16_put32_other)

lemma get32_fold_put32_before:
  assumes "\<forall>i \<in> set is. j + 3 < k + 4 * i"
  shows "get32 (fold (\<lambda>i. put32 (k + 4 * i) (f i)) is d) j = get32 d j"
  using assms by (induction "is" arbitrary: d) (simp_all add: get32_put32_other)

lemma length_fold_put32 [simp]: "length (fold (\<lambda>i. put32 (k + 4 * i) (f i)) is d) = length d"
  by (induction "is" arbitrary: d) simp_all

lemma get32_fold_put32:
  assumes "j < n" and "k + 4 * n \<le> length d"
  shows "get32 (fold (\<lambda>i. put32 (k + 4 * i) (f i)) [0..<n] d) (k + 4 * j) = f j"
  using assms
proof (induction n)
  case (Suc n)
  then show ?case
    by (cases "j = n") (simp_all add: get32_put32 get32_put32_other)
qed simp

lemma get_put_dinode:
  assumes "k + 64 \<le> length d"
  shows "di_type (get_dinode (put_dinode k di d) k) = di_type di"
    and "di_major (get_dinode (put_dinode k di d) k) = di_major di"
    and "di_minor (get_dinode (put_dinode k di d) k) = di_minor di"
    and "di_nlink (get_dinode (put_dinode k di d) k) = di_nlink di"
    and "di_size (get_dinode (put_dinode k di d) k) = di_size di"
    and "i \<le> NDIRECT \<Longrightarrow> di_addrs (get_dinode (put_dinode k di d) k) i = di_addrs di i"
proof -
  let ?h = "put32 (k + 8) (di_size di) (put16 (k + 6) (di_nlink di) (put16 (k + 4) (di_minor di)
     (put16 (k + 2) (di_major di) (put16 k (di_type di) d))))"
  have f: "put_dinode k di d = fold (\<lambda>i. put32 ((k + 12) + 4 * i) (di_addrs di i)) [0..<13] ?h"
    by (simp only: put_dinode_def NDIRECT_def numeral_plus_one Num.add_num_simps)
  show "di_type (get_dinode (put_dinode k di d) k) = di_type di"
    "di_major (get_dinode (put_dinode k di d) k) = di_major di"
    "di_minor (get_dinode (put_dinode k di d) k) = di_minor di"
    "di_nlink (get_dinode (put_dinode k di d) k) = di_nlink di"
    "di_size (get_dinode (put_dinode k di d) k) = di_size di"
    using assms
    by (simp_all only: get_dinode_def f dinode.simps,
        simp_all add: get16_fold_put32 get32_fold_put32_before get16_put32_other get16_put16_other
        get16_put16 get32_put32 del: upt_Suc upt_rec_numeral)
  show "di_addrs (get_dinode (put_dinode k di d) k) i = di_addrs di i" if "i \<le> NDIRECT"
    using assms that
    by (simp only: get_dinode_def f dinode.simps, subst get32_fold_put32)
      (simp_all add: NDIRECT_def del: upt_Suc upt_rec_numeral)
qed

lemma nth_put_outside:
  "x < i \<or> i + 1 < x \<Longrightarrow> put16 i v d ! x = d ! x"
  "x < i \<or> i + 3 < x \<Longrightarrow> put32 i w d ! x = d ! x"
  by (auto simp: put16_def put32_def)

lemma nth_fold_put32:
  assumes "x < k \<or> k + 4 * n \<le> x"
  shows "fold (\<lambda>i. put32 (k + 4 * i) (f i)) [0..<n] d ! x = d ! x"
  using assms by (induction n) (auto simp: nth_put_outside)

lemma put_dinode_outside: "x < k \<or> k + 64 \<le> x \<Longrightarrow> put_dinode k di d ! x = d ! x"
proof -
  assume *: "x < k \<or> k + 64 \<le> x"
  have f: "put_dinode k di d = fold (\<lambda>i. put32 ((k + 12) + 4 * i) (di_addrs di i)) [0..<13]
     (put32 (k + 8) (di_size di) (put16 (k + 6) (di_nlink di) (put16 (k + 4) (di_minor di)
     (put16 (k + 2) (di_major di) (put16 k (di_type di) d)))))"
    by (simp only: put_dinode_def NDIRECT_def numeral_plus_one Num.add_num_simps)
  have "x < k + 12 \<or> k + 12 + 4 * 13 \<le> x" using * by auto
  then show ?thesis unfolding f using *
    by (subst nth_fold_put32) (auto simp: nth_put_outside)
qed

section \<open>Path elements\<close>

text \<open>The reference: a path split at its slashes, empty pieces dropped.\<close>

fun split_path :: "uint8 list \<Rightarrow> uint8 list list" where
  "split_path [] = [[]]"
| "split_path (c # cs) = (if c = slash then [] # split_path cs
     else (c # hd (split_path cs)) # tl (split_path cs))"

definition elements :: "uint8 list \<Rightarrow> uint8 list list" where
  "elements path = filter (\<lambda>e. e \<noteq> []) (split_path path)"

lemma split_path_nonempty [simp]: "split_path p \<noteq> []"
  by (cases p) simp_all

lemma elements_slash: "elements (dropWhile (\<lambda>c. c = slash) p) = elements p"
  by (induction p) (simp_all add: elements_def)

lemma split_path_word:
  "split_path p = takeWhile (\<lambda>c. c \<noteq> slash) p # tl (split_path (dropWhile (\<lambda>c. c \<noteq> slash) p))"
proof (induction p)
  case (Cons c cs)
  show ?case
  proof (cases "c = slash")
    case False
    have "hd (split_path cs) = takeWhile (\<lambda>c. c \<noteq> slash) cs"
      "tl (split_path cs) = tl (split_path (dropWhile (\<lambda>c. c \<noteq> slash) cs))"
      by (subst Cons.IH, simp)+
    with False show ?thesis by simp
  qed simp
qed simp

lemma elements_word:
  assumes "p \<noteq> []" and "hd p \<noteq> slash"
  shows "elements p = takeWhile (\<lambda>c. c \<noteq> slash) p # elements (dropWhile (\<lambda>c. c \<noteq> slash) p)"
proof -
  have "takeWhile (\<lambda>c. c \<noteq> slash) p \<noteq> []" using assms by (cases p) simp_all
  moreover have "filter (\<lambda>e. e \<noteq> []) (tl (split_path (dropWhile (\<lambda>c. c \<noteq> slash) p))) =
      elements (dropWhile (\<lambda>c. c \<noteq> slash) p)"
  proof (cases "dropWhile (\<lambda>c. c \<noteq> slash) p")
    case (Cons c cs)
    then have "c = slash" by (metis (mono_tags) hd_dropWhile list.distinct(1) list.sel(1))
    then show ?thesis unfolding Cons by (simp add: elements_def)
  next
    case Nil
    show ?thesis unfolding Nil by (simp add: elements_def)
  qed
  ultimately show ?thesis
    unfolding elements_def [of p] by (subst split_path_word) simp
qed

text \<open>C28.  Path names.  \<open>skipelem\<close> returns no element exactly when the path has none; otherwise it puts the
  first element into the name buffer, cut to \<open>DIRSIZ\<close> bytes and terminated when shorter, never
  writes past the buffer, and the rest of the path has exactly the remaining elements and no leading slash,
  so that the test for the last element in \<open>namex\<close> is right.\<close>

theorem skipelem_correct:
  assumes "length name = DIRSIZ"
  shows "case skipelem path name of
     None \<Rightarrow> elements path = []
   | Some (rest, name') \<Rightarrow> elements path \<noteq> [] \<and> elements rest = tl (elements path)
       \<and> (rest = [] \<longleftrightarrow> elements rest = [])
       \<and> length name' = DIRSIZ \<and> take DIRSIZ (hd (elements path)) = take (min DIRSIZ (length (hd (elements path)))) name'
       \<and> (length (hd (elements path)) < DIRSIZ \<longrightarrow> name' ! length (hd (elements path)) = 0)"
proof -
  define p where "p = dropWhile (\<lambda>c. c = slash) path"
  have e: "elements path = elements p" by (simp add: p_def elements_slash)
  show ?thesis
  proof (cases "p = []")
    case True
    then have "elements path = []" by (simp add: e) (simp add: elements_def)
    with True show ?thesis by (simp add: skipelem_def Let_def p_def [symmetric])
  next
    case False
    then have h: "hd p \<noteq> slash" unfolding p_def by (rule hd_dropWhile)
    let ?w = "takeWhile (\<lambda>c. c \<noteq> slash) p" and ?r = "dropWhile (\<lambda>c. c = slash) (dropWhile (\<lambda>c. c \<noteq> slash) p)"
    have ew: "elements p = ?w # elements ?r" using elements_word [OF False h] by (simp add: elements_slash)
    have r: "?r = [] \<longleftrightarrow> elements ?r = []"
    proof (cases "?r = []")
      case True
      show ?thesis unfolding True by (simp add: elements_def)
    next
      case False
      have "hd ?r \<noteq> slash" by (rule hd_dropWhile [OF False])
      from elements_word [OF False this] False show ?thesis by (metis list.distinct(1))
    qed
    show ?thesis
      using False assms r unfolding skipelem_def Let_def p_def [symmetric] e ew
      by (auto simp: DIRSIZ_def nth_append)
  qed
qed

theorem skipelem_correct_witness:
  "skipelem [47, 97, 47, 47, 98] (replicate DIRSIZ 7) = Some ([98], 97 # 0 # replicate 12 7)
   \<and> elements [98] = tl (elements [47, 97, 47, 47, 98])"
proof -
  have "skipelem [47, 97, 47, 47, 98] (replicate DIRSIZ 7) = Some ([98], 97 # 0 # replicate 12 7)" by code_simp
  with skipelem_correct [of "replicate DIRSIZ 7" "[47, 97, 47, 47, 98]"] show ?thesis by simp
qed

end
