(* ===== verification/Journal.thy ===== *)
theory Journal
  imports Fs
begin

text \<open>
  What the buffer cache promises the log, and what the log promises the file system.  The locale
  \<open>block_cache\<close> is the contract of \<^verbatim>\<open>bio.c\<close>: a store of blocks with contents, users and locks; it is
  interpreted on \<open>bread\<close>, \<open>bwrite\<close>, \<open>brelse\<close> and \<open>bunpin\<close>.  Over it, \<open>commit\<close> and recovery are sequences of
  block writes, and a crash between any two of them leaves all or nothing of a transaction.
\<close>

section \<open>The contract of the cache\<close>

text \<open>What \<open>bread\<close>, \<open>bwrite\<close>, \<open>brelse\<close> and \<open>bunpin\<close> do to the abstract store, and the update of a block
  through the cache: new contents in memory and on disk, one disk write.\<close>

definition st_grab :: "uint_t \<Rightarrow> store \<Rightarrow> store" where
  "st_grab k A = A\<lparr>a_refs := (a_refs A)(k := a_refs A k + 1), a_locked := insert k (a_locked A)\<rparr>"

definition st_fill :: "uint_t \<Rightarrow> block \<Rightarrow> store \<Rightarrow> store" where
  "st_fill k v A = A\<lparr>a_view := (a_view A)(k := v)\<rparr>"

definition st_flush :: "uint_t \<Rightarrow> store \<Rightarrow> store" where
  "st_flush k A = A\<lparr>a_disk := (a_disk A)(k := a_view A k), a_trace := a_trace A @ [(k, a_view A k)]\<rparr>"

definition st_unpin :: "uint_t \<Rightarrow> store \<Rightarrow> store" where
  "st_unpin k A = A\<lparr>a_refs := (a_refs A)(k := a_refs A k - 1)\<rparr>"

definition st_drop :: "uint_t \<Rightarrow> store \<Rightarrow> store" where
  "st_drop k A = A\<lparr>a_refs := (a_refs A)(k := a_refs A k - 1), a_locked := a_locked A - {k}\<rparr>"

definition st_put :: "uint_t \<Rightarrow> block \<Rightarrow> store \<Rightarrow> store" where
  "st_put k v A = A\<lparr>a_view := (a_view A)(k := v), a_disk := (a_disk A)(k := v), a_trace := a_trace A @ [(k, v)]\<rparr>"

definition st_readable :: "uint_t \<Rightarrow> store \<Rightarrow> bool" where
  "st_readable k A \<longleftrightarrow> k \<notin> a_locked A \<and> (0 < a_refs A k \<or> card {k. 0 < a_refs A k} < NBUF) \<and> a_refs A k + 1 < 2 ^ 32"

lemmas store_ops = st_grab_def st_fill_def st_flush_def st_unpin_def st_drop_def st_put_def

locale block_cache =
  fixes rep :: "'s \<Rightarrow> store \<Rightarrow> bool" and owns :: "'s \<Rightarrow> uint_t \<Rightarrow> nat \<Rightarrow> bool"
    and rd :: "uint_t \<Rightarrow> 's \<Rightarrow> (nat \<times> 's) option" and wr rls unp :: "nat \<Rightarrow> 's \<Rightarrow> 's option"
    and data :: "'s \<Rightarrow> nat \<Rightarrow> block" and set_data :: "nat \<Rightarrow> block \<Rightarrow> 's \<Rightarrow> 's"
  assumes clean: "rep s A \<Longrightarrow> a_refs A k = 0 \<Longrightarrow> a_view A k = a_disk A k"
    and data: "rep s A \<Longrightarrow> owns s k b \<Longrightarrow> data s b = a_view A k"
    and rd: "rep s A \<Longrightarrow> st_readable k A \<Longrightarrow> \<exists>b t. rd k s = Some (b, t) \<and> rep t (st_grab k A) \<and> owns t k b
         \<and> (\<forall>k' b'. owns s k' b' \<longrightarrow> owns t k' b')"
    and set_data: "rep s A \<Longrightarrow> owns s k b \<Longrightarrow> rep (set_data b v s) (st_fill k v A)
         \<and> (\<forall>k' b'. owns s k' b' \<longrightarrow> owns (set_data b v s) k' b')"
    and wr: "rep s A \<Longrightarrow> owns s k b \<Longrightarrow> \<exists>t. wr b s = Some t \<and> rep t (st_flush k A)
         \<and> (\<forall>k' b'. owns s k' b' \<longrightarrow> owns t k' b')"
    and unp: "rep s A \<Longrightarrow> owns s k b \<Longrightarrow> 2 \<le> a_refs A k \<Longrightarrow> \<exists>t. unp b s = Some t \<and> rep t (st_unpin k A)
         \<and> (\<forall>k' b'. owns s k' b' \<longrightarrow> owns t k' b')"
    and rls: "rep s A \<Longrightarrow> owns s k b \<Longrightarrow> 2 \<le> a_refs A k \<or> a_view A k = a_disk A k \<Longrightarrow>
         \<exists>t. rls b s = Some t \<and> rep t (st_drop k A) \<and> (\<forall>k' b'. owns s k' b' \<and> k' \<noteq> k \<longrightarrow> owns t k' b')"
begin

text \<open>Reading one block, changing it, writing it back and releasing it.\<close>

lemma write_back:
  assumes "rep s A" and "owns s k b" and "k \<in> a_locked A" and "0 < a_refs A k"
  shows "\<exists>t. Option.bind (wr b (set_data b v s)) (rls b) = Some t
    \<and> rep t ((st_put k v A)\<lparr>a_refs := (a_refs A)(k := a_refs A k - 1), a_locked := a_locked A - {k}\<rparr>)
    \<and> (\<forall>k' b'. owns s k' b' \<and> k' \<noteq> k \<longrightarrow> owns t k' b')"
proof -
  have 1: "rep (set_data b v s) (st_fill k v A)" "\<forall>k' b'. owns s k' b' \<longrightarrow> owns (set_data b v s) k' b'"
    using set_data [OF assms(1,2)] by blast+
  obtain t where 2: "wr b (set_data b v s) = Some t" "rep t (st_flush k (st_fill k v A))"
      "\<forall>k' b'. owns (set_data b v s) k' b' \<longrightarrow> owns t k' b'"
    using wr [OF 1(1)] 1(2) assms(2) by blast
  have "owns t k b" "a_view (st_flush k (st_fill k v A)) k = a_disk (st_flush k (st_fill k v A)) k"
    using 1 2 assms(2) by (auto simp: store_ops)
  from rls [OF 2(2) this(1) disjI2 [OF this(2)]]
  obtain u where 3: "rls b t = Some u" "rep u (st_drop k (st_flush k (st_fill k v A)))"
      "\<forall>k' b'. owns t k' b' \<and> k' \<noteq> k \<longrightarrow> owns u k' b'" by blast
  moreover have "st_drop k (st_flush k (st_fill k v A))
      = (st_put k v A)\<lparr>a_refs := (a_refs A)(k := a_refs A k - 1), a_locked := a_locked A - {k}\<rparr>"
    by (simp add: store_ops)
  ultimately show ?thesis using 1(2) 2 by auto
qed

text \<open>Copying block \<open>src\<close>, which is in use already, to \<open>dst\<close>, which is not.\<close>

lemma copy_out:
  assumes "rep s A" and "dst \<noteq> src" and "a_refs A dst = 0" and "dst \<notin> a_locked A" and "src \<notin> a_locked A"
    and "0 < a_refs A src" and "a_refs A src + 1 < 2 ^ 32" and "card {k. 0 < a_refs A k} < NBUF"
  shows "runs (do { (to, s) \<leftarrow> rd dst s; (from, s) \<leftarrow> rd src s; s \<leftarrow> wr to (set_data to (data s from) s);
      s \<leftarrow> rls from s; rls to s }) (\<lambda>t. rep t (st_put dst (a_view A src) A))"
proof -
  let ?v = "a_view A src"
  have "st_readable dst A" using assms by (simp add: st_readable_def)
  then obtain to s1 where 1: "rd dst s = Some (to, s1)" "rep s1 (st_grab dst A)" "owns s1 dst to"
    using rd [OF assms(1)] by blast
  have "st_readable src (st_grab dst A)" using assms by (simp add: st_readable_def st_grab_def)
  then obtain "from" s2 where 2: "rd src s1 = Some (from, s2)" "rep s2 (st_grab src (st_grab dst A))" "owns s2 src from"
      "owns s2 dst to"
    using rd [OF 1(2)] 1(3) by blast
  have v: "data s2 from = ?v" using data [OF 2(2,3)] by (simp add: st_grab_def)
  let ?A2 = "st_grab src (st_grab dst A)"
  have 3: "rep (set_data to ?v s2) (st_fill dst ?v ?A2)" "owns (set_data to ?v s2) src from" "owns (set_data to ?v s2) dst to"
    using set_data [OF 2(2,4)] 2(3,4) by blast+
  obtain s4 where 4: "wr to (set_data to ?v s2) = Some s4" "rep s4 (st_flush dst (st_fill dst ?v ?A2))" "owns s4 src from" "owns s4 dst to"
    using wr [OF 3(1,3)] 3 by blast
  have "2 \<le> a_refs (st_flush dst (st_fill dst ?v ?A2)) src" using assms by (simp add: store_ops)
  from rls [OF 4(2,3) disjI1 [OF this]]
  obtain s5 where 5: "rls from s4 = Some s5" "rep s5 (st_drop src (st_flush dst (st_fill dst ?v ?A2)))" "owns s5 dst to"
    using 4(4) assms(2) by blast
  have "a_view (st_drop src (st_flush dst (st_fill dst ?v ?A2))) dst = a_disk (st_drop src (st_flush dst (st_fill dst ?v ?A2))) dst"
    by (simp add: store_ops)
  from rls [OF 5(2,3) disjI2 [OF this]]
  obtain s6 where 6: "rls to s5 = Some s6" "rep s6 (st_drop dst (st_drop src (st_flush dst (st_fill dst ?v ?A2))))" by blast
  have "st_drop dst (st_drop src (st_flush dst (st_fill dst ?v ?A2))) = st_put dst ?v A"
    using assms(2-6) by (auto intro!: store.equality simp: store_ops fun_eq_iff)
  then show ?thesis using 1(1) 2(1) v 4(1) 5(1) 6 by simp
qed

text \<open>Copying block \<open>src\<close> home to \<open>dst\<close>, without and with dropping the pin of \<open>dst\<close>.\<close>

lemma copy_home:
  assumes "rep s A" and "dst \<noteq> src" and "a_refs A src = 0" and "dst \<notin> a_locked A" and "src \<notin> a_locked A"
    and "a_refs A dst + 1 < 2 ^ 32" and "card {k. 0 < a_refs A k} < NBUF"
    and "if pinned then 0 < a_refs A dst else card {k. 0 < a_refs A k} + 1 < NBUF"
  shows "runs (do { (lbuf, s) \<leftarrow> rd src s; (dbuf, s) \<leftarrow> rd dst s; s \<leftarrow> wr dbuf (set_data dbuf (data s lbuf) s);
      s \<leftarrow> (if pinned then unp dbuf s else Some s); s \<leftarrow> rls lbuf s; rls dbuf s })
    (\<lambda>t. rep t (if pinned then st_unpin dst (st_put dst (a_view A src) A) else st_put dst (a_view A src) A))"
proof -
  let ?v = "a_view A src"
  have "st_readable src A" using assms by (simp add: st_readable_def)
  then obtain lbuf s1 where 1: "rd src s = Some (lbuf, s1)" "rep s1 (st_grab src A)" "owns s1 src lbuf"
    using rd [OF assms(1)] by blast
  have "{k. 0 < a_refs (st_grab src A) k} = insert src {k. 0 < a_refs A k}" by (auto simp: st_grab_def)
  then have "card {k. 0 < a_refs (st_grab src A) k} \<le> card {k. 0 < a_refs A k} + 1"
    by (simp add: card_insert_le_m1 card_insert_if)
  then have "st_readable dst (st_grab src A)"
    using assms unfolding st_readable_def by (auto simp only: st_grab_def split: if_splits) auto
  then obtain dbuf s2 where 2: "rd dst s1 = Some (dbuf, s2)" "rep s2 (st_grab dst (st_grab src A))" "owns s2 dst dbuf"
      "owns s2 src lbuf"
    using rd [OF 1(2)] 1(3) by blast
  let ?A2 = "st_grab dst (st_grab src A)"
  let ?A4 = "st_flush dst (st_fill dst ?v ?A2)"
  have v: "data s2 lbuf = ?v" using data [OF 2(2,4)] by (simp add: st_grab_def)
  have 3: "rep (set_data dbuf ?v s2) (st_fill dst ?v ?A2)" "owns (set_data dbuf ?v s2) src lbuf" "owns (set_data dbuf ?v s2) dst dbuf"
    using set_data [OF 2(2,3)] 2(3,4) by blast+
  obtain s4 where 4: "wr dbuf (set_data dbuf ?v s2) = Some s4" "rep s4 ?A4" "owns s4 src lbuf" "owns s4 dst dbuf"
    using wr [OF 3(1,3)] 3 by blast
  let ?A5 = "if pinned then st_unpin dst ?A4 else ?A4"
  have "\<exists>s5. (if pinned then unp dbuf s4 else Some s4) = Some s5 \<and> rep s5 ?A5 \<and> owns s5 src lbuf \<and> owns s5 dst dbuf"
  proof (cases pinned)
    case True
    then have "2 \<le> a_refs ?A4 dst" using assms by (simp add: store_ops)
    then show ?thesis using unp [OF 4(2,4)] 4(3,4) True by fastforce
  qed (use 4 in simp)
  then obtain s5 where 5: "(if pinned then unp dbuf s4 else Some s4) = Some s5" "rep s5 ?A5" "owns s5 src lbuf"
      "owns s5 dst dbuf" by blast
  have "a_view ?A5 src = a_disk ?A5 src" using clean [OF assms(1,3)] assms(2) by (simp add: store_ops)
  from rls [OF 5(2,3) disjI2 [OF this]]
  obtain s6 where 6: "rls lbuf s5 = Some s6" "rep s6 (st_drop src ?A5)" "owns s6 dst dbuf" using 5(4) assms(2) by blast
  have "a_view (st_drop src ?A5) dst = a_disk (st_drop src ?A5) dst" by (simp add: store_ops)
  from rls [OF 6(2,3) disjI2 [OF this]]
  obtain s7 where 7: "rls dbuf s6 = Some s7" "rep s7 (st_drop dst (st_drop src ?A5))" by blast
  have "st_drop dst (st_drop src ?A5) = (if pinned then st_unpin dst (st_put dst ?v A) else st_put dst ?v A)"
    using assms(2-5) by (auto intro!: store.equality simp: store_ops fun_eq_iff)
  then show ?thesis using 1(1) 2(1) v 4(1) 5(1) 6(1) 7 by simp
qed

end

interpretation bc: block_cache "sim d p" "mine d p" "bread d" bwrite brelse bunpin
    "\<lambda>s b. b_data (bufs s b)" "\<lambda>b v. upd_buf b (\<lambda>x. x\<lparr>b_data := v\<rparr>)" for d :: uint_t and p :: nat
proof
  fix s :: "'a log_state_scheme" and A k b and v :: block
  show "sim d p s A \<Longrightarrow> a_refs A k = 0 \<Longrightarrow> a_view A k = a_disk A k" by (rule sim_clean)
  show "sim d p s A \<Longrightarrow> mine d p s k b \<Longrightarrow> b_data (bufs s b) = a_view A k" by (rule mine_data)
  show "sim d p s A \<Longrightarrow> st_readable k A \<Longrightarrow> \<exists>b t. bread d k s = Some (b, t) \<and> sim d p t (st_grab k A) \<and> mine d p t k b
         \<and> (\<forall>k' b'. mine d p s k' b' \<longrightarrow> mine d p t k' b')"
    using bread_sim [of d p s A k] by (auto simp: st_readable_def st_grab_def runs_def split: option.splits)
  show "sim d p s A \<Longrightarrow> mine d p s k b \<Longrightarrow> sim d p (upd_buf b (\<lambda>x. x\<lparr>b_data := v\<rparr>) s) (st_fill k v A)
         \<and> (\<forall>k' b'. mine d p s k' b' \<longrightarrow> mine d p (upd_buf b (\<lambda>x. x\<lparr>b_data := v\<rparr>) s) k' b')"
    using set_data_sim [where g = "\<lambda>_. v" and b = b and k = k and A = A and s = s and d = d and p = p] by (simp add: st_fill_def)
  show "sim d p s A \<Longrightarrow> mine d p s k b \<Longrightarrow> \<exists>t. bwrite b s = Some t \<and> sim d p t (st_flush k A)
         \<and> (\<forall>k' b'. mine d p s k' b' \<longrightarrow> mine d p t k' b')"
    using bwrite_sim [of d p s A k b] by (auto simp: st_flush_def runs_def split: option.splits)
  show "sim d p s A \<Longrightarrow> mine d p s k b \<Longrightarrow> 2 \<le> a_refs A k \<Longrightarrow> \<exists>t. bunpin b s = Some t \<and> sim d p t (st_unpin k A)
         \<and> (\<forall>k' b'. mine d p s k' b' \<longrightarrow> mine d p t k' b')"
    using bunpin_sim [of d p s A k b] by (auto simp: st_unpin_def runs_def split: option.splits)
  show "sim d p s A \<Longrightarrow> mine d p s k b \<Longrightarrow> 2 \<le> a_refs A k \<or> a_view A k = a_disk A k \<Longrightarrow>
         \<exists>t. brelse b s = Some t \<and> sim d p t (st_drop k A) \<and> (\<forall>k' b'. mine d p s k' b' \<and> k' \<noteq> k \<longrightarrow> mine d p t k' b')"
    using brelse_sim [of d p s A k b] by (auto simp: st_drop_def runs_def split: option.splits)
qed

section \<open>Block writes\<close>

definition write_blocks :: "(uint_t \<times> block) list \<Rightarrow> (uint_t \<Rightarrow> block) \<Rightarrow> uint_t \<Rightarrow> block" where
  "write_blocks ws D = fold (\<lambda>(k, v) D. D(k := v)) ws D"

lemma write_blocks_simps [simp]:
  "write_blocks [] D = D" "write_blocks (ws @ [(k, v)]) D = (write_blocks ws D)(k := v)"
  "write_blocks ((k, v) # ws) D = write_blocks ws (D(k := v))"
  by (simp_all add: write_blocks_def)

lemma write_blocks_append: "write_blocks (us @ ws) D = write_blocks ws (write_blocks us D)"
  by (simp add: write_blocks_def)

lemma write_blocks_other: "k \<notin> fst ` set ws \<Longrightarrow> write_blocks ws D k = D k"
  unfolding write_blocks_def by (induction ws arbitrary: D) auto

lemma write_blocks_mem: "distinct (map fst ws) \<Longrightarrow> (k, v) \<in> set ws \<Longrightarrow> write_blocks ws D k = v"
proof (induction ws rule: rev_induct)
  case (snoc w ws)
  then show ?case by (cases w) (auto simp: rev_image_eqI)
qed simp

definition st_puts :: "(uint_t \<times> block) list \<Rightarrow> store \<Rightarrow> store" where
  "st_puts ws A = A\<lparr>a_view := write_blocks ws (a_view A), a_disk := write_blocks ws (a_disk A), a_trace := a_trace A @ ws\<rparr>"

lemma st_puts_simps [simp]:
  "st_puts [] A = A" "a_view (st_puts ws A) = write_blocks ws (a_view A)" "a_disk (st_puts ws A) = write_blocks ws (a_disk A)"
  "a_trace (st_puts ws A) = a_trace A @ ws" "a_refs (st_puts ws A) = a_refs A" "a_locked (st_puts ws A) = a_locked A"
  "a_log (st_puts ws A) = a_log A"
  by (simp_all add: st_puts_def)

lemma st_put_puts: "st_put k v (st_puts ws A) = st_puts (ws @ [(k, v)]) A"
  by (simp add: st_put_def st_puts_def)

lemma st_puts_puts: "st_puts us (st_puts ws A) = st_puts (ws @ us) A"
  by (simp add: st_puts_def write_blocks_append)

section \<open>What commit and recovery do\<close>

text \<open>The area of the log on disk: its header and its slots.\<close>

definition slot_no :: "log \<Rightarrow> nat \<Rightarrow> uint_t" where
  "slot_no l i = lg_start l + of_nat i + 1"

definition log_area :: "log \<Rightarrow> uint_t set" where
  "log_area l = insert (lg_start l) (slot_no l ` {..<LOGBLOCKS})"

definition area_fits :: "log \<Rightarrow> bool" where
  "area_fits l \<longleftrightarrow> unat (lg_start l) + LOGBLOCKS < 2 ^ 32"

lemma unat_slot: "area_fits l \<Longrightarrow> i < LOGBLOCKS \<Longrightarrow> unat (slot_no l i) = unat (lg_start l) + i + 1"
proof -
  assume "area_fits l" "i < LOGBLOCKS"
  then have "unat (lg_start l) + (i + 1) < 2 ^ LENGTH(32)" by (simp add: area_fits_def)
  then have "unat (lg_start l + of_nat (i + 1)) = unat (lg_start l) + (i + 1)"
    by (simp only: unat_word_ariths(1) unat_of_nat take_bit_eq_mod) simp
  then show ?thesis by (simp add: slot_no_def ac_simps)
qed

lemma slot_inj: "area_fits l \<Longrightarrow> i < LOGBLOCKS \<Longrightarrow> j < LOGBLOCKS \<Longrightarrow> slot_no l i = slot_no l j \<longleftrightarrow> i = j"
  by (metis unat_slot add_right_cancel add_left_cancel)

lemma slot_start: "area_fits l \<Longrightarrow> i < LOGBLOCKS \<Longrightarrow> slot_no l i \<noteq> lg_start l"
proof
  assume "area_fits l" "i < LOGBLOCKS" "slot_no l i = lg_start l"
  then have "unat (lg_start l) = unat (lg_start l) + i + 1" by (metis unat_slot)
  then show False by linarith
qed

lemma slot_area: "i < LOGBLOCKS \<Longrightarrow> slot_no l i \<in> log_area l" "lg_start l \<in> log_area l"
  by (auto simp: log_area_def)

definition logged :: "log \<Rightarrow> uint_t list" where
  "logged l = map (lg_block l) [0..<nat (lg_n l)]"

lemma acquiresleep_log: "acquiresleep l s = Some t \<Longrightarrow> lg t = lg s"
  unfolding acquiresleep_def acq_def rel_def Let_def check_def bind_eq_Some_conv
  by (clarsimp split: if_splits)

lemma acq_log: "acq l s = Some t \<Longrightarrow> lg t = lg s" "rel l s = Some t \<Longrightarrow> lg t = lg s"
  by (auto simp: acq_def rel_def split: if_splits)

lemma bget_log: "bget d k s = Some (b, t) \<Longrightarrow> lg t = lg s"
  by (auto simp: bget_def Let_def split: option.splits elim!: bind_Some_E dest!: acq_log acquiresleep_log)

lemma bread_log: "bread d k s = Some (b, t) \<Longrightarrow> lg t = lg s"
  by (auto simp: bread_def Let_def virtio_disk_rw_def split: prod.splits if_splits elim!: bind_Some_E dest!: bget_log)

lemma bind_bread_cong:
  assumes "\<And>b t. lg t = lg s \<Longrightarrow> f (b, t) = g (b, t)"
  shows "Option.bind (bread d k s) f = Option.bind (bread d k s) g"
proof (cases "bread d k s")
  case (Some r)
  then show ?thesis using assms [of "snd r" "fst r"] bread_log [of d k s "fst r" "snd r"] by simp
qed simp

lemma write_log_block_eq:
  assumes "tail < LOGBLOCKS" and "lg_dev (lg s) = d"
  shows "write_log_block tail s = (do { (to, s') \<leftarrow> bread d (slot_no (lg s) tail) s; (from, s') \<leftarrow> bread d (lg_block (lg s) tail) s';
      s' \<leftarrow> bwrite to (upd_buf to (\<lambda>x. x\<lparr>b_data := b_data (bufs s' from)\<rparr>) s'); s' \<leftarrow> brelse from s'; brelse to s' })"
  unfolding write_log_block_def slot_no_def assms(2) using assms
  by (simp add: Let_def) (intro bind_bread_cong; simp; intro bind_bread_cong; simp)

lemma install_block_eq:
  assumes "tail < LOGBLOCKS" and "lg_dev (lg s) = d"
  shows "install_block recovering tail s = (do { (lbuf, s') \<leftarrow> bread d (slot_no (lg s) tail) s;
      (dbuf, s') \<leftarrow> bread d (lg_block (lg s) tail) s';
      s' \<leftarrow> bwrite dbuf (upd_buf dbuf (\<lambda>x. x\<lparr>b_data := b_data (bufs s' lbuf)\<rparr>) s');
      s' \<leftarrow> (if \<not> recovering then bunpin dbuf s' else Some s'); s' \<leftarrow> brelse lbuf s'; brelse dbuf s' })"
  unfolding install_block_def slot_no_def assms(2) using assms
  by (simp add: Let_def) (intro bind_bread_cong; simp; intro bind_bread_cong; simp)

definition log_fits :: "log \<Rightarrow> bool" where
  "log_fits l \<longleftrightarrow> area_fits l \<and> 0 \<le> lg_n l \<and> nat (lg_n l) \<le> LOGBLOCKS \<and> distinct (logged l)
   \<and> set (logged l) \<inter> log_area l = {}"

definition area_idle :: "log \<Rightarrow> store \<Rightarrow> bool" where
  "area_idle l A \<longleftrightarrow> (\<forall>k \<in> log_area l. a_refs A k = 0 \<and> k \<notin> a_locked A)"

definition in_use :: "store \<Rightarrow> nat" where
  "in_use A = card {k. 0 < a_refs A k}"

definition log_copies :: "log \<Rightarrow> store \<Rightarrow> nat \<Rightarrow> uint_t \<times> block" where
  "log_copies l A i = (slot_no l i, a_view A (lg_block l i))"

definition home_copies :: "log \<Rightarrow> store \<Rightarrow> nat \<Rightarrow> uint_t \<times> block" where
  "home_copies l A i = (lg_block l i, a_view A (slot_no l i))"

lemma log_fitsD:
  assumes "log_fits l" and "i < nat (lg_n l)"
  shows "i < LOGBLOCKS" and "lg_block l i \<notin> log_area l" and "lg_block l i \<in> set (logged l)"
    and "slot_no l i \<noteq> lg_block l i" and "lg_block l i \<notin> lg_block l ` {..<i}"
proof -
  show i: "i < LOGBLOCKS" and m: "lg_block l i \<in> set (logged l)"
    using assms by (auto simp: log_fits_def logged_def)
  show o: "lg_block l i \<notin> log_area l"
    using assms(1) m by (auto simp: log_fits_def)
  show "slot_no l i \<noteq> lg_block l i" using o slot_area(1) [OF i, of l] by auto
  have "distinct (map (lg_block l) [0..<nat (lg_n l)])" using assms(1) by (simp add: log_fits_def logged_def)
  then have "inj_on (lg_block l) {..<nat (lg_n l)}" by (simp add: distinct_map atLeast0LessThan)
  then show "lg_block l i \<notin> lg_block l ` {..<i}" using assms(2) by (force simp: inj_on_def)
qed

lemma write_log_sim:
  assumes s: "sim d p s A" and l: "a_log A = l" "lg_dev l = d" "log_fits l" and idle: "area_idle l A"
    and pinned: "\<forall>k \<in> set (logged l). 0 < a_refs A k \<and> a_refs A k + 1 < 2 ^ 32 \<and> k \<notin> a_locked A"
    and room: "in_use A < NBUF"
  shows "runs (write_log s) (\<lambda>t. sim d p t (st_puts (map (log_copies l A) [0..<nat (lg_n l)]) A))"
proof -
  let ?I = "\<lambda>done t. sim d p t (st_puts (map (log_copies l A) done) A)"
  have lg: "lg s = l" using s l by (simp add: sim_def)
  have "runs (for_each write_log_block [0..<nat (lg_n l)] s) (?I [0..<nat (lg_n l)])"
  proof (rule runs_for_each)
    show "?I [] s" using s by simp
    fix "done" i rest t assume eq: "[0..<nat (lg_n l)] = done @ i # rest" and t: "?I done t"
    have i: "i < nat (lg_n l)" and dn: "done = [0..<i]" using upt_eq_append_Cons [OF eq] by blast+
    note f = log_fitsD [OF l(3) i]
    have lt: "lg t = l" using t l by (simp add: sim_def)
    have "lg_block l i \<notin> fst ` set (map (log_copies l A) done)"
      using f dn i log_fitsD(1) [OF l(3)] slot_area(1) [of _ l] by (auto simp: log_copies_def)
    then have v: "a_view (st_puts (map (log_copies l A) done) A) (lg_block l i) = a_view A (lg_block l i)"
      by (simp add: write_blocks_other)
    let ?B = "st_puts (map (log_copies l A) done) A"
    have b: "a_refs ?B (slot_no l i) = 0" "slot_no l i \<notin> a_locked ?B" "lg_block l i \<notin> a_locked ?B"
        "0 < a_refs ?B (lg_block l i)" "a_refs ?B (lg_block l i) + 1 < 2 ^ 32" "card {k. 0 < a_refs ?B k} < NBUF"
      using idle pinned room f(3) slot_area(1) [OF f(1), of l] by (simp_all add: area_idle_def in_use_def)
    have e: "st_put (slot_no l i) (a_view ?B (lg_block l i)) ?B = st_puts (map (log_copies l A) (done @ [i])) A"
      unfolding v st_put_puts by (simp add: log_copies_def)
    show "runs (write_log_block i t) (?I (done @ [i]))"
      unfolding write_log_block_eq [OF f(1), of t d, unfolded lt, OF l(2)]
      using bc.copy_out [OF t f(4) b] unfolding e .
  qed
  then show ?thesis using lg by (simp add: write_log_def)
qed

definition drop_pins :: "uint_t set \<Rightarrow> (uint_t \<Rightarrow> nat) \<Rightarrow> uint_t \<Rightarrow> nat" where
  "drop_pins K r k = (if k \<in> K then r k - 1 else r k)"

lemma drop_no_pins [simp]: "drop_pins {} r = r"
  by (simp add: drop_pins_def fun_eq_iff)

definition installed :: "bool \<Rightarrow> log \<Rightarrow> store \<Rightarrow> nat list \<Rightarrow> store" where
  "installed recovering l A is = (let B = st_puts (map (home_copies l A) is) A in
     if recovering then B else B\<lparr>a_refs := drop_pins (lg_block l ` set is) (a_refs A)\<rparr>)"

lemma installed_simps:
  "a_view (installed r l A is) = write_blocks (map (home_copies l A) is) (a_view A)"
  "a_disk (installed r l A is) = write_blocks (map (home_copies l A) is) (a_disk A)"
  "a_trace (installed r l A is) = a_trace A @ map (home_copies l A) is"
  "a_locked (installed r l A is) = a_locked A" "a_log (installed r l A is) = a_log A"
  "a_refs (installed r l A is) = (if r then a_refs A else drop_pins (lg_block l ` set is) (a_refs A))"
  by (simp_all add: installed_def Let_def)

lemma in_use_mono: "(\<And>k. 0 < a_refs B k \<Longrightarrow> 0 < a_refs A k) \<Longrightarrow> in_use B \<le> in_use A"
  unfolding in_use_def by (rule card_mono) auto

lemma installed_step:
  assumes "lg_block l i \<notin> lg_block l ` set is"
  shows "(if \<not> r then st_unpin (lg_block l i) (st_put (lg_block l i) (a_view A (slot_no l i)) (installed r l A is))
      else st_put (lg_block l i) (a_view A (slot_no l i)) (installed r l A is)) = installed r l A (is @ [i])"
proof (cases r)
  case True
  then show ?thesis by (simp add: installed_def st_put_puts home_copies_def)
next
  case False
  with assms show ?thesis
    by (intro store.equality) (auto simp: installed_simps store_ops home_copies_def drop_pins_def fun_eq_iff)
qed

lemma install_trans_sim:
  assumes s: "sim d p s A" and l: "a_log A = l" "lg_dev l = d" "log_fits l" and idle: "area_idle l A"
    and pinned: "\<forall>k \<in> set (logged l). (r \<or> 0 < a_refs A k) \<and> a_refs A k + 1 < 2 ^ 32 \<and> k \<notin> a_locked A"
    and room: "in_use A + 1 < NBUF \<or> \<not> r \<and> in_use A < NBUF"
  shows "runs (install_trans r s) (\<lambda>t. sim d p t (installed r l A [0..<nat (lg_n l)]))"
proof -
  let ?I = "\<lambda>done t. sim d p t (installed r l A done)"
  have lg: "lg s = l" using s l by (simp add: sim_def)
  have "runs (for_each (install_block r) [0..<nat (lg_n l)] s) (?I [0..<nat (lg_n l)])"
  proof (rule runs_for_each)
    show "?I [] s" using s by (simp add: installed_def)
    fix "done" i rest t assume eq: "[0..<nat (lg_n l)] = done @ i # rest" and t: "?I done t"
    have i: "i < nat (lg_n l)" and dn: "done = [0..<i]" using upt_eq_append_Cons [OF eq] by blast+
    note f = log_fitsD [OF l(3) i]
    let ?B = "installed r l A done" and ?k = "lg_block l i"
    have lt: "lg t = l" using t l by (simp add: sim_def installed_simps)
    have fresh: "?k \<notin> lg_block l ` set done" using f(5) dn by (simp add: atLeast0LessThan)
    have "slot_no l i \<notin> fst ` set (map (home_copies l A) done)"
      using slot_area(1) [OF f(1), of l] log_fitsD(2) [OF l(3)] dn i by (force simp: home_copies_def)
    then have v: "a_view ?B (slot_no l i) = a_view A (slot_no l i)" by (simp add: installed_simps write_blocks_other)
    have refs: "a_refs ?B ?k = a_refs A ?k" "a_refs ?B (slot_no l i) = 0"
      using fresh idle slot_area(1) [OF f(1), of l] by (auto simp: installed_simps drop_pins_def area_idle_def)
    have "in_use ?B \<le> in_use A"
      by (rule in_use_mono) (auto simp: installed_simps drop_pins_def split: if_splits)
    then have use: "card {k. 0 < a_refs ?B k} < NBUF" "r \<Longrightarrow> card {k. 0 < a_refs ?B k} + 1 < NBUF"
      using room by (auto simp: in_use_def)
    have unlocked: "?k \<notin> a_locked ?B" "slot_no l i \<notin> a_locked ?B"
      using pinned f(3) idle slot_area(1) [OF f(1), of l] by (auto simp: installed_simps area_idle_def)
    have b: "a_refs ?B ?k + 1 < 2 ^ 32" "if \<not> r then 0 < a_refs ?B ?k else card {k. 0 < a_refs ?B k} + 1 < NBUF"
      using pinned f(3) refs use by auto
    show "runs (install_block r i t) (?I (done @ [i]))"
      unfolding install_block_eq [OF f(1), of t d, unfolded lt, OF l(2)]
      using bc.copy_home [OF t f(4) [symmetric] refs(2) unlocked b(1) use(1) b(2)]
      unfolding v installed_step [OF fresh] .
  qed
  then show ?thesis using lg by (simp add: install_trans_def)
qed

text \<open>The header block.\<close>

definition head_bytes :: "log \<Rightarrow> block \<Rightarrow> block" where
  "head_bytes l v = fold (\<lambda>i. put32 (4 + 4 * i) (lg_block l i)) [0..<nat (lg_n l)] (put32 0 (of_int (lg_n l)) v)"

lemma length_head [simp]: "length (head_bytes l v) = length v"
  by (simp add: head_bytes_def)

lemma head_count:
  assumes "length v = BSIZE"
  shows "get32 (head_bytes l v) 0 = of_int (lg_n l)"
  unfolding head_bytes_def using assms
  by (subst get32_fold_put32_before) (simp_all add: get32_put32 BSIZE_def)

lemma head_block:
  assumes "length v = BSIZE" and "i < nat (lg_n l)" and "nat (lg_n l) \<le> LOGBLOCKS"
  shows "get32 (head_bytes l v) (4 + 4 * i) = lg_block l i"
  unfolding head_bytes_def using assms
  by (subst get32_fold_put32) (simp_all add: BSIZE_def LOGBLOCKS_def MAXOPBLOCKS_def)

lemma upd_buf_comp: "upd_buf b f (upd_buf b g s) = upd_buf b (\<lambda>x. f (g x)) s"
  by (simp add: upd_buf_def)

lemma head_loop:
  assumes "n \<le> LOGBLOCKS"
  shows "for_each (\<lambda>i s. do {
            check (i < LOGBLOCKS);
            Some (upd_buf b (\<lambda>x. x\<lparr>b_data := put32 (4 + 4 * i) (lg_block (lg s) i) (b_data x)\<rparr>) s) }) [0..<n] s
    = Some (upd_buf b (\<lambda>x. x\<lparr>b_data := fold (\<lambda>i. put32 (4 + 4 * i) (lg_block (lg s) i)) [0..<n] (b_data x)\<rparr>) s)"
  using assms
proof (induction n)
  case 0
  then show ?case by (simp add: upd_buf_def)
next
  case (Suc n)
  then show ?case by (simp add: for_each_append upd_buf_comp)
qed

lemma upd_buf_data: "upd_buf b (\<lambda>x. x\<lparr>b_data := f (b_data x)\<rparr>) s = upd_buf b (\<lambda>x. x\<lparr>b_data := f (b_data (bufs s b))\<rparr>) s"
  by (simp add: upd_buf_def)

lemma write_head_sim:
  assumes s: "sim d p s A" and l: "a_log A = l" "lg_dev l = d" "nat (lg_n l) \<le> LOGBLOCKS"
    and "a_refs A (lg_start l) = 0" and "lg_start l \<notin> a_locked A" and room: "in_use A < NBUF"
  shows "runs (write_head s) (\<lambda>t. sim d p t (st_put (lg_start l) (head_bytes l (a_view A (lg_start l))) A))"
proof -
  let ?k = "lg_start l"
  have lg: "lg s = l" using s l by (simp add: sim_def)
  have "st_readable ?k A" using assms by (simp add: st_readable_def in_use_def)
  then obtain b t where b: "bread d ?k s = Some (b, t)" "sim d p t (st_grab ?k A)" "mine d p t ?k b"
    using bc.rd [OF s] by blast
  have lt: "lg t = l" using b(2) l by (simp add: sim_def st_grab_def)
  have v: "b_data (bufs t b) = a_view A ?k" using bc.data [OF b(2,3)] by (simp add: st_grab_def)
  let ?h = "head_bytes l (a_view A ?k)"
  obtain u where u: "Option.bind (bwrite b (upd_buf b (\<lambda>x. x\<lparr>b_data := ?h\<rparr>) t)) (brelse b) = Some u"
      "sim d p u ((st_put ?k ?h (st_grab ?k A))\<lparr>a_refs := (a_refs (st_grab ?k A))(?k := a_refs (st_grab ?k A) ?k - 1),
         a_locked := a_locked (st_grab ?k A) - {?k}\<rparr>)"
    using bc.write_back [OF b(2,3), of ?h] by (auto simp: st_grab_def)
  have "(st_put ?k ?h (st_grab ?k A))\<lparr>a_refs := (a_refs (st_grab ?k A))(?k := a_refs (st_grab ?k A) ?k - 1),
         a_locked := a_locked (st_grab ?k A) - {?k}\<rparr> = st_put ?k ?h A"
    using assms by (intro store.equality) (auto simp: store_ops fun_eq_iff)
  moreover have "write_head s = Option.bind (bwrite b (upd_buf b (\<lambda>x. x\<lparr>b_data := ?h\<rparr>) t)) (brelse b)"
    using b(1) lg lt l v
    by (simp add: write_head_def Let_def head_loop upd_buf_comp head_bytes_def
        upd_buf_data [of b "\<lambda>v. fold (\<lambda>i. put32 (4 + 4 * i) (lg_block l i)) [0..<nat (lg_n l)] (put32 0 (word_of_int (lg_n l)) v)"])
  ultimately show ?thesis using u by simp
qed

definition read_blocks :: "nat \<Rightarrow> block \<Rightarrow> (nat \<Rightarrow> uint_t) \<Rightarrow> nat \<Rightarrow> uint_t" where
  "read_blocks n d B i = (if i < n then get32 d (4 + 4 * i) else B i)"

lemma upd_log_comp: "upd_log f (upd_log g s) = upd_log (\<lambda>x. f (g x)) s" "lg (upd_log f s) = f (lg s)"
  by (simp_all add: upd_log_def)

lemma read_loop:
  assumes "n \<le> LOGBLOCKS"
  shows "for_each (\<lambda>i s. do {
            check (i < LOGBLOCKS);
            Some (upd_log (\<lambda>l. l\<lparr>lg_block := (lg_block l)(i := get32 v (4 + 4 * i))\<rparr>) s) }) [0..<n] s
    = Some (upd_log (\<lambda>l. l\<lparr>lg_block := read_blocks n v (lg_block l)\<rparr>) s)"
  using assms
proof (induction n)
  case 0
  have "read_blocks 0 v B = B" for B by (simp add: read_blocks_def fun_eq_iff)
  then show ?case by (simp add: upd_log_def)
next
  case (Suc n)
  have "(\<lambda>a. if a = n then get32 v (4 + 4 * n) else read_blocks n v B a) = read_blocks (Suc n) v B" for B
    by (auto simp: read_blocks_def fun_eq_iff)
  with Suc show ?case by (simp add: for_each_append upd_log_comp cong: if_cong)
qed

definition head_log :: "block \<Rightarrow> log \<Rightarrow> log" where
  "head_log v l = l\<lparr>lg_n := sint (get32 v 0), lg_block := read_blocks (nat (sint (get32 v 0))) v (lg_block l)\<rparr>"

lemma read_head_sim:
  assumes s: "sim d p s A" and l: "a_log A = l" "lg_dev l = d"
    and n: "nat (sint (get32 (a_view A (lg_start l)) 0)) \<le> LOGBLOCKS"
    and "a_refs A (lg_start l) = 0" and "lg_start l \<notin> a_locked A" and room: "in_use A < NBUF"
  shows "runs (read_head s) (\<lambda>t. sim d p t (A\<lparr>a_log := head_log (a_view A (lg_start l)) l\<rparr>))"
proof -
  let ?k = "lg_start l" and ?v = "a_view A (lg_start l)"
  have lg: "lg s = l" using s l by (simp add: sim_def)
  have "st_readable ?k A" using assms by (simp add: st_readable_def in_use_def)
  then obtain b t where b: "bread d ?k s = Some (b, t)" "sim d p t (st_grab ?k A)" "mine d p t ?k b"
    using bc.rd [OF s] by blast
  have v: "b_data (bufs t b) = ?v" using bc.data [OF b(2,3)] by (simp add: st_grab_def)
  have lt: "lg t = l" using b(2) l by (simp add: sim_def st_grab_def)
  let ?B = "(st_grab ?k A)\<lparr>a_log := head_log ?v (a_log (st_grab ?k A))\<rparr>"
  note u = upd_log_sim [OF b(2), of "head_log ?v"]
  have m: "mine d p (upd_log (head_log ?v) t) ?k b" using u(2) b(3) by blast
  have "a_view ?B ?k = a_disk ?B ?k" using bc.clean [OF s assms(5)] by (simp add: st_grab_def)
  from bc.rls [OF u(1) m disjI2 [OF this]]
  obtain w where w: "brelse b (upd_log (head_log ?v) t) = Some w" "sim d p w (st_drop ?k ?B)" by blast
  have "st_drop ?k ?B = A\<lparr>a_log := head_log ?v l\<rparr>"
    using assms by (intro store.equality) (auto simp: store_ops fun_eq_iff)
  moreover have "read_head s = brelse b (upd_log (head_log ?v) t)"
    using b(1) lg l v n lt
    by (simp add: read_head_def Let_def read_loop upd_log_comp head_log_def [abs_def])
  ultimately show ?thesis using w by simp
qed

section \<open>Commit and recovery as a whole\<close>

definition new_copies :: "log \<Rightarrow> store \<Rightarrow> nat \<Rightarrow> uint_t \<times> block" where
  "new_copies l A i = (lg_block l i, a_view A (lg_block l i))"

definition commit_writes :: "log \<Rightarrow> store \<Rightarrow> (uint_t \<times> block) list" where
  "commit_writes l A =
     (let is = [0..<nat (lg_n l)]; h1 = head_bytes l (a_view A (lg_start l)); h2 = head_bytes (l\<lparr>lg_n := 0\<rparr>) h1
      in map (log_copies l A) is @ [(lg_start l, h1)] @ map (new_copies l A) is @ [(lg_start l, h2)])"

lemma log_copies_keys:
  assumes "log_fits l" and "n \<le> nat (lg_n l)"
  shows "fst ` set (map (log_copies l A) [0..<n]) \<subseteq> log_area l" and "lg_start l \<notin> fst ` set (map (log_copies l A) [0..<n])"
    and "distinct (map fst (map (log_copies l A) [0..<n]))"
proof -
  have n: "i < n \<Longrightarrow> i < LOGBLOCKS" for i using assms by (auto simp: log_fits_def)
  have a: "area_fits l" using assms by (simp add: log_fits_def)
  show "fst ` set (map (log_copies l A) [0..<n]) \<subseteq> log_area l" using n slot_area(1) by (auto simp: log_copies_def)
  show "lg_start l \<notin> fst ` set (map (log_copies l A) [0..<n])" using n slot_start [OF a] by (force simp: log_copies_def)
  show "distinct (map fst (map (log_copies l A) [0..<n]))"
    using n slot_inj [OF a] by (auto simp: log_copies_def distinct_map inj_on_def)
qed

lemma new_copies_keys:
  assumes "log_fits l" and "n \<le> nat (lg_n l)"
  shows "fst ` set (map (new_copies l A) [0..<n]) \<subseteq> set (logged l)"
    and "fst ` set (map (new_copies l A) [0..<n]) \<inter> log_area l = {}"
proof -
  show "fst ` set (map (new_copies l A) [0..<n]) \<subseteq> set (logged l)"
    using assms(2) by (auto simp: new_copies_def logged_def)
  then show "fst ` set (map (new_copies l A) [0..<n]) \<inter> log_area l = {}"
    using assms(1) unfolding log_fits_def by blast
qed

lemma write_new_copies:
  assumes "log_fits l"
  shows "write_blocks (map (new_copies l A) [0..<nat (lg_n l)]) D k = (if k \<in> set (logged l) then a_view A k else D k)"
proof (cases "k \<in> set (logged l)")
  case True
  then have "(k, a_view A k) \<in> set (map (new_copies l A) [0..<nat (lg_n l)])"
    by (auto simp: logged_def new_copies_def)
  moreover have "distinct (map fst (map (new_copies l A) [0..<nat (lg_n l)]))"
    using assms by (simp add: log_fits_def logged_def comp_def new_copies_def)
  ultimately show ?thesis using True write_blocks_mem by metis
next
  case False
  then have "k \<notin> fst ` set (map (new_copies l A) [0..<nat (lg_n l)])"
    using new_copies_keys(1) [OF assms, of "nat (lg_n l)"] by blast
  then show ?thesis using False write_blocks_other by metis
qed

lemma logged_slots:
  assumes "log_fits l" and "i < nat (lg_n l)"
  shows "write_blocks (map (log_copies l A) [0..<nat (lg_n l)]) D (slot_no l i) = a_view A (lg_block l i)"
  using log_copies_keys(3) [OF assms(1), of "nat (lg_n l)"] assms(2)
  by (intro write_blocks_mem) (auto simp: log_copies_def)

lemma home_new:
  assumes "log_fits l"
  shows "map (home_copies l (st_puts (map (log_copies l A) [0..<nat (lg_n l)] @ [(lg_start l, h)]) A)) [0..<nat (lg_n l)]
    = map (new_copies l A) [0..<nat (lg_n l)]"
proof (rule map_cong [OF refl])
  fix i assume "i \<in> set [0..<nat (lg_n l)]"
  then have i: "i < nat (lg_n l)" by simp
  have "slot_no l i \<noteq> lg_start l" using slot_start log_fitsD(1) [OF assms i] assms by (simp add: log_fits_def)
  then show "home_copies l (st_puts (map (log_copies l A) [0..<nat (lg_n l)] @ [(lg_start l, h)]) A) i = new_copies l A i"
    using logged_slots [OF assms i] by (simp add: home_copies_def new_copies_def)
qed

lemma commit_sim:
  assumes s: "sim d p s A" and l: "a_log A = l" "lg_dev l = d" "log_fits l" and pos: "0 < lg_n l"
    and idle: "area_idle l A"
    and pinned: "\<forall>k \<in> set (logged l). 0 < a_refs A k \<and> a_refs A k + 1 < 2 ^ 32 \<and> k \<notin> a_locked A"
    and room: "in_use A < NBUF"
  shows "runs (commit s) (\<lambda>t. sim d p t ((st_puts (commit_writes l A) A)
     \<lparr>a_refs := drop_pins (set (logged l)) (a_refs A), a_log := l\<lparr>lg_n := 0\<rparr>\<rparr>))"
proof -
  let ?is = "[0..<nat (lg_n l)]" and ?k = "lg_start l"
  let ?h1 = "head_bytes l (a_view A ?k)"
  let ?h2 = "head_bytes (l\<lparr>lg_n := 0\<rparr>) ?h1"
  let ?W = "map (log_copies l A) ?is"
  let ?A1 = "st_puts ?W A" and ?A2 = "st_puts (?W @ [(?k, ?h1)]) A"
  let ?A3 = "installed False l ?A2 ?is"
  let ?A4 = "?A3\<lparr>a_log := l\<lparr>lg_n := 0\<rparr>\<rparr>"
  have n: "nat (lg_n l) \<le> LOGBLOCKS" and k: "a_refs A ?k = 0" "?k \<notin> a_locked A" and lg: "lg s = l"
    using l idle slot_area(2) [of l] s by (auto simp: log_fits_def area_idle_def sim_def)
  obtain s1 where 1: "write_log s = Some s1" "sim d p s1 ?A1"
    using write_log_sim [OF s l idle pinned room] by (rule runsE)
  have "in_use ?A1 < NBUF" using room by (simp add: in_use_def)
  then have "runs (write_head s1) (\<lambda>t. sim d p t (st_put ?k (head_bytes l (a_view ?A1 ?k)) ?A1))"
    using write_head_sim [OF 1(2), of l] l n k by simp
  moreover have "a_view ?A1 ?k = a_view A ?k" using log_copies_keys(2) [OF l(3), of "nat (lg_n l)" A] by (simp add: write_blocks_other)
  ultimately obtain s2 where 2: "write_head s1 = Some s2" "sim d p s2 ?A2"
    by (auto simp: st_put_puts elim: runsE)
  have "area_idle l ?A2" "in_use ?A2 < NBUF" using idle room by (simp_all add: area_idle_def in_use_def)
  then have "runs (install_trans False s2) (\<lambda>t. sim d p t ?A3)"
    using install_trans_sim [OF 2(2), of l False] l pinned by simp
  then obtain s3 where 3: "install_trans False s2 = Some s3" "sim d p s3 ?A3" by (rule runsE)
  have 4: "sim d p (upd_log (\<lambda>l. l\<lparr>lg_n := 0\<rparr>) s3) ?A4"
    using upd_log_sim(1) [OF 3(2), of "\<lambda>l. l\<lparr>lg_n := 0\<rparr>"] l by (simp add: installed_simps)
  note copies = home_new [OF l(3), of A ?h1]
  have "?k \<notin> fst ` set (map (new_copies l A) ?is)"
    using new_copies_keys(2) [OF l(3), of "nat (lg_n l)" A] slot_area(2) [of l] by blast
  from write_blocks_other [OF this] have v: "a_view ?A4 ?k = ?h1"
    by (simp add: installed_simps copies)
  have "in_use ?A4 \<le> in_use A" by (rule in_use_mono) (auto simp: installed_simps drop_pins_def split: if_splits)
  then have room4: "in_use ?A4 < NBUF" using room by simp
  have "?k \<notin> lg_block l ` set ?is" using l(3) slot_area(2) [of l] unfolding log_fits_def logged_def by auto
  then have "a_refs ?A4 ?k = 0" "?k \<notin> a_locked ?A4" using k by (simp_all add: installed_simps drop_pins_def)
  then have "runs (write_head (upd_log (\<lambda>l. l\<lparr>lg_n := 0\<rparr>) s3)) (\<lambda>t. sim d p t (st_put ?k ?h2 ?A4))"
    using write_head_sim [OF 4, of "l\<lparr>lg_n := 0\<rparr>"] l room4 v by simp
  then obtain s5 where 5: "write_head (upd_log (\<lambda>l. l\<lparr>lg_n := 0\<rparr>) s3) = Some s5" "sim d p s5 (st_put ?k ?h2 ?A4)" by (rule runsE)
  have "st_put ?k ?h2 ?A4 = (st_puts (commit_writes l A) A)
     \<lparr>a_refs := drop_pins (set (logged l)) (a_refs A), a_log := l\<lparr>lg_n := 0\<rparr>\<rparr>"
    by (intro store.equality) (simp_all add: installed_simps copies st_put_def commit_writes_def Let_def
        write_blocks_append logged_def flip: append_assoc)
  then show ?thesis using 1(1) 2(1) 3(1) 5 pos lg by (simp add: commit_def Let_def)
qed

lemma recover_sim:
  assumes s: "sim d p s A" and l: "a_log A = l" "lg_dev l = d" and fresh: "a_refs A = (\<lambda>_. 0)" "a_locked A = {}"
    and fits: "log_fits (head_log (a_view A (lg_start l)) l)"
  shows "runs (recover_from_log s) (\<lambda>t. let l' = head_log (a_view A (lg_start l)) l in
    \<forall>k \<in> - log_area l. disk t k = write_blocks (map (home_copies l' A) [0..<nat (lg_n l')]) (a_disk A) k)"
proof -
  let ?k = "lg_start l"
  let ?l = "head_log (a_view A ?k) l"
  let ?A1 = "A\<lparr>a_log := ?l\<rparr>"
  let ?A2 = "installed True ?l ?A1 [0..<nat (lg_n ?l)]"
  let ?A3 = "?A2\<lparr>a_log := ?l\<lparr>lg_n := 0\<rparr>\<rparr>"
  have use: "in_use A = 0" "in_use ?A1 = 0" "in_use ?A3 = 0" using fresh by (simp_all add: in_use_def installed_simps)
  have n: "nat (sint (get32 (a_view A ?k) 0)) \<le> LOGBLOCKS" using fits by (simp add: log_fits_def head_log_def)
  have start: "lg_start ?l = ?k" "lg_dev ?l = d" using l by (simp_all add: head_log_def)
  have room: "0 < NBUF" "Suc 0 < NBUF" by (simp_all add: NBUF_def MAXOPBLOCKS_def)
  have "runs (read_head s) (\<lambda>t. sim d p t ?A1)"
    using read_head_sim [OF s l n] fresh use room by simp
  then obtain s1 where 1: "read_head s = Some s1" "sim d p s1 ?A1" by (rule runsE)
  have "area_idle ?l ?A1" using fresh by (simp add: area_idle_def)
  then have "runs (install_trans True s1) (\<lambda>t. sim d p t ?A2)"
    using install_trans_sim [OF 1(2), of ?l True] start fits fresh use room by simp
  then obtain s2 where 2: "install_trans True s1 = Some s2" "sim d p s2 ?A2" by (rule runsE)
  have 3: "sim d p (upd_log (\<lambda>l. l\<lparr>lg_n := 0\<rparr>) s2) ?A3"
    using upd_log_sim(1) [OF 2(2), of "\<lambda>l. l\<lparr>lg_n := 0\<rparr>"] by (simp add: installed_simps)
  have "runs (write_head (upd_log (\<lambda>l. l\<lparr>lg_n := 0\<rparr>) s2))
      (\<lambda>t. sim d p t (st_put ?k (head_bytes (?l\<lparr>lg_n := 0\<rparr>) (a_view ?A3 ?k)) ?A3))"
    using write_head_sim [OF 3, of "?l\<lparr>lg_n := 0\<rparr>"] start fresh use room by (simp add: installed_simps)
  then obtain s3 where 4: "write_head (upd_log (\<lambda>l. l\<lparr>lg_n := 0\<rparr>) s2) = Some s3"
      "sim d p s3 (st_put ?k (head_bytes (?l\<lparr>lg_n := 0\<rparr>) (a_view ?A3 ?k)) ?A3)" by (rule runsE)
  have "disk s3 k = write_blocks (map (home_copies ?l A) [0..<nat (lg_n ?l)]) (a_disk A) k" if "k \<notin> log_area l" for k
  proof -
    have "k \<noteq> ?k" using that slot_area(2) [of l] by auto
    moreover have "home_copies ?l ?A1 = home_copies ?l A" by (simp add: home_copies_def fun_eq_iff)
    ultimately show ?thesis using 4(2) by (simp add: sim_def st_put_def installed_simps)
  qed
  then show ?thesis using 1(1) 2(1) 4(1) by (simp add: recover_from_log_def Let_def)
qed

text \<open>The disk after any prefix of the writes of a commit: what recovery finds in the header and installs.\<close>

lemma head_log_fits: "area_fits l \<Longrightarrow> get32 v 0 = 0 \<Longrightarrow> log_fits (head_log v l)"
  by (simp add: log_fits_def head_log_def area_fits_def logged_def)

lemma head_log_read:
  assumes "length v = BSIZE" and "log_fits l" and "lg_start l0 = lg_start l"
  shows "lg_n (head_log (head_bytes l v) l0) = lg_n l" and "i < nat (lg_n l) \<Longrightarrow> lg_block (head_log (head_bytes l v) l0) i = lg_block l i"
    and "log_fits (head_log (head_bytes l v) l0)" and "slot_no (head_log w l0) = slot_no l"
proof -
  have n: "0 \<le> lg_n l" "lg_n l \<le> 30" "nat (lg_n l) \<le> LOGBLOCKS"
    using assms(2) by (auto simp: log_fits_def LOGBLOCKS_def MAXOPBLOCKS_def)
  then have c: "sint (get32 (head_bytes l v) 0) = lg_n l"
    by (simp add: head_count [OF assms(1)] signed_of_int signed_take_bit_int_eq_self)
  then show n': "lg_n (head_log (head_bytes l v) l0) = lg_n l" by (simp add: head_log_def)
  show b: "lg_block (head_log (head_bytes l v) l0) i = lg_block l i" if "i < nat (lg_n l)" for i
    using that c n by (simp add: head_log_def read_blocks_def head_block [OF assms(1)])
  show sl: "slot_no (head_log w l0) = slot_no l" for w using assms(3) by (simp add: slot_no_def head_log_def fun_eq_iff)
  have "log_area (head_log (head_bytes l v) l0) = log_area l"
    using assms(3) by (simp add: log_area_def sl) (simp add: head_log_def)
  moreover have "logged (head_log (head_bytes l v) l0) = logged l"
    unfolding logged_def n' by (rule map_cong [OF refl]) (simp add: b)
  moreover have "area_fits (head_log (head_bytes l v) l0) = area_fits l"
    using assms(3) by (simp add: area_fits_def head_log_def)
  ultimately show "log_fits (head_log (head_bytes l v) l0)"
    using assms(2) n' by (simp add: log_fits_def)
qed

definition recovered :: "log \<Rightarrow> (uint_t \<Rightarrow> block) \<Rightarrow> uint_t \<Rightarrow> block" where
  "recovered l C = write_blocks (map (\<lambda>i. (lg_block l i, C (slot_no l i))) [0..<nat (lg_n l)]) C"

lemma recover_nothing:
  assumes "area_fits l" and "get32 (C (lg_start l)) 0 = 0"
  shows "log_fits (head_log (C (lg_start l)) l)" and "recovered (head_log (C (lg_start l)) l) C = C"
  using assms head_log_fits by (simp_all add: recovered_def head_log_def)

lemma recover_all:
  assumes l: "log_fits l" and l0: "lg_start l0 = lg_start l" and v: "length v = BSIZE"
    and C: "C = write_blocks (map (log_copies l A) [0..<nat (lg_n l)] @ [(lg_start l, head_bytes l v)]
       @ map (new_copies l A) [0..<m]) D" and m: "m \<le> nat (lg_n l)"
  shows "log_fits (head_log (C (lg_start l0)) l0)"
    and "k \<notin> log_area l \<Longrightarrow> recovered (head_log (C (lg_start l0)) l0) C k = (if k \<in> set (logged l) then a_view A k else D k)"
proof -
  let ?W = "map (log_copies l A) [0..<nat (lg_n l)]" and ?N = "map (new_copies l A) [0..<m]"
  have out: "x \<in> log_area l \<Longrightarrow> x \<notin> fst ` set ?N" for x using new_copies_keys(2) [OF l m] by blast
  have h: "C (lg_start l0) = head_bytes l v"
    using write_blocks_other [OF out [OF slot_area(2)]] by (simp add: C l0 write_blocks_append)
  note r = head_log_read [OF v l l0]
  show "log_fits (head_log (C (lg_start l0)) l0)" unfolding h by (rule r(3))
  have "C (slot_no l i) = a_view A (lg_block l i)" if i: "i < nat (lg_n l)" for i
  proof -
    have b: "i < LOGBLOCKS" and a: "area_fits l" using log_fitsD(1) [OF l i] l by (auto simp: log_fits_def)
    show ?thesis
      using write_blocks_other [OF out [OF slot_area(1) [OF b]]] logged_slots [OF l i] slot_start [OF a b]
      by (simp add: C write_blocks_append)
  qed
  then have "map (\<lambda>i. (lg_block (head_log (C (lg_start l0)) l0) i, C (slot_no (head_log (C (lg_start l0)) l0) i)))
      [0..<nat (lg_n (head_log (C (lg_start l0)) l0))] = map (new_copies l A) [0..<nat (lg_n l)]"
    unfolding h r(1) by (intro map_cong [OF refl]) (simp add: r(2,4) new_copies_def)
  then have "recovered (head_log (C (lg_start l0)) l0) C k = (if k \<in> set (logged l) then a_view A k else C k)"
    unfolding recovered_def using write_new_copies [OF l] by simp
  moreover have "C k = D k" if "k \<notin> log_area l" "k \<notin> set (logged l)"
  proof -
    have "k \<notin> fst ` set ?N" "k \<notin> fst ` set ?W" "k \<noteq> lg_start l"
      using that new_copies_keys(1) [OF l m] log_copies_keys(1) [OF l, of "nat (lg_n l)"] slot_area(2) [of l] by blast+
    from write_blocks_other [OF this(1)] write_blocks_other [OF this(2)] this(3) show ?thesis
      by (simp add: C write_blocks_append)
  qed
  ultimately show "k \<notin> log_area l \<Longrightarrow> recovered (head_log (C (lg_start l0)) l0) C k = (if k \<in> set (logged l) then a_view A k else D k)"
    by simp
qed
section \<open>Crash safety\<close>

text \<open>\<open>committable\<close>: the last system call of a transaction has ended; its blocks are pinned in the cache, the
  log area is not in use, and the header on disk says that the log is empty.\<close>

definition committable :: "uint_t \<Rightarrow> nat \<Rightarrow> 'a log_state_scheme \<Rightarrow> bool" where
  "committable d p s \<longleftrightarrow> held s = {} \<and> sched_ok s \<and> myproc s = Some p \<and> binv d s
   \<and> lg_dev (lg s) = d \<and> log_fits (lg s) \<and> 0 < lg_n (lg s)
   \<and> (\<forall>k \<in> log_area (lg s). refs s d k = 0)
   \<and> (\<forall>k \<in> set (logged (lg s)). 0 < refs s d k \<and> refs s d k + 1 < 2 ^ 32 \<and> k \<notin> locked s d)
   \<and> length (disk s (lg_start (lg s))) = BSIZE \<and> get32 (disk s (lg_start (lg s))) 0 = 0"

definition booted :: "uint_t \<Rightarrow> nat \<Rightarrow> 'a log_state_scheme \<Rightarrow> bool" where
  "booted d p s \<longleftrightarrow> held s = {} \<and> sched_ok s \<and> myproc s = Some p \<and> binv d s \<and> refs s d = (\<lambda>_. 0)"

definition after_commit :: "uint_t \<Rightarrow> 'a log_state_scheme \<Rightarrow> uint_t \<Rightarrow> block" where
  "after_commit d s k = (if k \<in> set (logged (lg s)) then view s d k else disk s k)"

definition store_of :: "uint_t \<Rightarrow> 'a log_state_scheme \<Rightarrow> store" where
  "store_of d s = \<lparr>a_view = view s d, a_refs = refs s d, a_locked = locked s d, a_disk = disk s,
     a_trace = disk_writes s, a_log = lg s\<rparr>"

lemma sim_store_of:
  "held s = {} \<Longrightarrow> sched_ok s \<Longrightarrow> myproc s = Some p \<Longrightarrow> binv d s \<Longrightarrow> sim d p s (store_of d s)"
  by (simp add: sim_def store_of_def)

lemma locked_refs:
  assumes "binv d s" and "refs s d k = 0"
  shows "k \<notin> locked s d"
proof
  assume "k \<in> locked s d"
  then obtain b where b: "has s d k b" "sl_locked (slocks s (BufLock b)) \<noteq> 0" by (auto simp: locked_def)
  have "b_refcnt (bufs s b) = 0" using refs_has [OF assms(1) b(1)] assms(2) by (simp add: unat_eq_0)
  then show False using binvD(2) [OF assms(1)] b by (auto simp: has_def)
qed

lemma booted_view:
  assumes "booted d p s"
  shows "locked s d = {}" and "view s d = disk s"
proof -
  have i: "binv d s" "sim d p s (store_of d s)" and r: "refs s d k = 0" for k
    using assms sim_store_of [of s p d] by (auto simp: booted_def)
  show "locked s d = {}" using locked_refs [OF i(1) r] by blast
  show "view s d = disk s" using sim_clean [OF i(2)] r by (auto simp: store_of_def)
qed

lemma initlog_recovers:
  assumes b: "booted d p r" and sp: "sb_logstart sp = lg_start l"
    and fits: "log_fits (head_log (disk r (lg_start l)) ((lg r)\<lparr>lg_start := lg_start l, lg_dev := d\<rparr>))"
  shows "runs (initlog d sp r) (\<lambda>u. \<forall>k \<in> - log_area l.
    disk u k = recovered (head_log (disk r (lg_start l)) ((lg r)\<lparr>lg_start := lg_start l, lg_dev := d\<rparr>)) (disk r) k)"
proof -
  let ?f = "\<lambda>x. x\<lparr>lg_start := sb_logstart sp, lg_dev := d\<rparr>"
  let ?l = "?f (lg r)"
  let ?A = "(store_of d r)\<lparr>a_log := ?l\<rparr>"
  have "sim d p r (store_of d r)" using b sim_store_of by (auto simp: booted_def)
  then have s: "sim d p (upd_log ?f r) ?A" using upd_log_sim(1) [of d p r "store_of d r" ?f] by (simp add: store_of_def)
  have f: "a_refs ?A = (\<lambda>_. 0)" "a_locked ?A = {}" "a_view ?A = disk r" "a_disk ?A = disk r"
    using booted_view [OF b] b by (simp_all add: store_of_def booted_def)
  have area: "log_area ?l = log_area l" by (simp add: log_area_def slot_no_def sp)
  have "home_copies k ?A = (\<lambda>i. (lg_block k i, disk r (slot_no k i)))" for k
    using f by (simp add: home_copies_def fun_eq_iff)
  then have "runs (recover_from_log (upd_log ?f r)) (\<lambda>u. \<forall>k \<in> - log_area l. disk u k = recovered (head_log (disk r (lg_start l)) ?l) (disk r) k)"
    using recover_sim [OF s refl _ f(1,2)] fits f(3,4) area sp by (simp add: Let_def recovered_def)
  then show ?thesis
    using sp by (simp add: initlog_def BSIZE_def LOGBLOCKS_def MAXOPBLOCKS_def)
qed

lemma commit_prefixes:
  assumes "j \<le> length (commit_writes l A)"
  obtains (before) "j \<le> nat (lg_n l)" and "take j (commit_writes l A) = map (log_copies l A) [0..<j]"
  | (during) m where "nat (lg_n l) < j" and "m \<le> nat (lg_n l)"
      and "take j (commit_writes l A) = map (log_copies l A) [0..<nat (lg_n l)]
        @ [(lg_start l, head_bytes l (a_view A (lg_start l)))] @ map (new_copies l A) [0..<m]"
  | (after) "nat (lg_n l) < j" and "take j (commit_writes l A) = commit_writes l A"
proof -
  let ?n = "nat (lg_n l)"
  have len: "length (commit_writes l A) = 2 * ?n + 2" by (simp add: commit_writes_def Let_def)
  consider "j \<le> ?n" | "?n < j" "j \<le> 2 * ?n + 1" | "j = 2 * ?n + 2" using assms len by linarith
  then show thesis
  proof cases
    case 1
    then show thesis by (intro before) (simp_all add: commit_writes_def Let_def take_map)
  next
    case 2
    then obtain m where m: "j = ?n + Suc m" "m \<le> ?n" using less_imp_Suc_add [of ?n j] by auto
    then show thesis by (intro during [of m]) (simp_all add: commit_writes_def Let_def take_map)
  next
    case 3
    then show thesis using len by (intro after) simp_all
  qed
qed

lemma write_all_commit:
  assumes l: "log_fits l" and k: "k \<notin> log_area l"
  shows "write_blocks (commit_writes l A) D k = (if k \<in> set (logged l) then a_view A k else D k)"
proof -
  have "k \<noteq> lg_start l" "k \<notin> fst ` set (map (log_copies l A) [0..<nat (lg_n l)])"
    using k slot_area(2) [of l] log_copies_keys(1) [OF l, of "nat (lg_n l)" A] by auto
  from write_blocks_other [OF this(2)] this(1) show ?thesis
    using write_new_copies [OF l] by (simp add: commit_writes_def Let_def write_blocks_append)
qed

lemma crash_recovers:
  assumes l: "log_fits l" and l0: "lg_start l0 = lg_start l" and v: "length (a_view A (lg_start l)) = BSIZE"
    and D: "get32 (D (lg_start l)) 0 = 0" and j: "j \<le> length (commit_writes l A)"
    and C: "C = write_blocks (take j (commit_writes l A)) D"
  shows "log_fits (head_log (C (lg_start l)) l0)"
    and "k \<notin> log_area l \<Longrightarrow> recovered (head_log (C (lg_start l)) l0) C k
      = (if j \<le> nat (lg_n l) \<or> k \<notin> set (logged l) then D k else a_view A k)"
proof -
  let ?n = "nat (lg_n l)"
  have fits: "area_fits l0" using l l0 by (simp add: log_fits_def area_fits_def)
  have "log_fits (head_log (C (lg_start l)) l0) \<and> (k \<notin> log_area l \<longrightarrow>
     recovered (head_log (C (lg_start l)) l0) C k = (if j \<le> ?n \<or> k \<notin> set (logged l) then D k else a_view A k))"
    using j
  proof (cases rule: commit_prefixes)
    case before
    note keys = log_copies_keys [OF l before(1)]
    have "get32 (C (lg_start l0)) 0 = 0"
      using write_blocks_other [OF keys(2)] D by (simp add: C before(2) l0)
    note n = recover_nothing [of l0 C, OF fits this]
    have "C k = D k" if "k \<notin> log_area l"
      using write_blocks_other [of k "map (log_copies l A) [0..<j]" D] keys(1) [of A] that by (auto simp: C before(2))
    then show ?thesis using n before(1) by (simp add: l0)
  next
    case (during m)
    note r = recover_all [OF l l0 v C [unfolded during(3)] during(2)]
    show ?thesis using r during(1) by (auto simp: l0)
  next
    case after
    let ?h = "head_bytes (l\<lparr>lg_n := 0\<rparr>) (head_bytes l (a_view A (lg_start l)))"
    have C': "C (lg_start l) = ?h"
      unfolding C after(2) by (simp add: commit_writes_def Let_def write_blocks_append)
    have "get32 (C (lg_start l0)) 0 = 0" using v by (simp add: C' l0 head_count)
    note n = recover_nothing [of l0 C, OF fits this]
    show ?thesis using n after(1) write_all_commit [OF l, of k A D] by (simp add: l0 C [unfolded after(2)])
  qed
  then show "log_fits (head_log (C (lg_start l)) l0)" and "k \<notin> log_area l \<Longrightarrow>
     recovered (head_log (C (lg_start l)) l0) C k = (if j \<le> ?n \<or> k \<notin> set (logged l) then D k else a_view A k)" by blast+
qed

lemma commit_returns:
  assumes "committable d p s" and "card {k. 0 < refs s d k} < NBUF"
  defines "ws \<equiv> commit_writes (lg s) (store_of d s)"
  shows "runs (commit s) (\<lambda>t. disk t = write_blocks ws (disk s) \<and> disk_writes t = disk_writes s @ ws
     \<and> lg t = (lg s)\<lparr>lg_n := 0\<rparr>)"
proof -
  let ?l = "lg s" and ?A = "store_of d s"
  have A: "a_refs ?A = refs s d" "a_locked ?A = locked s d" "a_disk ?A = disk s" "a_log ?A = ?l" "a_trace ?A = disk_writes s"
    by (simp_all add: store_of_def)
  have s: "sim d p s ?A" and l: "log_fits ?l" using assms(1) sim_store_of by (auto simp: committable_def)
  have idle: "area_idle ?l ?A" using assms(1) locked_refs [of d s] by (auto simp: committable_def area_idle_def A)
  have "runs (commit s) (\<lambda>t. sim d p t ((st_puts ws ?A)\<lparr>a_refs := drop_pins (set (logged ?l)) (refs s d), a_log := ?l\<lparr>lg_n := 0\<rparr>\<rparr>))"
    unfolding ws_def using commit_sim [OF s A(4) _ l _ idle] assms(1,2) by (simp add: committable_def in_use_def A)
  then show ?thesis by (rule runs_mono) (simp add: sim_def A)
qed

text \<open>C1.  The log makes transactions atomic.  When at least one buffer of the cache is free besides the ones that are in
  use, \<open>commit\<close> returns; it writes a sequence of blocks, and when the
  machine stops after any number of those writes and boots again, \<open>initlog\<close> returns and leaves every block outside
  the log area either as it was before the transaction (when the header was not yet written) or with the contents
  that the transaction gave it (from then on), never a mixture.\<close>

theorem commit_crash_safe:
  assumes "committable d p s" and room: "card {k. 0 < refs s d k} < NBUF"
  shows "runs (commit s) (\<lambda>t. \<exists>ws. disk_writes t = disk_writes s @ ws \<and> disk t = write_blocks ws (disk s)
     \<and> length ws = 2 * nat (lg_n (lg s)) + 2 \<and> lg_n (lg t) = 0 \<and> (\<forall>k \<in> - log_area (lg s). disk t k = after_commit d s k)
     \<and> (\<forall>j q r sp. j \<le> length ws \<longrightarrow> booted d q (r :: 'a log_state_scheme)
         \<longrightarrow> disk r = write_blocks (take j ws) (disk s) \<longrightarrow> sb_logstart sp = lg_start (lg s)
         \<longrightarrow> runs (initlog d sp r) (\<lambda>u. \<forall>k \<in> - log_area (lg s).
               disk u k = (if j \<le> nat (lg_n (lg s)) then disk s k else after_commit d s k))))"
proof -
  let ?l = "lg s" and ?A = "store_of d s"
  let ?ws = "commit_writes ?l ?A"
  have A: "a_view ?A = view s d" by (simp add: store_of_def)
  have s: "sim d p s ?A" and l: "log_fits ?l" and D: "get32 (disk s (lg_start ?l)) 0 = 0"
    using assms sim_store_of by (auto simp: committable_def)
  have v: "length (a_view ?A (lg_start ?l)) = BSIZE"
    using sim_clean [OF s, of "lg_start ?l"] assms(1) slot_area(2) [of ?l] by (simp add: committable_def store_of_def)
  obtain t where t: "commit s = Some t" "disk t = write_blocks ?ws (disk s)" "disk_writes t = disk_writes s @ ?ws"
      "lg t = ?l\<lparr>lg_n := 0\<rparr>"
    using commit_returns [OF assms] by (auto elim: runsE)
  note c = crash_recovers [where A = ?A and D = "disk s", OF l _ v D]
  have final: "disk t k = after_commit d s k" if "k \<notin> log_area ?l" for k
    using write_all_commit [OF l that, of ?A "disk s"] by (simp add: t(2) A after_commit_def)
  have crash: "runs (initlog d sp r) (\<lambda>u. \<forall>k \<in> - log_area ?l.
      disk u k = (if j \<le> nat (lg_n ?l) then disk s k else after_commit d s k))"
    if j: "j \<le> length ?ws" and b: "booted d q r" and r: "disk r = write_blocks (take j ?ws) (disk s)"
      and sp: "sb_logstart sp = lg_start ?l" for j q sp and r :: "'a log_state_scheme"
  proof -
    let ?m = "(lg r)\<lparr>lg_start := lg_start ?l, lg_dev := d\<rparr>"
    have m: "lg_start ?m = lg_start ?l" by simp
    show ?thesis
      by (rule runs_mono [OF initlog_recovers [OF b sp c(1) [OF m j r]]])
        (simp add: c(2) [OF m j r] A after_commit_def)
  qed
  have "length ?ws = 2 * nat (lg_n ?l) + 2" by (simp add: commit_writes_def Let_def)
  then show ?thesis using t final crash by auto
qed
text \<open>A transaction that has changed block 50, and the machine when it boots again.\<close>

definition demo_bufs :: "nat \<Rightarrow> buf" where
  "demo_bufs b = \<lparr>b_valid = (b = 0), b_disk = False, b_dev = (if b = 0 then 1 else 0), b_blockno = (if b = 0 then 50 else 0),
     b_refcnt = (if b = 0 then 1 else 0), b_prev = (if b = 0 then NBUF else b - 1), b_next = (if b = NBUF then 0 else b + 1),
     b_data = replicate BSIZE (if b = 0 then 7 else 0)\<rparr>"

definition demo_log :: log_state where
  "demo_log = \<lparr>held = {}, procs = demo_procs, pqueue = demo_queues, ticks_max = (\<lambda>l. 2 ^ (l + 1)),
     cpu_proc = (\<lambda>_. None)(0 := Some 0), tp = 0, initproc = Some 0, nextpid = 5, ticks = 128, last_mod128 = 0,
     mem = (\<lambda>_. 0), freelist = 0, ft_f = (\<lambda>_. free_frame),
     clock_p = 7, swap_mask = (\<lambda>_. 0), kernel_pagetable = 0, sym_end = 0x80020000,
     sym_etext = 0x80008000, sym_trampoline = 0x80007000,
     disk = (\<lambda>_. replicate BSIZE 0), disk_writes = [],
     slocks = (\<lambda>_. \<lparr>sl_locked = 0, sl_name = [], sl_pid = 0\<rparr>), bufs = demo_bufs,
     lg = \<lparr>lg_start = 2, lg_outstanding = 0, lg_committing = True, lg_dev = 1, lg_n = 1, lg_block = (\<lambda>_. 50)\<rparr>\<rparr>"

definition demo_boot :: "(uint_t \<Rightarrow> block) \<Rightarrow> log_state" where
  "demo_boot D = demo_log\<lparr>disk := D, bufs := (\<lambda>b. (demo_bufs b)\<lparr>b_valid := False, b_refcnt := 0\<rparr>)\<rparr>"

definition demo_sb :: superblock where
  "demo_sb = \<lparr>sb_magic = 0x10203040, sb_size = 2000, sb_nblocks = 1954, sb_ninodes = 200, sb_nlog = 31,
     sb_logstart = 2, sb_inodestart = 33, sb_bmapstart = 46\<rparr>"

lemma demo_lru: "lru demo_bufs [0..<NBUF]"
proof -
  have "seg (\<lambda>b. b_next (demo_bufs b)) (\<lambda>b. b_prev (demo_bufs b)) NBUF [0..<NBUF] NBUF"
    by (simp add: demo_bufs_def NBUF_def MAXOPBLOCKS_def upt_rec)
  then show ?thesis by (simp add: lru_def atLeast0LessThan)
qed

lemma demo_boot_lru: "lru (\<lambda>b. (demo_bufs b)\<lparr>b_valid := False, b_refcnt := 0\<rparr>) [0..<NBUF]"
  using demo_lru by (subst lru_cong [of _ demo_bufs]) simp_all

lemma demo_has: "has demo_log 1 k b \<longleftrightarrow> b = 0 \<and> k = 50" "has (demo_boot D) 1 k b \<longleftrightarrow> b = 0 \<and> k = 50"
  by (auto simp: has_def demo_log_def demo_boot_def demo_bufs_def NBUF_def MAXOPBLOCKS_def)

lemma demo_binv: "binv 1 demo_log" "binv 1 (demo_boot D)"
  unfolding binv_def demo_has using demo_lru demo_boot_lru
  by (auto simp: demo_log_def demo_boot_def demo_bufs_def)

lemma demo_refs: "refs demo_log 1 k = (if k = 50 then 1 else 0)" "refs (demo_boot D) 1 = (\<lambda>_. 0)"
proof -
  show "refs demo_log 1 k = (if k = 50 then 1 else 0)"
    using refs_has [OF demo_binv(1), of 50 0] not_cached [of demo_log 1 k] demo_has(1)
    by (cases "k = 50") (auto simp: demo_log_def demo_bufs_def)
  show "refs (demo_boot D) 1 = (\<lambda>_. 0)"
  proof
    fix k show "refs (demo_boot D) 1 k = 0"
      using refs_has [OF demo_binv(2) [of D], of 50 0] not_cached [of "demo_boot D" 1 k]
      by (cases "k = 50") (simp_all add: demo_has, simp add: demo_boot_def demo_bufs_def)
  qed
qed

lemma demo_log_sched: "held demo_log = {}" "sched_ok demo_log" "myproc demo_log = Some 0"
  using demo_ready by (simp_all add: demo_log_def sched_ok_def ready_exact_def myproc_def)

lemma demo_booted: "booted 1 0 (demo_boot D)"
  using demo_log_sched demo_binv(2) demo_refs(2)
  by (simp add: booted_def demo_boot_def sched_ok_def myproc_def)

lemma demo_fits: "log_fits (lg demo_log)" "50 \<notin> log_area (lg demo_log)" "logged (lg demo_log) = [50]"
proof -
  show l: "logged (lg demo_log) = [50]" by (simp add: logged_def demo_log_def)
  have "slot_no (lg demo_log) i \<noteq> 50" if "i < LOGBLOCKS" for i
  proof -
    have "area_fits (lg demo_log)" by (simp add: area_fits_def demo_log_def LOGBLOCKS_def MAXOPBLOCKS_def)
    from unat_slot [OF this that] that have "unat (slot_no (lg demo_log) i) < 33"
      by (simp add: demo_log_def LOGBLOCKS_def MAXOPBLOCKS_def)
    then show ?thesis by auto
  qed
  then show a: "50 \<notin> log_area (lg demo_log)" by (auto simp: log_area_def) (simp add: demo_log_def)
  show "log_fits (lg demo_log)"
    using a by (simp add: log_fits_def l) (simp add: area_fits_def demo_log_def LOGBLOCKS_def MAXOPBLOCKS_def)
qed

lemma demo_committable: "committable 1 0 demo_log" "card {k. 0 < refs demo_log 1 k} < NBUF"
proof -
  have r: "\<forall>k \<in> log_area (lg demo_log). refs demo_log 1 k = 0"
    using demo_fits(2) by (auto simp: demo_refs)
  have "{k. 0 < refs demo_log 1 k} = {50}" by (auto simp: demo_refs split: if_splits)
  then have c: "card {k. 0 < refs demo_log 1 k} < NBUF" by (simp add: NBUF_def MAXOPBLOCKS_def)
  show "card {k. 0 < refs demo_log 1 k} < NBUF" by (rule c)
  have "50 \<notin> locked demo_log 1" by (simp add: locked_def demo_has) (simp add: demo_log_def)
  then show "committable 1 0 demo_log"
    using demo_log_sched demo_binv(1) demo_fits r
    by (simp add: committable_def demo_refs) (simp add: demo_log_def BSIZE_def get32_def)
qed

theorem commit_crash_safe_witness:
  "committable 1 0 demo_log \<and> card {k. 0 < refs demo_log 1 k} < NBUF \<and> (\<exists>t ws. commit demo_log = Some t \<and> disk t = write_blocks ws (disk demo_log)
     \<and> disk t 50 = replicate BSIZE 7
     \<and> runs (initlog 1 demo_sb (demo_boot (write_blocks (take 1 ws) (disk demo_log)))) (\<lambda>u. disk u 50 = replicate BSIZE 0)
     \<and> runs (initlog 1 demo_sb (demo_boot (write_blocks (take 2 ws) (disk demo_log)))) (\<lambda>u. disk u 50 = replicate BSIZE 7))"
proof -
  let ?s = demo_log
  have v: "view ?s 1 50 = replicate BSIZE 7"
    using view_has [OF demo_binv(1), of 50 0] demo_has(1) by (simp add: demo_log_def demo_bufs_def)
  then have a: "after_commit 1 ?s 50 = replicate BSIZE 7" "disk ?s 50 = replicate BSIZE 0" "nat (lg_n (lg ?s)) = 1"
    "sb_logstart demo_sb = lg_start (lg ?s)"
    by (simp add: after_commit_def demo_fits) (simp_all add: demo_log_def demo_sb_def)
  obtain t where c: "commit ?s = Some t" "\<exists>ws. disk_writes t = disk_writes ?s @ ws \<and> disk t = write_blocks ws (disk ?s)
     \<and> length ws = 2 * 1 + 2 \<and> lg_n (lg t) = 0 \<and> (\<forall>k \<in> - log_area (lg ?s). disk t k = after_commit 1 ?s k)
     \<and> (\<forall>j q (r :: log_state) sp. j \<le> length ws \<longrightarrow> booted 1 q r
         \<longrightarrow> disk r = write_blocks (take j ws) (disk ?s) \<longrightarrow> sb_logstart sp = lg_start (lg ?s)
         \<longrightarrow> runs (initlog 1 sp r) (\<lambda>u. \<forall>k \<in> - log_area (lg ?s).
               disk u k = (if j \<le> 1 then disk ?s k else after_commit 1 ?s k)))"
    by (rule runsE [OF commit_crash_safe [OF demo_committable, unfolded a(3)]])
  then obtain ws where t: "disk t = write_blocks ws (disk ?s)" "length ws = 2 * 1 + 2"
      "\<forall>k \<in> - log_area (lg ?s). disk t k = after_commit 1 ?s k"
    and all: "\<forall>j q (r :: log_state) sp. j \<le> length ws \<longrightarrow> booted 1 q r
         \<longrightarrow> disk r = write_blocks (take j ws) (disk ?s) \<longrightarrow> sb_logstart sp = lg_start (lg ?s)
         \<longrightarrow> runs (initlog 1 sp r) (\<lambda>u. \<forall>k \<in> - log_area (lg ?s).
               disk u k = (if j \<le> 1 then disk ?s k else after_commit 1 ?s k))"
    by blast
  note crash = all [rule_format, OF _ _ _ a(4)]
  have d: "disk (demo_boot D) = D" for D by (simp add: demo_boot_def)
  have "runs (initlog 1 demo_sb (demo_boot (write_blocks (take 1 ws) (disk ?s)))) (\<lambda>u. disk u 50 = replicate BSIZE 0)"
    by (rule runs_mono [OF crash [OF _ demo_booted d]]) (use t(2) demo_fits(2) a in auto)
  moreover have "runs (initlog 1 demo_sb (demo_boot (write_blocks (take 2 ws) (disk ?s)))) (\<lambda>u. disk u 50 = replicate BSIZE 7)"
    by (rule runs_mono [OF crash [OF _ demo_booted d]]) (use t(2) demo_fits(2) a in auto)
  ultimately show ?thesis using c(1) t demo_committable demo_fits(2) a(1) by auto
qed

section \<open>Reading, writing and running out of buffers\<close>

text \<open>C23.  Blocks read back as written.  After a block has been read, changed, written and released, reading it
  again yields the new contents, and reading any other block yields what it held before; the disk has the
  change too.\<close>

theorem bread_after_bwrite:
  assumes s: "sim d p s A" and k: "k \<notin> a_locked A" "k' \<notin> a_locked A"
    and r: "a_refs A k + 1 < 2 ^ 32" "a_refs A k' + 1 < 2 ^ 32" and room: "in_use A < NBUF"
  shows "runs (do { (b, s) \<leftarrow> bread d k s;
                    s \<leftarrow> bwrite b (upd_buf b (\<lambda>x. x\<lparr>b_data := v\<rparr>) s);
                    s \<leftarrow> brelse b s;
                    (c, s) \<leftarrow> bread d k' s;
                    Some (b_data (bufs s c), disk s) })
    (\<lambda>(w, D). w = (if k' = k then v else a_view A k') \<and> D = (a_disk A)(k := v))"
proof -
  have "st_readable k A" using k r room by (simp add: st_readable_def in_use_def)
  then obtain b t where b: "bread d k s = Some (b, t)" "sim d p t (st_grab k A)" "mine d p t k b"
    using bc.rd [OF s] by blast
  let ?G = "st_grab k A"
  obtain u where u: "Option.bind (bwrite b (upd_buf b (\<lambda>x. x\<lparr>b_data := v\<rparr>) t)) (brelse b) = Some u"
      "sim d p u ((st_put k v ?G)\<lparr>a_refs := (a_refs ?G)(k := a_refs ?G k - 1), a_locked := a_locked ?G - {k}\<rparr>)"
    using bc.write_back [OF b(2,3), of v] by (auto simp: st_grab_def)
  have "(st_put k v ?G)\<lparr>a_refs := (a_refs ?G)(k := a_refs ?G k - 1), a_locked := a_locked ?G - {k}\<rparr> = st_put k v A"
    using k(1) by (intro store.equality) (auto simp: store_ops fun_eq_iff)
  with u have u': "sim d p u (st_put k v A)" by simp
  have "st_readable k' (st_put k v A)" using k r room by (simp add: st_readable_def in_use_def st_put_def)
  then obtain c w where c: "bread d k' u = Some (c, w)" "sim d p w (st_grab k' (st_put k v A))" "mine d p w k' c"
    using bc.rd [OF u'] by blast
  have "b_data (bufs w c) = (if k' = k then v else a_view A k')" "disk w = (a_disk A)(k := v)"
    using bc.data [OF c(2,3)] c(2) by (simp_all add: sim_def st_grab_def st_put_def)
  moreover obtain t' where "bwrite b (upd_buf b (\<lambda>x. x\<lparr>b_data := v\<rparr>) t) = Some t'" "brelse b t' = Some u"
    using u(1) by (rule bind_Some_E)
  ultimately show ?thesis using b(1) c(1) by simp
qed

theorem bread_after_bwrite_witness:
  "sim 1 0 demo_log (store_of 1 demo_log) \<and>
   runs (do { (b, s) \<leftarrow> bread 1 60 demo_log;
              s \<leftarrow> bwrite b (upd_buf b (\<lambda>x. x\<lparr>b_data := [1, 2]\<rparr>) s);
              s \<leftarrow> brelse b s;
              (c, s) \<leftarrow> bread 1 50 s;
              Some (b_data (bufs s c), disk s) })
    (\<lambda>(w, D). w = replicate BSIZE 7 \<and> D = (disk demo_log)(60 := [1, 2]))"
proof -
  have s: "sim 1 0 demo_log (store_of 1 demo_log)" using sim_store_of [OF demo_log_sched demo_binv(1)] .
  have v: "view demo_log 1 50 = replicate BSIZE 7"
    using view_has [OF demo_binv(1), of 50 0] demo_has(1) by (simp add: demo_log_def demo_bufs_def)
  have l: "a_locked (store_of 1 demo_log) = {}" by (simp add: store_of_def locked_def demo_has) (simp add: demo_log_def)
  have a: "a_refs (store_of 1 demo_log) = refs demo_log 1" "a_view (store_of 1 demo_log) = view demo_log 1"
      "a_disk (store_of 1 demo_log) = disk demo_log" by (simp_all add: store_of_def)
  have "in_use (store_of 1 demo_log) < NBUF"
    using demo_committable(2) by (simp add: in_use_def a)
  then show ?thesis
    using bread_after_bwrite [OF s, of 60 50 "[1, 2]"] s l v by (simp add: a demo_refs)
qed

text \<open>The cache has no room when every buffer is in use.\<close>

lemma bread_full:
  assumes "held s = {}" and "binv d s" and "\<forall>c. \<not> has s d k c" and "\<forall>b < NBUF. b_refcnt (bufs s b) \<noteq> 0"
  shows "bread d k s = None"
proof -
  obtain xs where xs: "lru (bufs s) xs" using assms(2) by (auto simp: binv_def)
  then have sg: "seg (\<lambda>b. b_next (bufs s b)) (\<lambda>b. b_prev (bufs s b)) NBUF xs NBUF" "NBUF \<notin> set xs"
    by (auto simp: lru_def)
  let ?s = "s\<lparr>held := {BcacheLock}\<rparr>"
  let ?Q = "\<lambda>b. b_dev (bufs s b) = d \<and> b_blockno (bufs s b) = k"
  have "find ?Q xs = None" using find_lru(1) [OF xs, of ?Q] assms(3) by (simp add: has_def)
  then have c: "bget_cached d k (b_next (bufs s NBUF)) ?s = Some None"
    using bget_cached_find [of ?s NBUF xs d k] sg by simp
  have "find (\<lambda>b. b_refcnt (bufs s b) = 0) (rev xs) = None" using find_lru(3) [OF xs] assms(4) by blast
  then have f: "bget_free (b_prev (bufs s NBUF)) ?s = Some None"
    using bget_free_find [of ?s xs NBUF] sg by simp
  show ?thesis using assms(1) c f by (simp add: bread_def bget_def acq_def)
qed

lemma no_room:
  assumes "binv d s" and "\<not> card {k. 0 < refs s d k} < NBUF" and "b < NBUF"
  shows "b_refcnt (bufs s b) \<noteq> 0"
proof (rule ccontr)
  assume b: "\<not> b_refcnt (bufs s b) \<noteq> 0"
  have "{k. 0 < refs s d k} \<subseteq> (\<lambda>c. b_blockno (bufs s c)) ` ({..<NBUF} - {b})"
  proof
    fix k assume "k \<in> {k. 0 < refs s d k}"
    then obtain c where "cached_at s d k = Some c" "0 < unat (b_refcnt (bufs s c))" by (auto simp: refs_def split: option.splits)
    then have "has s d k c" "c \<noteq> b" using cached_at_iff [OF assms(1)] b by auto
    then show "k \<in> (\<lambda>c. b_blockno (bufs s c)) ` ({..<NBUF} - {b})" by (auto simp: has_def)
  qed
  then have "card {k. 0 < refs s d k} \<le> card ((\<lambda>c. b_blockno (bufs s c)) ` ({..<NBUF} - {b}))" by (intro card_mono) auto
  also have "\<dots> \<le> card ({..<NBUF} - {b})" by (rule card_image_le) simp
  also have "\<dots> < NBUF" using assms(3) by simp
  finally show False using assms(2) by simp
qed

text \<open>C25.  \<open>commit\<close> needs a free buffer.  For a transaction that is ready to be committed, \<open>commit\<close> returns exactly when
  fewer than \<open>NBUF\<close> blocks are in use.  The cache has as many buffers as the log has slots, so a transaction that fills the log
  leaves none: then \<open>bget\<close> finds no buffer for the first log block and \<open>commit\<close> does not return.\<close>

theorem commit_returns_iff:
  assumes "committable d p s"
  shows "(\<exists>t. commit s = Some t) \<longleftrightarrow> card {k. 0 < refs s d k} < NBUF"
proof
  assume "card {k. 0 < refs s d k} < NBUF"
  then show "\<exists>t. commit s = Some t" using commit_returns [OF assms] by (auto elim: runsE)
next
  have a: "held s = {}" "binv d s" "lg_dev (lg s) = d" "0 < lg_n (lg s)" "\<forall>k \<in> log_area (lg s). refs s d k = 0"
    using assms by (simp_all add: committable_def)
  have "0 < LOGBLOCKS" by (simp add: LOGBLOCKS_def MAXOPBLOCKS_def)
  then have z: "refs s d (slot_no (lg s) 0) = 0" using a(5) slot_area by blast
  show "card {k. 0 < refs s d k} < NBUF" if "\<exists>t. commit s = Some t"
  proof (rule ccontr)
    assume "\<not> card {k. 0 < refs s d k} < NBUF"
    then have full: "\<forall>b < NBUF. b_refcnt (bufs s b) \<noteq> 0" using no_room [OF a(2)] by blast
    have "\<not> has s d (slot_no (lg s) 0) c" for c
      using z full cached_at_iff [OF a(2), of "slot_no (lg s) 0" c] by (auto simp: refs_def has_def unat_eq_0)
    then have "bread d (slot_no (lg s) 0) s = None" using bread_full [OF a(1,2)] full by blast
    then have "write_log_block 0 s = None"
      using write_log_block_eq [OF \<open>0 < LOGBLOCKS\<close> a(3)] by simp
    moreover have "[0..<nat (lg_n (lg s))] = 0 # [1..<nat (lg_n (lg s))]" using a(4) upt_conv_Cons [of 0] by simp
    ultimately have "write_log s = None" unfolding write_log_def by (simp only: for_each.simps bind.simps)
    then show False using a(4) that by (simp add: commit_def)
  qed
qed

definition demo_full_bufs :: "nat \<Rightarrow> buf" where
  "demo_full_bufs b = (demo_bufs b)\<lparr>b_valid := True, b_dev := 1, b_blockno := 50 + of_nat b, b_refcnt := 1\<rparr>"

definition demo_full :: log_state where
  "demo_full = demo_log\<lparr>bufs := demo_full_bufs, lg := (lg demo_log)\<lparr>lg_n := 30, lg_block := (\<lambda>i. 50 + of_nat i)\<rparr>\<rparr>"

lemma demo_full_nos: "i < 30 \<Longrightarrow> unat (50 + of_nat i :: uint_t) = 50 + i"
proof -
  assume i: "i < 30"
  have "(50 + of_nat i :: uint_t) = of_nat (50 + i)" by simp
  moreover have "unat (of_nat (50 + i) :: uint_t) = 50 + i" using i by (simp only: unat_of_nat take_bit_eq_mod) simp
  ultimately show ?thesis by simp
qed

lemma demo_full_inj: "i < 30 \<Longrightarrow> j < 30 \<Longrightarrow> (50 + of_nat i :: uint_t) = 50 + of_nat j \<Longrightarrow> i = j"
  by (metis demo_full_nos add_left_cancel)

lemma demo_full_ok:
  "binv 1 demo_full" "log_fits (lg demo_full)"
proof -
  have N: "NBUF = 30" "LOGBLOCKS = 30" by (simp_all add: NBUF_def LOGBLOCKS_def MAXOPBLOCKS_def)
  have "lru demo_full_bufs [0..<NBUF]" using demo_lru by (subst lru_cong [of _ demo_bufs]) (simp_all add: demo_full_bufs_def)
  moreover have h: "has demo_full 1 k b \<longleftrightarrow> b < 30 \<and> k = 50 + of_nat b" for k b
    by (auto simp: has_def demo_full_def demo_full_bufs_def N)
  ultimately show "binv 1 demo_full"
    unfolding binv_def h using demo_full_inj by (auto simp: demo_full_def demo_full_bufs_def)
  have g: "logged (lg demo_full) = map (\<lambda>i. 50 + of_nat i) [0..<30]" by (simp add: logged_def demo_full_def)
  have fit: "area_fits (lg demo_full)" by (simp add: area_fits_def demo_full_def demo_log_def N)
  have "unat k \<le> 32" if "k \<in> log_area (lg demo_full)" for k
  proof -
    have st: "lg_start (lg demo_full) = 2" by (simp add: demo_full_def demo_log_def)
    from that consider "k = 2" | i where "i < 30" "k = slot_no (lg demo_full) i" unfolding log_area_def st N by blast
    then show ?thesis by cases (use unat_slot [OF fit, unfolded N st] in simp_all)
  qed
  moreover have "\<not> unat k \<le> 32" if "k \<in> set (logged (lg demo_full))" for k
  proof -
    from that obtain i where "i < 30" "k = 50 + of_nat i" unfolding g by auto
    then show ?thesis using demo_full_nos [of i] by simp
  qed
  ultimately have "set (logged (lg demo_full)) \<inter> log_area (lg demo_full) = {}" by blast
  moreover have "distinct (logged (lg demo_full))"
    unfolding g using demo_full_inj by (auto simp: distinct_map inj_on_def)
  ultimately show "log_fits (lg demo_full)" using fit by (simp add: log_fits_def N) (simp add: demo_full_def)
qed

lemma demo_full_committable: "committable 1 0 demo_full" "\<not> card {k. 0 < refs demo_full 1 k} < NBUF"
proof -
  have N: "NBUF = 30" by (simp add: NBUF_def MAXOPBLOCKS_def)
  have h: "has demo_full 1 k b \<longleftrightarrow> b < 30 \<and> k = 50 + of_nat b" for k b
    by (auto simp: has_def demo_full_def demo_full_bufs_def N)
  have r: "refs demo_full 1 k = (if \<exists>b < 30. k = 50 + of_nat b then 1 else 0)" for k
  proof (cases "\<exists>b < 30. k = 50 + of_nat b")
    case True
    then obtain b where b: "b < 30" "k = 50 + of_nat b" by blast
    then show ?thesis using True refs_has [OF demo_full_ok(1), of k b] h by (simp add: demo_full_def demo_full_bufs_def)
  next
    case False
    then show ?thesis using not_cached [of demo_full 1 k] h by auto
  qed
  have g: "k \<in> set (logged (lg demo_full)) \<longleftrightarrow> (\<exists>b < 30. k = 50 + of_nat b)" for k
    by (auto simp: logged_def demo_full_def)
  have "{k. 0 < refs demo_full 1 k} = (\<lambda>b. 50 + of_nat b) ` {..<30}" by (auto simp: r split: if_splits)
  moreover have "inj_on (\<lambda>b. 50 + of_nat b :: uint_t) {..<30}" using demo_full_inj by (auto simp: inj_on_def)
  ultimately show "\<not> card {k. 0 < refs demo_full 1 k} < NBUF" by (simp add: card_image N)
  have "locked demo_full 1 = {}" by (simp add: locked_def demo_full_def demo_log_def)
  moreover have "\<forall>k \<in> log_area (lg demo_full). refs demo_full 1 k = 0"
    using demo_full_ok(2) g by (auto simp: r log_fits_def)
  moreover have "held demo_full = {}" "sched_ok demo_full" "myproc demo_full = Some 0"
    using demo_log_sched by (simp_all add: demo_full_def sched_ok_def myproc_def)
  ultimately show "committable 1 0 demo_full"
    using demo_full_ok(1,2) g
    by (simp add: committable_def r) (simp add: demo_full_def demo_log_def BSIZE_def get32_def)
qed

theorem commit_returns_iff_witness:
  "committable 1 0 demo_log \<and> (\<exists>t. commit demo_log = Some t) \<and> committable 1 0 demo_full \<and> \<not> (\<exists>t. commit demo_full = Some t)"
  using commit_returns_iff [OF demo_committable(1)] commit_returns_iff [OF demo_full_committable(1)]
    demo_committable demo_full_committable by simp

end
