(* ===== verification/Inode.thy ===== *)
theory Inode
  imports Journal
begin

text \<open>
  Inodes between memory and disk (\<^verbatim>\<open>kernel/fs.c\<close>: \<open>iupdate\<close>, \<open>ilock\<close>), over the contract of the buffer cache and
  the log of theory \<open>Journal\<close>.
\<close>

section \<open>Calls on the cache keep the inode table\<close>

lemma acquiresleep_fs: "acquiresleep l s = Some t \<Longrightarrow> itable t = itable s \<and> sb t = sb s"
  unfolding acquiresleep_def acq_def rel_def Let_def check_def bind_eq_Some_conv
  by (clarsimp split: if_splits simp: upd_slock_def)

lemma acq_fs: "acq l s = Some t \<Longrightarrow> itable t = itable s \<and> sb t = sb s" "rel l s = Some t \<Longrightarrow> itable t = itable s \<and> sb t = sb s"
  by (auto simp: acq_def rel_def split: if_splits)

lemma upd_buf_fs [simp]: "itable (upd_buf b f s) = itable s" "sb (upd_buf b f s) = sb s"
    "itable (upd_slock l g s) = itable s" "sb (upd_slock l g s) = sb s"
  by (simp_all add: upd_buf_def upd_slock_def)

lemma bread_fs: "bread d k s = Some (b, t) \<Longrightarrow> itable t = itable s \<and> sb t = sb s"
  by (auto simp: bread_def bget_def Let_def virtio_disk_rw_def split: prod.splits option.splits if_splits
      elim!: bind_Some_E dest!: acq_fs acquiresleep_fs)

lemma fold_make_ready_fs [simp]: "itable (fold make_ready ps s) = itable s" "sb (fold make_ready ps s) = sb s"
proof -
  have "itable (make_ready p s) = itable s" "sb (make_ready p s) = sb s" for p and s :: "'a fs_state_scheme"
    by (simp_all add: make_ready_def upd_proc_def upd_queue_def)
  then show "itable (fold make_ready ps s) = itable s" "sb (fold make_ready ps s) = sb s"
    by (induction ps arbitrary: s) simp_all
qed

lemma brelse_fs:
  assumes "sim d p s A" and "mine d p s k b" and "brelse b s = Some t"
  shows "itable t = itable s \<and> sb t = sb s"
proof -
  obtain ps where "brelse b s = Some ((fold make_ready ps (upd_slock (BufLock b) (\<lambda>k. k\<lparr>sl_locked := 0, sl_pid := 0\<rparr>) s))
      \<lparr>bufs := brelse_bufs b (bufs s), held := {}\<rparr>)"
    using brelse_eq [of s p b] assms(1,2) by (auto simp: sim_def mine_def)
  then show ?thesis using assms(3) by auto
qed

text \<open>The cache looks neither at the inode table, nor at the locks of inodes, nor at the log.\<close>

definition same_cache :: "'a log_state_scheme \<Rightarrow> 'b log_state_scheme \<Rightarrow> bool" where
  "same_cache s t \<longleftrightarrow> held t = held s \<and> procs t = procs s \<and> pqueue t = pqueue s \<and> cpu_proc t = cpu_proc s \<and> tp t = tp s
   \<and> bufs t = bufs s \<and> disk t = disk s \<and> disk_writes t = disk_writes s
   \<and> (\<forall>b. slocks t (BufLock b) = slocks s (BufLock b))"

lemma same_cache_sim:
  assumes "same_cache s t"
  shows "sim d p s A \<Longrightarrow> sim d p t (A\<lparr>a_log := lg t\<rparr>)" and "mine d p t k b = mine d p s k b"
proof -
  note e = assms [unfolded same_cache_def]
  have h: "has t = has s" using e by (simp add: has_def fun_eq_iff)
  have c: "cached_at t = cached_at s" using e by (simp add: cached_at_def fun_eq_iff)
  have "view t = view s" "refs t = refs s" "locked t = locked s"
    by (intro ext; simp add: view_def refs_def locked_def h c e split: option.splits)+
  moreover have "binv d t = binv d s" using e by (simp add: binv_def h)
  ultimately show "sim d p s A \<Longrightarrow> sim d p t (A\<lparr>a_log := lg t\<rparr>)"
    using e by (auto simp: sim_def sched_ok_def myproc_def)
  show "mine d p t k b = mine d p s k b" using e by (simp add: mine_def h)
qed

lemma same_log_sim:
  assumes "same_cache s t" and "lg t = lg s" and "sim d p s A"
  shows "sim d p t A"
proof -
  have "A\<lparr>a_log := lg t\<rparr> = A" using assms(2,3) by (simp add: sim_def)
  then show ?thesis using same_cache_sim(1) [OF assms(1,3)] by simp
qed

section \<open>Logging a block\<close>

definition noted :: "uint_t \<Rightarrow> log \<Rightarrow> log" where
  "noted k l = (if k \<in> set (logged l) then l else l\<lparr>lg_block := (lg_block l)(nat (lg_n l) := k), lg_n := lg_n l + 1\<rparr>)"

definition st_note :: "uint_t \<Rightarrow> store \<Rightarrow> store" where
  "st_note k A = A\<lparr>a_refs := (a_refs A)(k := (if k \<in> set (logged (a_log A)) then a_refs A k else a_refs A k + 1)),
     a_log := noted k (a_log A)\<rparr>"

lemma log_slot_cases:
  assumes "0 \<le> lg_n l"
  shows "int (log_slot k l) = lg_n l \<longleftrightarrow> k \<notin> set (logged l)"
    and "k \<in> set (logged l) \<Longrightarrow> (lg_block l)(log_slot k l := k) = lg_block l"
proof -
  show "int (log_slot k l) = lg_n l \<longleftrightarrow> k \<notin> set (logged l)"
    using assms by (auto simp: log_slot_def logged_def find_None_iff find_Some_iff split: option.splits)
  show "(lg_block l)(log_slot k l := k) = lg_block l" if "k \<in> set (logged l)"
    using that by (auto simp: log_slot_def logged_def find_None_iff find_Some_iff fun_upd_idem split: option.splits)
qed

lemma log_write_eq:
  assumes "held s = {}" and "0 \<le> lg_n (lg s)" and "lg_n (lg s) < int LOGBLOCKS" and "1 \<le> lg_outstanding (lg s)"
    and k: "b_blockno (bufs s b) = k"
  shows "log_write b s = Some (if k \<in> set (logged (lg s)) then s
     else upd_buf b (\<lambda>x. x\<lparr>b_refcnt := b_refcnt x + 1\<rparr>) (s\<lparr>lg := noted k (lg s)\<rparr>))"
proof (cases "k \<in> set (logged (lg s))")
  case True
  have "s\<lparr>lg := (lg s)\<lparr>lg_block := lg_block (lg s)\<rparr>\<rparr> = s" by simp
  then show ?thesis using assms True log_slot_cases [OF assms(2), of k]
    by (simp add: log_write_def acq_def rel_def upd_log_def Let_def)
next
  case False
  then have "log_slot k (lg s) = nat (lg_n (lg s))" using log_slot_cases(1) [OF assms(2), of k] by simp
  then show ?thesis using assms False
    by (simp add: log_write_def acq_def rel_def upd_log_def Let_def bpin_def upd_buf_def noted_def insert_Diff_if)
qed

lemma log_write_sim:
  assumes "sim d p s A" and "mine d p s k b" and "0 \<le> lg_n (a_log A)" and "lg_n (a_log A) < int LOGBLOCKS"
    and "1 \<le> lg_outstanding (a_log A)" and "a_refs A k + 1 < 2 ^ 32"
  shows "\<exists>t. log_write b s = Some t \<and> sim d p t (st_note k A) \<and> mine d p t k b"
proof -
  have l: "lg s = a_log A" "held s = {}" and k: "b_blockno (bufs s b) = k"
    using assms(1) mine_block [OF assms(2)] by (auto simp: sim_def)
  note eq = log_write_eq [OF l(2), of b k, unfolded l(1), OF assms(3-5) k]
  show ?thesis
  proof (cases "k \<in> set (logged (a_log A))")
    case True
    then have "st_note k A = A" by (simp add: st_note_def noted_def)
    then show ?thesis using eq True assms(1,2) by simp
  next
    case False
    let ?s = "s\<lparr>lg := noted k (a_log A)\<rparr>" and ?f = "\<lambda>x. x\<lparr>b_refcnt := b_refcnt x + 1\<rparr>"
    have 1: "sim d p ?s (A\<lparr>a_log := noted k (a_log A)\<rparr>)" "mine d p ?s k b"
      using same_cache_sim [of s ?s] assms(1,2) by (auto simp: same_cache_def)
    have r: "unat (b_refcnt (bufs s b)) = a_refs A k" by (rule mine_refs [OF assms(1,2)])
    then have r1: "unat (b_refcnt (bufs s b) + 1) = a_refs A k + 1" using assms(6) by (simp add: unat_word_ariths)
    then have nz: "b_refcnt (bufs s b) + 1 \<noteq> 0" by auto
    have m: "b_dev (bufs s b) = d" "b_valid (bufs s b)" "b_data (bufs s b) = a_view A k"
      using assms(2) mine_data [OF assms(1,2)] by (auto simp: mine_def has_def)
    note u = upd_sim [OF 1, of ?f]
    have st: "st_note k A = A\<lparr>a_log := noted k (a_log A), a_refs := (a_refs A)(k := a_refs A k + 1)\<rparr>"
      using False by (simp add: st_note_def)
    have "sim d p (upd_buf b ?f ?s) (st_note k A)"
      unfolding st using u(1) k m r1 nz by (simp add: fun_upd_idem)
    moreover have "mine d p (upd_buf b ?f ?s) k b" using u(2) [OF _ _ _ _ _ _ 1(2)] k m nz by simp
    ultimately show ?thesis using eq False by simp
  qed
qed

lemma log_write_fs:
  assumes "held s = {}" and "0 \<le> lg_n (lg s)" and "lg_n (lg s) < int LOGBLOCKS" and "1 \<le> lg_outstanding (lg s)"
    and "log_write b s = Some t"
  shows "itable t = itable s \<and> sb t = sb s"
  using log_write_eq [OF assms(1-4) refl] assms(5) by (auto split: if_splits)

section \<open>Inodes on disk and in memory\<close>

definition dinode_of :: "inode \<Rightarrow> dinode" where
  "dinode_of x = \<lparr>di_type = i_type x, di_major = i_major x, di_minor = i_minor x, di_nlink = i_nlink x,
     di_size = i_size x, di_addrs = i_addrs x\<rparr>"

text \<open>What \<open>iupdate\<close> does to the store: the block with the inode, noted in the log and pinned.\<close>

definition st_iupdate :: "uint_t \<Rightarrow> inode \<Rightarrow> store \<Rightarrow> store" where
  "st_iupdate k x A = st_note k (st_fill k (put_dinode (dinode_off (i_inum x)) (dinode_of x) (a_view A k)) A)"

definition loggable :: "uint_t \<Rightarrow> store \<Rightarrow> bool" where
  "loggable k A \<longleftrightarrow> k \<notin> a_locked A \<and> a_refs A k + 2 < 2 ^ 32 \<and> in_use A < NBUF
   \<and> 0 \<le> lg_n (a_log A) \<and> lg_n (a_log A) < int LOGBLOCKS \<and> 1 \<le> lg_outstanding (a_log A)
   \<and> (k \<in> set (logged (a_log A)) \<longrightarrow> 0 < a_refs A k)"

lemma iupdate_sim:
  assumes s: "sim (i_dev (itable s ip)) p s A" and k: "k = IBLOCK (i_inum (itable s ip)) (sb s)" and l: "loggable k A"
  obtains t where "iupdate ip s = Some t" and "sim (i_dev (itable s ip)) p t (st_iupdate k (itable s ip) A)"
    and "itable t = itable s" and "sb t = sb s"
proof -
  let ?x = "itable s ip" let ?d = "i_dev ?x"
  let ?v = "put_dinode (dinode_off (i_inum ?x)) (dinode_of ?x) (a_view A k)"
  have "st_readable k A" using l by (simp add: loggable_def st_readable_def in_use_def)
  then obtain b t where b: "bread ?d k s = Some (b, t)" "sim ?d p t (st_grab k A)" "mine ?d p t k b"
    using bc.rd [OF s] by blast
  have v: "b_data (bufs t b) = a_view A k" using bc.data [OF b(2,3)] by (simp add: st_grab_def)
  let ?B = "st_fill k ?v (st_grab k A)"
  have 1: "sim ?d p (set_data b ?v t) ?B" "mine ?d p (set_data b ?v t) k b"
    using bc.set_data [OF b(2,3), of ?v] b(3) by (simp_all add: set_data_def)
  have lg: "0 \<le> lg_n (a_log ?B)" "lg_n (a_log ?B) < int LOGBLOCKS" "1 \<le> lg_outstanding (a_log ?B)" "a_refs ?B k + 1 < 2 ^ 32"
    using l by (simp_all add: loggable_def store_ops)
  obtain u where u: "log_write b (set_data b ?v t) = Some u" "sim ?d p u (st_note k ?B)" "mine ?d p u k b"
    using log_write_sim [OF 1 lg] by blast
  have "2 \<le> a_refs (st_note k ?B) k" using l by (auto simp: loggable_def st_note_def store_ops)
  then obtain w where w: "brelse b u = Some w" "sim ?d p w (st_drop k (st_note k ?B))"
    using bc.rls [OF u(2,3)] by blast
  have st: "st_drop k (st_note k ?B) = st_iupdate k ?x A"
    using l by (intro store.equality) (auto simp: loggable_def st_iupdate_def st_note_def store_ops fun_eq_iff)
  have e: "iupdate ip s = Some w"
    using b(1) u(1) w(1) v k by (simp add: iupdate_def Let_def dinode_of_def)
  have "lg (set_data b ?v t) = a_log ?B" "held (set_data b ?v t) = {}" using 1(1) by (simp_all add: sim_def)
  then have "itable u = itable (set_data b ?v t) \<and> sb u = sb (set_data b ?v t)" using log_write_fs [OF _ _ _ _ u(1)] lg by simp
  then have "itable w = itable s" "sb w = sb s"
    using bread_fs [OF b(1)] brelse_fs [OF u(2,3) w(1)] by (simp_all add: set_data_def)
  then show thesis using that e w(2) st by simp
qed

definition inode_read :: "dinode \<Rightarrow> inode \<Rightarrow> inode" where
  "inode_read di y = y\<lparr>i_valid := True, i_type := di_type di, i_major := di_major di, i_minor := di_minor di,
     i_nlink := di_nlink di, i_size := di_size di, i_addrs := (\<lambda>i. if i \<le> NDIRECT then di_addrs di i else i_addrs y i)\<rparr>"

lemma ilock_sim:
  fixes s :: "'a fs_state_scheme"
  assumes s: "sim d p s A" and y: "itable s ip = y" "i_dev y = d" "1 \<le> i_ref y" "\<not> i_valid y"
    and free: "sl_locked (slocks s (InodeLock ip)) = 0" and k: "k = IBLOCK (i_inum y) (sb s)" and r: "st_readable k A"
    and pin: "0 < a_refs A k" and tp: "di_type (get_dinode (a_view A k) (dinode_off (i_inum y))) \<noteq> 0"
  obtains t where "ilock ip s = Some t" and "sim d p t A"
    and "itable t ip = inode_read (get_dinode (a_view A k) (dinode_off (i_inum y))) y"
proof -
  let ?di = "get_dinode (a_view A k) (dinode_off (i_inum y))"
  let ?a = "upd_slock (InodeLock ip) (\<lambda>k. k\<lparr>sl_locked := 1, sl_pid := p_pid (procs s p)\<rparr>) s"
  have a: "acquiresleep (InodeLock ip) s = Some ?a"
    by (rule acquiresleep_eq) (use s free in \<open>simp_all add: sim_def\<close>)
  have "same_cache s ?a" by (simp add: same_cache_def upd_slock_def)
  then have sa: "sim d p ?a A" by (rule same_log_sim) (use s in simp_all)
  obtain b t where b: "bread d k ?a = Some (b, t)" "sim d p t (st_grab k A)" "mine d p t k b"
    using bc.rd [OF sa r] by blast
  have v: "b_data (bufs t b) = a_view A k" using bc.data [OF b(2,3)] by (simp add: st_grab_def)
  have it: "itable t = itable s" "sb t = sb s" using bread_fs [OF b(1)] by simp_all
  let ?g = "\<lambda>x. x\<lparr>i_type := di_type ?di, i_major := di_major ?di, i_minor := di_minor ?di, i_nlink := di_nlink ?di,
      i_size := di_size ?di, i_addrs := (\<lambda>i. if i \<le> NDIRECT then di_addrs ?di i else i_addrs x i)\<rparr>"
  let ?u = "upd_inode ip ?g t"
  have c: "same_cache t ?u" "lg ?u = lg t" by (simp_all add: same_cache_def upd_inode_def)
  have 2: "sim d p ?u (st_grab k A)" "mine d p ?u k b"
    using same_log_sim [OF c b(2)] same_cache_sim(2) [OF c(1)] b(3) by simp_all
  have "2 \<le> a_refs (st_grab k A) k" using pin by (simp add: st_grab_def)
  then obtain w where w: "brelse b ?u = Some w" "sim d p w (st_drop k (st_grab k A))"
    using bc.rls [OF 2] by blast
  have "st_drop k (st_grab k A) = A"
    using r by (intro store.equality) (auto simp: st_readable_def store_ops)
  with w have sw: "sim d p w A" by simp
  let ?z = "upd_inode ip (\<lambda>x. x\<lparr>i_valid := True\<rparr>) w"
  have ty: "itable t ip = y" using it y(1) by simp
  have iw: "itable w ip = ?g y" using brelse_fs [OF 2 w(1)] by (simp add: upd_inode_def ty cong: if_cong)
  have "same_cache w ?z" "lg ?z = lg w" by (simp_all add: same_cache_def upd_inode_def)
  then have "sim d p ?z A" using same_log_sim sw by blast
  moreover have "itable ?z ip = inode_read ?di y" by (simp add: upd_inode_def iw inode_read_def)
  moreover have "ilock ip s = Some ?z"
    using a b(1) w(1) y k tp iw by (simp add: ilock_def Let_def v cong: if_cong) (simp add: upd_inode_def)
  ultimately show thesis by (intro that)
qed

text \<open>C27.  Inodes on disk.  \<open>iupdate\<close> puts an inode into its block under the log, and whenever the slot of the inode table
  has been given up in the meantime (whatever it holds then), \<open>ilock\<close> reads the inode back with the same type, device numbers, link
  count, size and block addresses.  Both calls return; the other inodes of the block and all other blocks keep
  their contents, the block is noted in the log, and nothing is written to the disk before the commit.\<close>

theorem iupdate_ilock:
  fixes s :: "'a fs_state_scheme"
  assumes "sim d p s A" and "i_dev (itable s ip) = d" and "i_type (itable s ip) \<noteq> 0"
    and "k = IBLOCK (i_inum (itable s ip)) (sb s)" and "loggable k A" and "length (a_view A k) = BSIZE"
    and "i_dev y = d" and "i_inum y = i_inum (itable s ip)" and "1 \<le> i_ref y" and "\<not> i_valid y" and "sl_locked l = 0"
  shows "runs (do { t \<leftarrow> iupdate ip s;
                    ilock ip (t\<lparr>itable := (itable t)(ip := y), slocks := (slocks t)(InodeLock ip := l)\<rparr>) })
    (\<lambda>t. let x = itable s ip; z = itable t ip in
       i_valid z \<and> i_type z = i_type x \<and> i_major z = i_major x \<and> i_minor z = i_minor x \<and> i_nlink z = i_nlink x
     \<and> i_size z = i_size x \<and> (\<forall>i \<le> NDIRECT. i_addrs z i = i_addrs x i)
     \<and> (\<forall>inum j. unat inum mod IPB \<noteq> unat (i_inum x) mod IPB \<longrightarrow> j < 64 \<longrightarrow>
          view t d k ! (dinode_off inum + j) = a_view A k ! (dinode_off inum + j))
     \<and> (\<forall>k'. k' \<noteq> k \<longrightarrow> view t d k' = a_view A k') \<and> k \<in> set (logged (lg t)) \<and> disk t = a_disk A)"
proof -
  let ?x = "itable s ip"
  let ?o = "dinode_off (i_inum ?x)"
  let ?v = "put_dinode ?o (dinode_of ?x) (a_view A k)" and ?B = "st_iupdate k ?x A"
  obtain t where t: "iupdate ip s = Some t" "sim d p t ?B" "itable t = itable s" "sb t = sb s"
    using iupdate_sim [OF _ assms(4,5)] assms(1,2) by auto
  let ?t = "t\<lparr>itable := (itable t)(ip := y), slocks := (slocks t)(InodeLock ip := l)\<rparr>"
  have "same_cache t ?t" by (simp add: same_cache_def)
  then have st: "sim d p ?t ?B" by (rule same_log_sim) (use t(2) in simp_all)
  have B: "a_view ?B = (a_view A)(k := ?v)" "a_disk ?B = a_disk A" "a_locked ?B = a_locked A" "a_log ?B = noted k (a_log A)"
    "a_refs ?B k = (if k \<in> set (logged (a_log A)) then a_refs A k else a_refs A k + 1)"
    by (simp_all add: st_iupdate_def st_note_def st_fill_def)
  have fit: "?o + 64 \<le> length (a_view A k)"
    using assms(6) mod_less_divisor [of IPB "unat (i_inum ?x)"] by (simp add: dinode_off_def IPB_def BSIZE_def)
  note gp = get_put_dinode [OF fit, where di = "dinode_of ?x"]
  have pin: "0 < a_refs ?B k" "st_readable k ?B" using assms(5) by (auto simp: B loggable_def st_readable_def)
  have yt: "itable ?t ip = y" "sl_locked (slocks ?t (InodeLock ip)) = 0" "k = IBLOCK (i_inum y) (sb ?t)"
    using assms(4,8,11) t(4) by simp_all
  have gv: "get_dinode (a_view ?B k) (dinode_off (i_inum y)) = get_dinode ?v ?o" using assms(8) by (simp add: B(1))
  then have ty: "di_type (get_dinode (a_view ?B k) (dinode_off (i_inum y))) \<noteq> 0"
    using assms(3) gp(1) by (simp add: dinode_of_def)
  obtain u where u: "ilock ip ?t = Some u" "sim d p u ?B"
      "itable u ip = inode_read (get_dinode (a_view ?B k) (dinode_off (i_inum y))) y"
    using ilock_sim [OF st yt(1) assms(7,9,10) yt(2,3) pin(2,1) ty] .
  have uz: "itable u ip = inode_read (get_dinode ?v ?o) y" using u(3) gv by simp
  have vw: "view u d = (a_view A)(k := ?v)" "disk u = a_disk A" "lg u = noted k (a_log A)"
    using u(2) by (auto simp: sim_def B)
  have "k \<in> set (logged (noted k (a_log A)))"
    using assms(5) by (auto simp: noted_def logged_def loggable_def nat_add_distrib)
  moreover have "?v ! (dinode_off inum + j) = a_view A k ! (dinode_off inum + j)"
    if "unat inum mod IPB \<noteq> unat (i_inum ?x) mod IPB" "j < 64" for inum :: uint_t and j
    using that by (intro put_dinode_outside) (auto simp: dinode_off_def)
  ultimately show ?thesis
    using t(1) u(1) gp by (simp add: vw uz inode_read_def dinode_of_def Let_def)
qed

text \<open>A transaction in progress; slot 2 of the inode table holds inode 5, whose block is not cached.\<close>

definition demo_inode :: inode where
  "demo_inode = \<lparr>i_dev = 1, i_inum = 5, i_ref = 1, i_valid = True, i_type = 3, i_major = 1, i_minor = 7, i_nlink = 2,
     i_size = 70000, i_addrs = (\<lambda>i. of_nat (i + 100))\<rparr>"

definition demo_slot :: inode where
  "demo_slot = \<lparr>i_dev = 1, i_inum = 5, i_ref = 1, i_valid = False, i_type = 0, i_major = 9, i_minor = 9, i_nlink = 9,
     i_size = 9, i_addrs = (\<lambda>i. 9)\<rparr>"

definition demo_fs :: fs_state where
  "demo_fs = log_state.extend (demo_log\<lparr>lg := (lg demo_log)\<lparr>lg_outstanding := 1\<rparr>\<rparr>)
     \<lparr>sb = \<lparr>sb_magic = FSMAGIC, sb_size = 2000, sb_nblocks = 1954, sb_ninodes = 200, sb_nlog = 31,
            sb_logstart = 2, sb_inodestart = 33, sb_bmapstart = 46\<rparr>,
      itable = (\<lambda>i. if i = 2 then demo_inode else demo_slot)\<rparr>"

lemma demo_fs_sim:
  "sim 1 0 demo_fs ((store_of 1 demo_log)\<lparr>a_log := (lg demo_log)\<lparr>lg_outstanding := 1\<rparr>\<rparr>)" (is "sim 1 0 demo_fs ?A")
  "loggable 33 ((store_of 1 demo_log)\<lparr>a_log := (lg demo_log)\<lparr>lg_outstanding := 1\<rparr>\<rparr>)"
  "a_view (store_of 1 demo_log) 33 = replicate BSIZE 0"
proof -
  have c: "same_cache demo_log demo_fs" "lg demo_fs = (lg demo_log)\<lparr>lg_outstanding := 1\<rparr>"
    by (simp_all add: same_cache_def demo_fs_def log_state.defs demo_log_def)
  show "sim 1 0 demo_fs ?A"
    using same_cache_sim(1) [OF c(1) sim_store_of [OF demo_log_sched demo_binv(1)]] c(2) by simp
  have "locked demo_log 1 = {}" by (simp add: locked_def demo_has) (simp add: demo_log_def)
  moreover have "logged ((lg demo_log)\<lparr>lg_outstanding := 1\<rparr>) = [50]" by (simp add: logged_def demo_log_def)
  ultimately show "loggable 33 ?A"
    using demo_committable(2)
    by (simp add: loggable_def in_use_def store_of_def demo_refs(1)) (simp add: demo_log_def LOGBLOCKS_def MAXOPBLOCKS_def)
  show "a_view (store_of 1 demo_log) 33 = replicate BSIZE 0"
    using not_cached [of demo_log 1 33] demo_has(1) by (simp add: store_of_def) (simp add: demo_log_def)
qed

theorem iupdate_ilock_witness:
  "runs (do { t \<leftarrow> iupdate 2 demo_fs;
              ilock 2 (t\<lparr>itable := (itable t)(2 := demo_slot), slocks := (slocks t)(InodeLock 2 := \<lparr>sl_locked = 0, sl_name = [], sl_pid = 0\<rparr>)\<rparr>) })
    (\<lambda>t. let z = itable t 2 in i_type z = 3 \<and> i_major z = 1 \<and> i_minor z = 7 \<and> i_nlink z = 2 \<and> i_size z = 70000 \<and> i_addrs z 12 = 112)"
proof -
  have i: "itable demo_fs 2 = demo_inode" "sb_inodestart (sb demo_fs) = 33" by (simp_all add: demo_fs_def log_state.defs)
  then have k: "33 = IBLOCK (i_inum (itable demo_fs 2)) (sb demo_fs)"
    by (simp add: IBLOCK_def demo_inode_def IPB_def BSIZE_def)
  note th = iupdate_ilock [OF demo_fs_sim(1) _ _ k demo_fs_sim(2), of demo_slot "\<lparr>sl_locked = 0, sl_name = [], sl_pid = 0\<rparr>"]
  show ?thesis
    by (rule runs_mono [OF th])
      (auto simp: i demo_fs_sim(3) demo_inode_def demo_slot_def NDIRECT_def Let_def)
qed

end
