(* ===== verification/Console.thy ===== *)
theory Console
  imports Fs
begin

text \<open>
  The serial line (\<^verbatim>\<open>kernel/uart.c\<close>) and the console (\<^verbatim>\<open>kernel/console.c\<close>).

  The device is seen through the bytes sent to its transmit register (\<open>uart_out\<close>), the bytes
  waiting in its receive register (\<open>uart_rx\<close>) and its transmit-idle flag (\<open>uart_idle\<close>).
  \<open>uartputc_sync\<close> spins until the flag is set; the model takes it up at that point.  After a panic it spins for
  ever: the result is \<open>None\<close>.  Its \<open>push_off\<close> and \<open>pop_off\<close> leave the interrupt state as it was.
  Control-P prints the process table (\<open>procdump\<close>) and changes nothing; the listing is left out.

  A system call that goes to sleep ends with the outcome \<open>Asleep w\<close>, where \<open>w\<close> says where it
  sleeps and what it has done so far, in the state the scheduler resumes with; when it is
  woken it continues with the corresponding \<open>_resume\<close> operation.  \<open>WaitTurn\<close> is a process that was
  preempted and waits for the CPU.  \<open>Exited\<close> is the outcome of a call
  that ends the process.
\<close>

section \<open>Outcomes of calls that may sleep\<close>

datatype wait =
    WaitTx nat "uint8 list" nat
  | WaitConsole place int
  | WaitPipeWrite int
  | WaitPipeRead
  | WaitChild
  | WaitTicks uint_t
  | WaitTurn

datatype 'r outcome = Done 'r | Asleep wait | Exited

section \<open>State\<close>

definition INPUT_BUF_SIZE :: uint_t where "INPUT_BUF_SIZE = 128"

record cons =
  c_buf :: "nat \<Rightarrow> uint8"
  c_r :: uint_t
  c_w :: uint_t
  c_e :: uint_t

record cons_state = fs_state +
  cons :: cons
  tx_busy :: bool
  uart_out :: "uint8 list"
  uart_rx :: "uint8 list"
  uart_idle :: bool
  devsw_console :: "nat \<Rightarrow> bool"
  panicking :: bool
  panicked :: bool

definition slot_of :: "uint_t \<Rightarrow> nat" where
  "slot_of i = unat (i mod INPUT_BUF_SIZE)"

definition NDEV :: nat where "NDEV = 10"
definition CONSOLE :: nat where "CONSOLE = 1"

definition BACKSPACE :: int where "BACKSPACE = 0x100"

section \<open>The serial line\<close>

definition uartputc_sync :: "uint8 \<Rightarrow> 'a cons_state_scheme \<Rightarrow> 'a cons_state_scheme option" where
  "uartputc_sync c s =
     (if panicked s then None  \<comment> \<open>spins for ever\<close>
      else Some (s\<lparr>uart_out := uart_out s @ [c]\<rparr>))"

text \<open>\<open>uartwrite\<close> from the \<open>i\<close>-th byte on, with \<open>tx_lock\<close> held; the result is \<^term>\<open>Some j\<close> when it
  sleeps before byte \<open>j\<close>.\<close>

partial_function (option) uartwrite_loop :: "uint8 list \<Rightarrow> nat \<Rightarrow> 'a cons_state_scheme
    \<Rightarrow> (nat option \<times> 'a cons_state_scheme) option" where
  "uartwrite_loop buf i s =
     (if i < length buf
      then if tx_busy s
           then do { s \<leftarrow> sleep ChanTx TxLock s; Some (Some i, s) }
           else uartwrite_loop buf (i + 1) (s\<lparr>uart_out := uart_out s @ [buf ! i], tx_busy := True\<rparr>)
      else do { s \<leftarrow> rel TxLock s; Some (None, s) })"

definition uartwrite :: "uint8 list \<Rightarrow> 'a cons_state_scheme \<Rightarrow> (nat option \<times> 'a cons_state_scheme) option" where
  "uartwrite buf s = do { s \<leftarrow> acq TxLock s; uartwrite_loop buf 0 s }"

definition uartwrite_resume :: "nat \<Rightarrow> uint8 list \<Rightarrow> nat \<Rightarrow> 'a cons_state_scheme
    \<Rightarrow> (nat option \<times> 'a cons_state_scheme) option" where
  "uartwrite_resume p buf i s = do { s \<leftarrow> sleep_resume p TxLock s; uartwrite_loop buf i s }"

definition uartgetc :: "'a cons_state_scheme \<Rightarrow> uint8 option \<times> 'a cons_state_scheme" where
  "uartgetc s = (case uart_rx s of [] \<Rightarrow> (None, s) | c # cs \<Rightarrow> (Some c, s\<lparr>uart_rx := cs\<rparr>))"

section \<open>The console\<close>

definition consputc :: "int \<Rightarrow> 'a cons_state_scheme \<Rightarrow> 'a cons_state_scheme option" where
  "consputc c s =
     (if c = BACKSPACE
      then do { s \<leftarrow> uartputc_sync 8 s; s \<leftarrow> uartputc_sync 32 s; uartputc_sync 8 s }
      else uartputc_sync (of_int c) s)"

definition upd_cons :: "(cons \<Rightarrow> cons) \<Rightarrow> 'a cons_state_scheme \<Rightarrow> 'a cons_state_scheme" where
  "upd_cons f s = s\<lparr>cons := f (cons s)\<rparr>"

text \<open>\<open>consolewrite\<close>: batches of at most 32 bytes.  \<open>i\<close> counts the bytes of the earlier batches.\<close>

partial_function (option) consolewrite_loop :: "place \<Rightarrow> nat \<Rightarrow> nat
    \<Rightarrow> 'a cons_state_scheme \<Rightarrow> (int outcome \<times> 'a cons_state_scheme) option" where
  "consolewrite_loop src i n s =
     (if i < n
      then do {
        let nn = min 32 (n - i);
        (r, buf, s) \<leftarrow> either_copyin (advance src i) i nn s;
        if r = - 1 then Some (Done (int i), s)
        else do {
          (w, s) \<leftarrow> uartwrite buf s;
          case w of
            None \<Rightarrow> consolewrite_loop src (i + nn) n s
          | Some j \<Rightarrow> Some (Asleep (WaitTx i buf j), s) } }
      else Some (Done (int i), s))"

definition consolewrite :: "place \<Rightarrow> int \<Rightarrow> 'a cons_state_scheme \<Rightarrow> (int outcome \<times> 'a cons_state_scheme) option" where
  "consolewrite src n s = consolewrite_loop src 0 (nat n) s"

definition consolewrite_resume :: "nat \<Rightarrow> place \<Rightarrow> nat \<Rightarrow> nat \<Rightarrow> uint8 list \<Rightarrow> nat
    \<Rightarrow> 'a cons_state_scheme \<Rightarrow> (int outcome \<times> 'a cons_state_scheme) option" where
  "consolewrite_resume p src n i buf j s = do {
     (w, s) \<leftarrow> uartwrite_resume p buf j s;
     case w of
       None \<Rightarrow> consolewrite_loop src (i + length buf) n s
     | Some j \<Rightarrow> Some (Asleep (WaitTx i buf j), s)
   }"

definition control :: "uint8 \<Rightarrow> uint8" where
  "control c = c - 64"

text \<open>\<open>consoleread\<close> with \<open>cons.lock\<close> held and \<open>n\<close> bytes of \<open>target\<close> still wanted.\<close>

partial_function (option) consoleread_loop :: "int \<Rightarrow> place \<Rightarrow> int
    \<Rightarrow> 'a cons_state_scheme \<Rightarrow> (int outcome \<times> 'a cons_state_scheme) option" where
  "consoleread_loop target dst n s =
     (if n > 0
      then if c_r (cons s) = c_w (cons s)
        then do {
          p \<leftarrow> myproc s;
          (k, s) \<leftarrow> killed p s;
          if k \<noteq> 0 then do { s \<leftarrow> rel ConsLock s; Some (Done (- 1), s) }
          else do { s \<leftarrow> sleep ChanCons ConsLock s; Some (Asleep (WaitConsole dst n), s) } }
        else do {
          let c = c_buf (cons s) (slot_of (c_r (cons s)));
          let s = upd_cons (\<lambda>x. x\<lparr>c_r := c_r x + 1\<rparr>) s;
          if c = control 68
          then do {
            let s = (if n < target then upd_cons (\<lambda>x. x\<lparr>c_r := c_r x - 1\<rparr>) s else s);
            s \<leftarrow> rel ConsLock s;
            Some (Done (target - n), s) }
          else do {
            (r, dst, s) \<leftarrow> either_copyout dst [c] s;
            if r = - 1 then do { s \<leftarrow> rel ConsLock s; Some (Done (target - n), s) }
            else if c = 10 then do { s \<leftarrow> rel ConsLock s; Some (Done (target - (n - 1)), s) }
            else consoleread_loop target (advance dst 1) (n - 1) s } }
      else do { s \<leftarrow> rel ConsLock s; Some (Done (target - n), s) })"

definition consoleread :: "place \<Rightarrow> int \<Rightarrow> 'a cons_state_scheme \<Rightarrow> (int outcome \<times> 'a cons_state_scheme) option" where
  "consoleread dst n s = do { s \<leftarrow> acq ConsLock s; consoleread_loop n dst n s }"

definition consoleread_resume :: "nat \<Rightarrow> int \<Rightarrow> place \<Rightarrow> int
    \<Rightarrow> 'a cons_state_scheme \<Rightarrow> (int outcome \<times> 'a cons_state_scheme) option" where
  "consoleread_resume p target dst n s = do {
     s \<leftarrow> sleep_resume p ConsLock s;
     consoleread_loop target dst n s
   }"

text \<open>Control-U: erase back to the start of the line.\<close>

partial_function (option) kill_line :: "'a cons_state_scheme \<Rightarrow> 'a cons_state_scheme option" where
  "kill_line s =
     (if c_e (cons s) \<noteq> c_w (cons s) \<and> c_buf (cons s) (slot_of (c_e (cons s) - 1)) \<noteq> 10
      then do {
        s \<leftarrow> consputc BACKSPACE (upd_cons (\<lambda>x. x\<lparr>c_e := c_e x - 1\<rparr>) s);
        kill_line s }
      else Some s)"

definition consoleintr :: "uint8 \<Rightarrow> 'a cons_state_scheme \<Rightarrow> 'a cons_state_scheme option" where
  "consoleintr c s = do {
     s \<leftarrow> acq ConsLock s;
     s \<leftarrow>
       (if c = control 80 then Some s
        else if c = control 85 then kill_line s
        else if c = control 72 \<or> c = 127
        then (if c_e (cons s) \<noteq> c_w (cons s)
              then consputc BACKSPACE (upd_cons (\<lambda>x. x\<lparr>c_e := c_e x - 1\<rparr>) s) else Some s)
        else if c \<noteq> 0 \<and> c_e (cons s) - c_r (cons s) < INPUT_BUF_SIZE
        then do {
          let c = (if c = 13 then 10 else c);
          s \<leftarrow> consputc (uint c) s;
          let s = upd_cons (\<lambda>x. x\<lparr>c_buf := (c_buf x)(slot_of (c_e x) := c), c_e := c_e x + 1\<rparr>) s;
          if c = 10 \<or> c = control 68 \<or> c_e (cons s) - c_r (cons s) = INPUT_BUF_SIZE
          then wakeup ChanCons (upd_cons (\<lambda>x. x\<lparr>c_w := c_e x\<rparr>) s)
          else Some s }
        else Some s);
     rel ConsLock s
   }"

definition consoleinit :: "'a cons_state_scheme \<Rightarrow> 'a cons_state_scheme" where
  "consoleinit s = s\<lparr>devsw_console := (devsw_console s)(CONSOLE := True)\<rparr>"

partial_function (option) uartintr_loop :: "'a cons_state_scheme \<Rightarrow> 'a cons_state_scheme option" where
  "uartintr_loop s =
     (case uartgetc s of
        (None, s) \<Rightarrow> Some s
      | (Some c, s) \<Rightarrow> do { s \<leftarrow> consoleintr c s; uartintr_loop s })"

definition uartintr :: "'a cons_state_scheme \<Rightarrow> 'a cons_state_scheme option" where
  "uartintr s = do {
     s \<leftarrow> acq TxLock s;
     s \<leftarrow> (if uart_idle s then wakeup ChanTx (s\<lparr>tx_busy := False\<rparr>) else Some s);
     s \<leftarrow> rel TxLock s;
     uartintr_loop s
   }"

section \<open>Line editing\<close>

text \<open>The read, write and edit indices follow each other within one buffer length, on the unsigned
  circle.\<close>

definition cons_ok :: "cons \<Rightarrow> bool" where
  "cons_ok c \<longleftrightarrow> c_w c - c_r c \<le> c_e c - c_r c \<and> c_e c - c_r c \<le> INPUT_BUF_SIZE"

text \<open>The input available to readers.\<close>

definition committed :: "cons \<Rightarrow> uint8 list" where
  "committed c = map (\<lambda>k. c_buf c (slot_of (c_r c + of_nat k))) [0..<unat (c_w c - c_r c)]"

text \<open>The line being edited.\<close>

definition pending :: "cons \<Rightarrow> uint8 list" where
  "pending c = map (\<lambda>k. c_buf c (slot_of (c_w c + of_nat k))) [0..<unat (c_e c - c_w c)]"

lemma cons_ok_nat:
  "cons_ok c \<longleftrightarrow> unat (c_e c - c_r c) = unat (c_w c - c_r c) + unat (c_e c - c_w c) \<and> unat (c_e c - c_r c) \<le> 128"
proof -
  define a b where "a = c_w c - c_r c" and "b = c_e c - c_r c"
  have "c_e c - c_w c = b - a" by (simp add: a_def b_def)
  moreover have "cons_ok c \<longleftrightarrow> unat a \<le> unat b \<and> unat b \<le> 128"
    by (simp add: cons_ok_def a_def b_def INPUT_BUF_SIZE_def word_le_nat_alt)
  moreover have "unat b = unat a + unat (b - a) \<longleftrightarrow> unat a \<le> unat b"
    by (auto simp: unat_sub_if')
  ultimately show ?thesis by (simp add: a_def b_def)
qed

lemma cons_slot: "slot_of (r + of_nat k) = (unat r + k) mod 128" if "k < 2 ^ 32" for r :: uint_t
proof -
  have "slot_of (r + of_nat k) = unat (r + of_nat k) mod 128"
    by (simp add: slot_of_def INPUT_BUF_SIZE_def unat_mod)
  also have "unat (r + of_nat k) = (unat r + k) mod 2 ^ 32"
    using that by (simp add: unat_word_ariths unat_of_nat take_bit_eq_mod)
  also have "(unat r + k) mod 2 ^ 32 mod 128 = (unat r + k) mod 128"
    by (simp add: mod_mod_cancel)
  finally show ?thesis .
qed

lemma cons_slots_apart:
  fixes r :: uint_t
  assumes "j < k" and "k < 128"
  shows "slot_of (r + of_nat j) \<noteq> slot_of (r + of_nat k)"
proof
  assume "slot_of (r + of_nat j) = slot_of (r + of_nat k)"
  then have "(unat r + j) mod 128 = (unat r + k) mod 128" using assms by (simp add: cons_slot)
  then have "(k - j) mod 128 = 0"
    using assms(1) by (metis add_diff_cancel_left less_imp_le_nat mod_eq_dvd_iff_nat mod_eq_0_iff_dvd nat_add_left_cancel_le)
  then show False using assms by simp
qed

text \<open>Erasing one character, and storing one.\<close>

definition cons_erase :: "cons \<Rightarrow> cons" where
  "cons_erase c = c\<lparr>c_e := c_e c - 1\<rparr>"

definition cons_store :: "uint8 \<Rightarrow> cons \<Rightarrow> cons" where
  "cons_store ch c = c\<lparr>c_buf := (c_buf c)(slot_of (c_e c) := ch), c_e := c_e c + 1\<rparr>"

definition cons_commit :: "cons \<Rightarrow> cons" where
  "cons_commit c = c\<lparr>c_w := c_e c\<rparr>"

lemma erase_ok:
  assumes "cons_ok c" and "c_e c \<noteq> c_w c"
  shows "cons_ok (cons_erase c)" and "committed (cons_erase c) = committed c"
    and "pending (cons_erase c) = butlast (pending c)"
    and "unat (c_e (cons_erase c) - c_w (cons_erase c)) < unat (c_e c - c_w c)"
proof -
  have nz: "c_e c - c_w c \<noteq> 0" using assms(2) by simp
  have e1: "unat (c_e c - 1 - c_w c) = unat (c_e c - c_w c) - 1"
    using unat_minus_one [OF nz] by (simp add: algebra_simps)
  have pos: "0 < unat (c_e c - c_w c)" using nz by (simp add: unat_gt_0)
  have "c_e c - c_r c \<noteq> 0" using assms pos by (auto simp: cons_ok_nat)
  then have e2: "unat (c_e c - 1 - c_r c) = unat (c_e c - c_r c) - 1"
    using unat_minus_one [of "c_e c - c_r c"] by (simp add: algebra_simps)
  show "cons_ok (cons_erase c)"
    using assms(1) e1 e2 pos by (auto simp: cons_ok_nat cons_erase_def)
  show "committed (cons_erase c) = committed c" by (simp add: committed_def cons_erase_def)
  obtain m where m: "unat (c_e c - c_w c) = Suc m" using pos by (cases "unat (c_e c - c_w c)") auto
  show "pending (cons_erase c) = butlast (pending c)"
    by (simp add: pending_def cons_erase_def e1 m)
  show "unat (c_e (cons_erase c) - c_w (cons_erase c)) < unat (c_e c - c_w c)"
    using e1 pos by (simp add: cons_erase_def)
qed

lemma store_ok:
  assumes "cons_ok c" and "c_e c - c_r c < INPUT_BUF_SIZE"
  shows "cons_ok (cons_store ch c)" and "committed (cons_store ch c) = committed c"
    and "pending (cons_store ch c) = pending c @ [ch]"
proof -
  define n m k where "n = unat (c_e c - c_r c)" and "m = unat (c_w c - c_r c)" and "k = unat (c_e c - c_w c)"
  have n: "n = m + k" "n < 128"
    using assms by (auto simp: cons_ok_nat n_def m_def k_def INPUT_BUF_SIZE_def word_less_nat_alt)
  have er: "c_e c = c_r c + of_nat n" "c_w c = c_r c + of_nat m" by (simp_all add: n_def m_def)
  have s1: "unat (c_e c + 1 - c_r c) = Suc n"
  proof -
    have "c_e c + 1 - c_r c = of_nat (Suc n)" by (simp add: er)
    then show ?thesis using n by (simp add: unat_of_nat take_bit_eq_mod del: of_nat_Suc)
  qed
  have s2: "unat (c_e c + 1 - c_w c) = Suc k"
  proof -
    have "c_e c + 1 - c_w c = of_nat (Suc k)" by (simp add: er n)
    then show ?thesis using n by (simp add: unat_of_nat take_bit_eq_mod del: of_nat_Suc)
  qed
  show "cons_ok (cons_store ch c)"
    using n s1 s2 by (simp add: cons_ok_nat cons_store_def m_def)
  have old: "c_buf (cons_store ch c) (slot_of (c_r c + of_nat j)) = c_buf c (slot_of (c_r c + of_nat j))" if "j < n" for j
    using cons_slots_apart [OF that n(2), of "c_r c"] by (simp add: cons_store_def er)
  have new: "c_buf (cons_store ch c) (slot_of (c_r c + of_nat n)) = ch" by (simp add: cons_store_def er)
  have idx: "c_r (cons_store ch c) = c_r c" "c_w (cons_store ch c) = c_w c" "c_e (cons_store ch c) = c_e c + 1"
    by (simp_all add: cons_store_def)
  show "committed (cons_store ch c) = committed c"
    unfolding committed_def idx m_def [symmetric] using old n by simp
  have w: "c_w c + of_nat j = c_r c + of_nat (m + j)" for j by (simp add: er)
  show "pending (cons_store ch c) = pending c @ [ch]"
    unfolding pending_def idx s2 k_def [symmetric] w
    using old new n(1) by (simp del: of_nat_add)
qed

lemma commit_ok:
  assumes "cons_ok c"
  shows "cons_ok (cons_commit c)" and "committed (cons_commit c) = committed c @ pending c"
    and "pending (cons_commit c) = []"
proof -
  define m k where "m = unat (c_w c - c_r c)" and "k = unat (c_e c - c_w c)"
  have n: "unat (c_e c - c_r c) = m + k" "m + k \<le> 128"
    using assms by (simp_all add: cons_ok_nat m_def k_def)
  show "cons_ok (cons_commit c)" using assms by (simp add: cons_ok_nat cons_commit_def)
  show "pending (cons_commit c) = []" by (simp add: pending_def cons_commit_def)
  have w: "c_w c = c_r c + of_nat m" by (simp add: m_def)
  have "[0..<m + k] = [0..<m] @ map (\<lambda>j. j + m) [0..<k]"
    by (simp only: map_add_upt upt_add_eq_append [of 0 m k, OF le0] add.commute [of k m])
  then show "committed (cons_commit c) = committed c @ pending c"
    by (simp add: committed_def pending_def cons_commit_def n m_def [symmetric] k_def [symmetric])
      (simp add: w add.assoc add.commute [of "of_nat m"] del: upt_Suc)
qed

lemma length_committed: "length (committed c) = unat (c_w c - c_r c)"
  by (simp add: committed_def)

lemma length_pending: "length (pending c) = unat (c_e c - c_w c)"
  by (simp add: pending_def)

lemma cons_lengths: "cons_ok c \<Longrightarrow> unat (c_e c - c_r c) = length (committed c) + length (pending c)"
  by (simp add: cons_ok_nat length_committed length_pending)

text \<open>The abstract line discipline on the pair of committed input and edited line.\<close>

definition line_edit :: "uint8 \<Rightarrow> uint8 list \<times> uint8 list \<Rightarrow> uint8 list \<times> uint8 list" where
  "line_edit ch st = (case st of (cm, pd) \<Rightarrow>
     if ch = control 80 then (cm, pd)
     else if ch = control 85 then (cm, [])
     else if ch = control 72 \<or> ch = 127 then (cm, butlast pd)
     else if ch \<noteq> 0 \<and> length cm + length pd < 128
     then
       let ch' = (if ch = 13 then 10 else ch); pd' = pd @ [ch'] in
       if ch' = 10 \<or> ch' = control 68 \<or> length cm + length pd' = 128 then (cm @ pd', []) else (cm, pd')
     else (cm, pd))"

text \<open>What \<open>consputc\<close> sends.\<close>

definition echo :: "int \<Rightarrow> uint8 list" where
  "echo c = (if c = BACKSPACE then [8, 32, 8] else [of_int c])"

definition echoed :: "int \<Rightarrow> 'a cons_state_scheme \<Rightarrow> 'a cons_state_scheme" where
  "echoed c s = s\<lparr>uart_out := uart_out s @ echo c\<rparr>"

lemma consputc_eq: "consputc c s = (if panicked s then None else Some (echoed c s))"
  by (simp add: consputc_def uartputc_sync_def echoed_def echo_def)

lemma echoed_simps [simp]:
  "cons (echoed c s) = cons s" "held (echoed c s) = held s" "procs (echoed c s) = procs s"
  "pqueue (echoed c s) = pqueue s" "cpu_proc (echoed c s) = cpu_proc s" "tp (echoed c s) = tp s"
  "panicked (echoed c s) = panicked s"
  by (simp_all add: echoed_def)

lemma upd_cons_simps [simp]:
  "cons (upd_cons f s) = f (cons s)" "held (upd_cons f s) = held s" "procs (upd_cons f s) = procs s"
  "pqueue (upd_cons f s) = pqueue s" "cpu_proc (upd_cons f s) = cpu_proc s" "tp (upd_cons f s) = tp s"
  "panicked (upd_cons f s) = panicked s"
  by (simp_all add: upd_cons_def)

lemma make_ready_cons [simp]: "cons (make_ready p s) = cons s"
  by (simp add: make_ready_def upd_proc_def upd_queue_def)

lemma fold_make_ready_cons [simp]: "cons (fold make_ready ps s) = cons s"
  by (induction ps arbitrary: s) simp_all

lemma pending_last:
  assumes "c_e c \<noteq> c_w c"
  shows "c_buf c (slot_of (c_e c - 1)) = last (pending c)" and "pending c \<noteq> []"
proof -
  have "0 < unat (c_e c - c_w c)" using assms by (simp add: unat_gt_0)
  then obtain m where m: "unat (c_e c - c_w c) = Suc m" by (cases "unat (c_e c - c_w c)") auto
  have "of_nat (Suc m) = c_e c - c_w c" by (simp add: m [symmetric] del: of_nat_Suc)
  then have "c_w c + of_nat m = c_e c - 1" by (simp add: algebra_simps)
  with m show "c_buf c (slot_of (c_e c - 1)) = last (pending c)" by (simp add: pending_def)
  show "pending c \<noteq> []" using m by (simp add: pending_def)
qed

lemma kill_line_ok:
  assumes "cons_ok (cons s)" and "10 \<notin> set (pending (cons s))" and "\<not> panicked s"
  shows "runs (kill_line s) (\<lambda>t. cons_ok (cons t) \<and> committed (cons t) = committed (cons s)
     \<and> pending (cons t) = [] \<and> held t = held s)"
  using assms
proof (induction "unat (c_e (cons s) - c_w (cons s))" arbitrary: s rule: less_induct)
  case less
  show ?case
  proof (cases "c_e (cons s) = c_w (cons s)")
    case True
    then show ?thesis using less.prems by (subst kill_line.simps) (simp add: pending_def)
  next
    case False
    note er = erase_ok [OF less.prems(1) False] and la = pending_last [OF False]
    let ?t = "echoed BACKSPACE (upd_cons (\<lambda>x. x\<lparr>c_e := c_e x - 1\<rparr>) s)"
    have c: "cons ?t = cons_erase (cons s)" by (simp add: cons_erase_def)
    have "last (pending (cons s)) \<in> set (pending (cons s))" by (rule last_in_set [OF la(2)])
    with less.prems(2) la(1) have "c_buf (cons s) (slot_of (c_e (cons s) - 1)) \<noteq> 10" by auto
    then have "kill_line s = kill_line ?t" using False less.prems(3) by (subst kill_line.simps) (simp add: consputc_eq)
    moreover have "runs (kill_line ?t) (\<lambda>t. cons_ok (cons t) \<and> committed (cons t) = committed (cons ?t)
        \<and> pending (cons t) = [] \<and> held t = held ?t)"
    proof (rule less.hyps)
      show "unat (c_e (cons ?t) - c_w (cons ?t)) < unat (c_e (cons s) - c_w (cons s))" unfolding c by (rule er(4))
      show "cons_ok (cons ?t)" unfolding c by (rule er(1))
      show "10 \<notin> set (pending (cons ?t))"
        unfolding c er(3) using less.prems(2) by (auto dest: in_set_butlastD)
      show "\<not> panicked ?t" using less.prems(3) by simp
    qed
    ultimately show ?thesis unfolding c er(2) by simp
  qed
qed

text \<open>One character on a well-formed buffer in which the edited line has no newline.\<close>

definition line_edited :: "uint8 \<Rightarrow> cons \<Rightarrow> cons \<Rightarrow> bool" where
  "line_edited ch c c' \<longleftrightarrow> cons_ok c' \<and> 10 \<notin> set (pending c')
     \<and> (committed c', pending c') = line_edit ch (committed c, pending c)"

lemma controls: "control 80 = 16" "control 85 = 21" "control 72 = 8" "control 68 = 4"
  by (simp_all add: control_def)

lemma erase_edited:
  assumes "cons_ok c" and "10 \<notin> set (pending c)" and "ch = control 72 \<or> ch = 127"
  shows "line_edited ch c (if c_e c \<noteq> c_w c then cons_erase c else c)"
proof (cases "c_e c = c_w c")
  case True
  then show ?thesis using assms by (auto simp: line_edited_def controls line_edit_def pending_def)
next
  case False
  then show ?thesis
    using assms erase_ok [OF assms(1) False] by (auto simp: line_edited_def controls line_edit_def dest: in_set_butlastD)
qed

lemma has_room: "cons_ok c \<Longrightarrow> c_e c - c_r c < INPUT_BUF_SIZE \<longleftrightarrow> length (committed c) + length (pending c) < 128"
  using cons_lengths [of c] by (simp add: word_less_nat_alt INPUT_BUF_SIZE_def)

lemma store_edited:
  assumes "cons_ok c" and "10 \<notin> set (pending c)" and "c_e c - c_r c < INPUT_BUF_SIZE"
    and "ch \<noteq> control 80" "ch \<noteq> control 85" "ch \<noteq> control 72" "ch \<noteq> 127" "ch \<noteq> 0"
    and x: "x = (if ch = 13 then 10 else ch)"
  shows "line_edited ch c
    (if x = 10 \<or> x = control 68 \<or> c_e (cons_store x c) - c_r (cons_store x c) = INPUT_BUF_SIZE
     then cons_commit (cons_store x c) else cons_store x c)"
proof -
  note st = store_ok [OF assms(1,3), of x] and room = assms(3) [unfolded has_room [OF assms(1)]]
  have e: "c_e (cons_store x c) - c_r (cons_store x c) = INPUT_BUF_SIZE \<longleftrightarrow> length (committed c) + length (pending c) + 1 = 128"
    using cons_lengths [OF st(1)] st(2,3) by (simp add: word_unat_eq_iff INPUT_BUF_SIZE_def)
  show ?thesis
    using commit_ok [OF st(1)] st assms(2,4-8) room e
    by (simp add: line_edited_def controls line_edit_def Let_def x [symmetric])
qed

lemma ignored_edited:
  assumes "cons_ok c" and "10 \<notin> set (pending c)" and "ch \<noteq> control 85" "ch \<noteq> control 72" "ch \<noteq> 127"
    and "ch = control 80 \<or> ch = 0 \<or> \<not> c_e c - c_r c < INPUT_BUF_SIZE"
  shows "line_edited ch c c"
  using assms has_room [OF assms(1)] by (auto simp: line_edited_def controls line_edit_def)

lemma runs_wakeup_cons:
  assumes "sched_ok s" and "\<forall>p < NPROC. ProcLock p \<notin> held s" and "queues_free s"
  shows "runs (wakeup ch s) (\<lambda>t. cons t = cons s \<and> held t = held s)"
  using assms by (simp add: wakeup_eq)

lemma consoleintr_cases:
  obtains (kill) "ch = control 85" | (erase) "ch = control 72 \<or> ch = 127"
  | (ign) "ch \<noteq> control 85" "ch \<noteq> control 72" "ch \<noteq> 127" "ch = control 80 \<or> ch = 0 \<or> \<not> c_e (cons s) - c_r (cons s) < INPUT_BUF_SIZE"
  | (store) "c_e (cons s) - c_r (cons s) < INPUT_BUF_SIZE" "ch \<noteq> control 80" "ch \<noteq> control 85" "ch \<noteq> control 72" "ch \<noteq> 127" "ch \<noteq> 0"
  by blast

lemma consoleintr_store:
  assumes "cons_ok (cons s)" and "10 \<notin> set (pending (cons s))"
    and "sched_ok s" and "\<forall>p < NPROC. ProcLock p \<notin> held s" and "queues_free s" and "\<not> panicked s"
    and store: "c_e (cons s) - c_r (cons s) < INPUT_BUF_SIZE" "ch \<noteq> control 80" "ch \<noteq> control 85" "ch \<noteq> control 72" "ch \<noteq> 127" "ch \<noteq> 0"
  shows "runs (let c = (if ch = 13 then 10 else ch) in do { s \<leftarrow> consputc (uint c) s; let
          s = upd_cons (\<lambda>x. x\<lparr>c_buf := (c_buf x)(slot_of (c_e x) := c), c_e := c_e x + 1\<rparr>) s;
          if c = 10 \<or> c = control 68 \<or> c_e (cons s) - c_r (cons s) = INPUT_BUF_SIZE
          then wakeup ChanCons (upd_cons (\<lambda>x. x\<lparr>c_w := c_e x\<rparr>) s)
          else Some s }) (\<lambda>t. line_edited ch (cons s) (cons t) \<and> held t = held s)" (is "runs ?m ?Q")
proof -
  define c where "c = (if ch = 13 then 10 else ch)"
  let ?t = "upd_cons (\<lambda>x. x\<lparr>c_buf := (c_buf x)(slot_of (c_e x) := c), c_e := c_e x + 1\<rparr>) (echoed (uint c) s)"
  let ?u = "upd_cons (\<lambda>x. x\<lparr>c_w := c_e x\<rparr>) ?t"
  let ?c = "c = 10 \<or> c = control 68 \<or> c_e (cons ?t) - c_r (cons ?t) = INPUT_BUF_SIZE"
  have t: "cons ?t = cons_store c (cons s)" "cons ?u = cons_commit (cons_store c (cons s))"
    by (simp_all add: cons_store_def cons_commit_def)
  have ed: "line_edited ch (cons s) (if ?c then cons ?u else cons ?t)"
    unfolding t by (rule store_edited [OF assms(1,2) store c_def])
  have m: "?m = (if ?c then wakeup ChanCons ?u else Some ?t)"
    unfolding Let_def c_def [symmetric] using assms(6) by (simp add: consputc_eq)
  have "runs (wakeup ChanCons ?u) (\<lambda>t. cons t = cons ?u \<and> held t = held ?u)"
    using assms(3-5) by (intro runs_wakeup_cons) (auto simp: sched_ok_def queues_free_def)
  then show ?thesis using ed unfolding m by (cases ?c) (auto elim!: runs_mono simp del: upd_cons_simps(1))
qed

text \<open>C29.  The console's line discipline.  Each received character takes the ring buffer from one
  well-formed state to another and acts on it as the abstract discipline \<open>line_edit\<close>: ordinary characters extend
  the edited line, backspace removes its last character, control-U clears it, a newline, an
  end-of-file or a full buffer hands the line over to the readers.  Input that was handed over is never
  changed or erased, and the handler returns, unless the kernel has panicked: then the echo spins for ever.\<close>

theorem consoleintr_line_edit:
  assumes "cons_ok (cons s)" and "10 \<notin> set (pending (cons s))" and "ConsLock \<notin> held s"
    and "sched_ok s" and "\<forall>p < NPROC. ProcLock p \<notin> held s" and "queues_free s" and "\<not> panicked s"
  shows "runs (consoleintr ch s) (\<lambda>t. cons_ok (cons t) \<and> 10 \<notin> set (pending (cons t)) \<and> held t = held s
     \<and> (committed (cons t), pending (cons t)) = line_edit ch (committed (cons s), pending (cons s)))"
proof -
  let ?s = "s\<lparr>held := insert ConsLock (held s)\<rparr>"
  let ?m = "if ch = control 80 then Some ?s
        else if ch = control 85 then kill_line ?s
        else if ch = control 72 \<or> ch = 127
        then (if c_e (cons ?s) \<noteq> c_w (cons ?s)
              then consputc BACKSPACE (upd_cons (\<lambda>x. x\<lparr>c_e := c_e x - 1\<rparr>) ?s) else Some ?s)
        else if ch \<noteq> 0 \<and> c_e (cons ?s) - c_r (cons ?s) < INPUT_BUF_SIZE
        then let c = (if ch = 13 then 10 else ch) in do { s \<leftarrow> consputc (uint c) ?s; let
          s = upd_cons (\<lambda>x. x\<lparr>c_buf := (c_buf x)(slot_of (c_e x) := c), c_e := c_e x + 1\<rparr>) s;
          if c = 10 \<or> c = control 68 \<or> c_e (cons s) - c_r (cons s) = INPUT_BUF_SIZE
          then wakeup ChanCons (upd_cons (\<lambda>x. x\<lparr>c_w := c_e x\<rparr>) s)
          else Some s }
        else Some ?s"
  have "runs ?m (\<lambda>t. line_edited ch (cons s) (cons t) \<and> held t = held ?s)"
  proof (cases rule: consoleintr_cases [where ch = ch and s = s])
    case kill
    then show ?thesis
      using kill_line_ok [of ?s] assms(1,2,7) by (auto simp: line_edited_def controls line_edit_def elim!: runs_mono)
  next
    case erase
    then have "ch \<noteq> control 80" "ch \<noteq> control 85" by (auto simp: controls)
    then show ?thesis using erase erase_edited [OF assms(1,2) erase] assms(7)
      by (cases "c_e (cons s) = c_w (cons s)") (auto simp: cons_erase_def consputc_eq)
  next
    case ign
    then show ?thesis using ignored_edited [OF assms(1,2) ign] by auto
  next
    case store
    then show ?thesis using consoleintr_store [of ?s ch] assms by (auto simp: sched_ok_def queues_free_def)
  qed
  then obtain t where t: "?m = Some t" "line_edited ch (cons s) (cons t)" "held t = held ?s" by (auto elim: runsE)
  have "consoleintr ch s = Option.bind ?m (rel ConsLock)"
    using assms(3) by (simp add: consoleintr_def acq_free)
  with t assms(3) show ?thesis by (simp add: rel_held' line_edited_def)
qed

section \<open>A concrete state\<close>

definition demo_cons :: cons_state where
  "demo_cons = \<lparr>held = {}, procs = demo_procs, pqueue = demo_queues, ticks_max = (\<lambda>l. 2 ^ (l + 1)),
     cpu_proc = (\<lambda>_. None)(0 := Some 0), tp = 0, initproc = Some 0, nextpid = 5, ticks = 128, last_mod128 = 0,
     mem = (\<lambda>_. 0), freelist = 0, ft_f = (\<lambda>_. free_frame),
     clock_p = 7, swap_mask = (\<lambda>_. 0), kernel_pagetable = 0, sym_end = 0x80020000,
     sym_etext = 0x80008000, sym_trampoline = 0x80007000,
     disk = (\<lambda>_. replicate BSIZE 0), disk_writes = [],
     slocks = (\<lambda>_. \<lparr>sl_locked = 0, sl_name = [], sl_pid = 0\<rparr>),
     bufs = (\<lambda>_. \<lparr>b_valid = False, b_disk = False, b_dev = 0, b_blockno = 0, b_refcnt = 0, b_prev = 0, b_next = 0,
               b_data = replicate BSIZE 0\<rparr>),
     lg = \<lparr>lg_start = 2, lg_outstanding = 0, lg_committing = False, lg_dev = 1, lg_n = 0, lg_block = (\<lambda>_. 0)\<rparr>,
     sb = \<lparr>sb_magic = FSMAGIC, sb_size = 2000, sb_nblocks = 1954, sb_ninodes = 200, sb_nlog = 31,
           sb_logstart = 2, sb_inodestart = 33, sb_bmapstart = 46\<rparr>,
     itable = (\<lambda>_. \<lparr>i_dev = 0, i_inum = 0, i_ref = 0, i_valid = False, i_type = 0, i_major = 0, i_minor = 0,
                 i_nlink = 0, i_size = 0, i_addrs = (\<lambda>_. 0)\<rparr>),
     cons = \<lparr>c_buf = (\<lambda>i. of_nat (i + 30)), c_r = - 1, c_w = 1, c_e = 3\<rparr>, tx_busy = False, uart_out = [],
     uart_rx = [], uart_idle = True, devsw_console = (\<lambda>d. d = CONSOLE), panicking = False, panicked = False\<rparr>"

theorem consoleintr_line_edit_witness:
  "runs (consoleintr 13 demo_cons) (\<lambda>t. (committed (cons t), pending (cons t)) = ([157, 30, 31, 32, 10], []))"
proof -
  have io: "committed (cons demo_cons) = [157, 30]" "pending (cons demo_cons) = [31, 32]" "cons_ok (cons demo_cons)"
    by (simp_all add: demo_cons_def committed_def pending_def cons_ok_def slot_of_def INPUT_BUF_SIZE_def upt_rec)
  have "runs (consoleintr 13 demo_cons) (\<lambda>t. cons_ok (cons t) \<and> 10 \<notin> set (pending (cons t)) \<and> held t = held demo_cons
     \<and> (committed (cons t), pending (cons t)) = line_edit 13 (committed (cons demo_cons), pending (cons demo_cons)))"
    using demo_ready
    by (intro consoleintr_line_edit)
      (auto simp: io, auto simp: demo_cons_def ready_exact_def sched_ok_def queues_free_def)
  then show ?thesis unfolding io by (elim runsE) (simp add: runs_def line_edit_def control_def)
qed

end
