(* ===== verification/File.thy ===== *)
theory File
  imports Console
begin

text \<open>
  Pipes (\<^verbatim>\<open>kernel/pipe.c\<close>) and the table of open files (\<^verbatim>\<open>kernel/file.c\<close>).

  A \<^verbatim>\<open>struct pipe\<close> lives in a page from the page allocator and is identified by its address; its
  fields are kept in a table by address.  A file pointer is an index into \<^verbatim>\<open>ftable.file\<close>.
\<close>

section \<open>State\<close>

definition PIPESIZE :: uint_t where "PIPESIZE = 512"
definition NFILE :: nat where "NFILE = 100"

record pipe =
  pi_data :: "nat \<Rightarrow> uint8"
  pi_nread :: uint_t
  pi_nwrite :: uint_t
  pi_readopen :: bool
  pi_writeopen :: bool

datatype ftype = FD_NONE | FD_PIPE | FD_INODE | FD_DEVICE

record open_file =
  f_type :: ftype
  f_ref :: int
  f_readable :: bool
  f_writable :: bool
  f_pipe :: uint64
  f_ip :: nat
  f_off :: uint_t
  f_major :: uint16

record file_state = cons_state +
  pipes :: "uint64 \<Rightarrow> pipe"
  ftable :: "nat \<Rightarrow> open_file"

definition upd_pipe :: "uint64 \<Rightarrow> (pipe \<Rightarrow> pipe) \<Rightarrow> 'a file_state_scheme \<Rightarrow> 'a file_state_scheme" where
  "upd_pipe pi f s = s\<lparr>pipes := (pipes s)(pi := f (pipes s pi))\<rparr>"

definition upd_file :: "nat \<Rightarrow> (open_file \<Rightarrow> open_file) \<Rightarrow> 'a file_state_scheme \<Rightarrow> 'a file_state_scheme" where
  "upd_file f g s = s\<lparr>ftable := (ftable s)(f := g (ftable s f))\<rparr>"

section \<open>Pipes\<close>

text \<open>One byte in and out of the ring: \<^verbatim>\<open>pi->data[pi->nwrite++ % PIPESIZE] = ch\<close>, and
  \<^verbatim>\<open>pi->data[pi->nread % PIPESIZE]\<close> followed by \<^verbatim>\<open>pi->nread++\<close>.\<close>

definition pipe_full :: "pipe \<Rightarrow> bool" where
  "pipe_full x \<longleftrightarrow> pi_nwrite x = pi_nread x + PIPESIZE"

definition pipe_empty :: "pipe \<Rightarrow> bool" where
  "pipe_empty x \<longleftrightarrow> pi_nread x = pi_nwrite x"

definition pipe_put :: "uint8 \<Rightarrow> pipe \<Rightarrow> pipe" where
  "pipe_put ch x = x\<lparr>pi_data := (pi_data x)(unat (pi_nwrite x mod PIPESIZE) := ch),
                      pi_nwrite := pi_nwrite x + 1\<rparr>"

definition pipe_head :: "pipe \<Rightarrow> uint8" where
  "pipe_head x = pi_data x (unat (pi_nread x mod PIPESIZE))"

definition pipe_drop :: "pipe \<Rightarrow> pipe" where
  "pipe_drop x = x\<lparr>pi_nread := pi_nread x + 1\<rparr>"

definition pipeclose :: "uint64 \<Rightarrow> bool \<Rightarrow> 'a file_state_scheme \<Rightarrow> 'a file_state_scheme option" where
  "pipeclose pi writable s = do {
     s \<leftarrow> acq (PipeLock pi) s;
     s \<leftarrow>
       (if writable then wakeup (ChanPipeRead pi) (upd_pipe pi (\<lambda>x. x\<lparr>pi_writeopen := False\<rparr>) s)
        else wakeup (ChanPipeWrite pi) (upd_pipe pi (\<lambda>x. x\<lparr>pi_readopen := False\<rparr>) s));
     if \<not> pi_readopen (pipes s pi) \<and> \<not> pi_writeopen (pipes s pi)
     then do { s \<leftarrow> rel (PipeLock pi) s; kfree pi s }
     else rel (PipeLock pi) s
   }"

partial_function (option) pipewrite_loop :: "uint64 \<Rightarrow> nat \<Rightarrow> uint64 \<Rightarrow> int \<Rightarrow> int
    \<Rightarrow> 'a file_state_scheme \<Rightarrow> (int outcome \<times> 'a file_state_scheme) option" where
  "pipewrite_loop pi pr addr n i s =
     (if i < n
      then do {
        (dead, s) \<leftarrow> (if \<not> pi_readopen (pipes s pi) then Some (True, s)
                     else do { (k, s) \<leftarrow> killed pr s; Some (k \<noteq> 0, s) });
        if dead
        then do { s \<leftarrow> rel (PipeLock pi) s; Some (Done (- 1), s) }
        else if pipe_full (pipes s pi)
        then do {
          s \<leftarrow> wakeup (ChanPipeRead pi) s;
          s \<leftarrow> sleep (ChanPipeWrite pi) (PipeLock pi) s;
          Some (Asleep (WaitPipeWrite i), s) }
        else do {
          (r, ch, s) \<leftarrow> copyin (p_pagetable (procs s pr)) (addr + of_int i) 1 s;
          if r = - 1
          then do {
            s \<leftarrow> wakeup (ChanPipeRead pi) s;
            s \<leftarrow> rel (PipeLock pi) s;
            Some (Done i, s) }
          else pipewrite_loop pi pr addr n (i + 1) (upd_pipe pi (pipe_put (ch ! 0)) s) } }
      else do {
        s \<leftarrow> wakeup (ChanPipeRead pi) s;
        s \<leftarrow> rel (PipeLock pi) s;
        Some (Done i, s) })"

definition pipewrite :: "uint64 \<Rightarrow> uint64 \<Rightarrow> int \<Rightarrow> 'a file_state_scheme
    \<Rightarrow> (int outcome \<times> 'a file_state_scheme) option" where
  "pipewrite pi addr n s = do {
     pr \<leftarrow> myproc s;
     s \<leftarrow> acq (PipeLock pi) s;
     pipewrite_loop pi pr addr n 0 s
   }"

definition pipewrite_resume :: "uint64 \<Rightarrow> nat \<Rightarrow> uint64 \<Rightarrow> int \<Rightarrow> int
    \<Rightarrow> 'a file_state_scheme \<Rightarrow> (int outcome \<times> 'a file_state_scheme) option" where
  "pipewrite_resume pi pr addr n i s = do {
     s \<leftarrow> sleep_resume pr (PipeLock pi) s;
     pipewrite_loop pi pr addr n i s
   }"

partial_function (option) piperead_loop :: "uint64 \<Rightarrow> nat \<Rightarrow> uint64 \<Rightarrow> int \<Rightarrow> int
    \<Rightarrow> 'a file_state_scheme \<Rightarrow> (int \<times> 'a file_state_scheme) option" where
  "piperead_loop pi pr addr n i s =
     (if i < n \<and> \<not> pipe_empty (pipes s pi)
      then do {
        (r, s) \<leftarrow> copyout (p_pagetable (procs s pr)) (addr + of_int i) [pipe_head (pipes s pi)] s;
        if r = - 1 then Some (if i = 0 then - 1 else i, s)
        else piperead_loop pi pr addr n (i + 1) (upd_pipe pi pipe_drop s) }
      else Some (i, s))"

definition piperead_enter :: "uint64 \<Rightarrow> nat \<Rightarrow> uint64 \<Rightarrow> int
    \<Rightarrow> 'a file_state_scheme \<Rightarrow> (int outcome \<times> 'a file_state_scheme) option" where
  "piperead_enter pi pr addr n s =
     (if pipe_empty (pipes s pi) \<and> pi_writeopen (pipes s pi)
      then do {
        (k, s) \<leftarrow> killed pr s;
        if k \<noteq> 0 then do { s \<leftarrow> rel (PipeLock pi) s; Some (Done (- 1), s) }
        else do {
          s \<leftarrow> sleep (ChanPipeRead pi) (PipeLock pi) s;
          Some (Asleep WaitPipeRead, s) } }
      else do {
        (i, s) \<leftarrow> piperead_loop pi pr addr n 0 s;
        s \<leftarrow> wakeup (ChanPipeWrite pi) s;
        s \<leftarrow> rel (PipeLock pi) s;
        Some (Done i, s) })"

definition piperead :: "uint64 \<Rightarrow> uint64 \<Rightarrow> int \<Rightarrow> 'a file_state_scheme
    \<Rightarrow> (int outcome \<times> 'a file_state_scheme) option" where
  "piperead pi addr n s = do {
     pr \<leftarrow> myproc s;
     s \<leftarrow> acq (PipeLock pi) s;
     piperead_enter pi pr addr n s
   }"

definition piperead_resume :: "uint64 \<Rightarrow> nat \<Rightarrow> uint64 \<Rightarrow> int
    \<Rightarrow> 'a file_state_scheme \<Rightarrow> (int outcome \<times> 'a file_state_scheme) option" where
  "piperead_resume pi pr addr n s = do {
     s \<leftarrow> sleep_resume pr (PipeLock pi) s;
     piperead_enter pi pr addr n s
   }"

section \<open>Open files\<close>

definition filealloc :: "'a file_state_scheme \<Rightarrow> (nat option \<times> 'a file_state_scheme) option" where
  "filealloc s = do {
     s \<leftarrow> acq FtableLock s;
     case find (\<lambda>f. f_ref (ftable s f) = 0) [0..<NFILE] of
       Some f \<Rightarrow> do {
         let s = upd_file f (\<lambda>x. x\<lparr>f_ref := 1\<rparr>) s;
         s \<leftarrow> rel FtableLock s;
         Some (Some f, s) }
     | None \<Rightarrow> do {
         s \<leftarrow> rel FtableLock s;
         Some (None, s) }
   }"

definition filedup :: "nat \<Rightarrow> 'a file_state_scheme \<Rightarrow> (nat \<times> 'a file_state_scheme) option" where
  "filedup f s = do {
     s \<leftarrow> acq FtableLock s;
     if f_ref (ftable s f) < 1 then panic ''filedup''
     else do {
       s \<leftarrow> rel FtableLock (upd_file f (\<lambda>x. x\<lparr>f_ref := f_ref x + 1\<rparr>) s);
       Some (f, s) }
   }"

definition fileclose :: "nat \<Rightarrow> 'a file_state_scheme \<Rightarrow> 'a file_state_scheme option" where
  "fileclose f s = do {
     s \<leftarrow> acq FtableLock s;
     if f_ref (ftable s f) < 1 then panic ''fileclose''
     else do {
       let s = upd_file f (\<lambda>x. x\<lparr>f_ref := f_ref x - 1\<rparr>) s;
       if f_ref (ftable s f) > 0 then rel FtableLock s
       else do {
         let ff = ftable s f;
         let s = upd_file f (\<lambda>x. x\<lparr>f_ref := 0, f_type := FD_NONE\<rparr>) s;
         s \<leftarrow> rel FtableLock s;
         if f_type ff = FD_PIPE then pipeclose (f_pipe ff) (f_writable ff) s
         else if f_type ff = FD_INODE \<or> f_type ff = FD_DEVICE
         then do {
           s \<leftarrow> begin_op s;
           s \<leftarrow> iput (f_ip ff) s;
           end_op s }
         else Some s } }
   }"

definition pipealloc_bad :: "nat option \<Rightarrow> nat option \<Rightarrow> 'a file_state_scheme
    \<Rightarrow> ((nat \<times> nat) option \<times> 'a file_state_scheme) option" where
  "pipealloc_bad f0 f1 s = do {
     s \<leftarrow> (case f0 of None \<Rightarrow> Some s | Some f \<Rightarrow> fileclose f s);
     s \<leftarrow> (case f1 of None \<Rightarrow> Some s | Some f \<Rightarrow> fileclose f s);
     Some (None, s)
   }"

definition pipealloc :: "'a file_state_scheme \<Rightarrow> ((nat \<times> nat) option \<times> 'a file_state_scheme) option" where
  "pipealloc s = do {
     (f0, s) \<leftarrow> filealloc s;
     case f0 of
       None \<Rightarrow> pipealloc_bad None None s
     | Some r \<Rightarrow> do {
         (f1, s) \<leftarrow> filealloc s;
         case f1 of
           None \<Rightarrow> pipealloc_bad (Some r) None s
         | Some w \<Rightarrow> do {
             (pi, s) \<leftarrow> kalloc s;
             if pi = 0 then pipealloc_bad (Some r) (Some w) s
             else do {
               let s = upd_pipe pi (\<lambda>x. x\<lparr>pi_readopen := True, pi_writeopen := True,
                                           pi_nwrite := 0, pi_nread := 0\<rparr>) s;
               let s = upd_file r (\<lambda>x. x\<lparr>f_type := FD_PIPE, f_readable := True, f_writable := False,
                                          f_pipe := pi\<rparr>) s;
               let s = upd_file w (\<lambda>x. x\<lparr>f_type := FD_PIPE, f_readable := False, f_writable := True,
                                          f_pipe := pi\<rparr>) s;
               Some (Some (r, w), s) } } }
   }"

text \<open>The bytes of a \<^verbatim>\<open>struct stat\<close>: 24 bytes, the fields at their C offsets.\<close>

definition le_bytes :: "nat \<Rightarrow> 'a::len word \<Rightarrow> uint8 list" where
  "le_bytes k v = map (\<lambda>i. ucast (drop_bit (8 * i) v)) [0..<k]"

definition stat_bytes :: "stat \<Rightarrow> uint8 list" where
  "stat_bytes st = le_bytes 4 (of_int (st_dev st) :: uint32) @ le_bytes 4 (st_ino st)
     @ le_bytes 2 (st_type st) @ le_bytes 2 (st_nlink st) @ replicate 4 0 @ le_bytes 8 (st_size st)"

definition filestat :: "nat \<Rightarrow> uint64 \<Rightarrow> 'a file_state_scheme \<Rightarrow> (int \<times> 'a file_state_scheme) option" where
  "filestat f addr s = do {
     p \<leftarrow> myproc s;
     if f_type (ftable s f) = FD_INODE \<or> f_type (ftable s f) = FD_DEVICE
     then do {
       s \<leftarrow> ilock (f_ip (ftable s f)) s;
       let st = stati (f_ip (ftable s f)) s;
       s \<leftarrow> iunlock (f_ip (ftable s f)) s;
       (r, s) \<leftarrow> copyout (p_pagetable (procs s p)) addr (stat_bytes st) s;
       Some (if r < 0 then - 1 else 0, s) }
     else Some (- 1, s)
   }"

definition device_ok :: "nat \<Rightarrow> 'a file_state_scheme \<Rightarrow> bool" where
  "device_ok f s \<longleftrightarrow> 0 \<le> sint (f_major (ftable s f)) \<and> sint (f_major (ftable s f)) < int NDEV
     \<and> devsw_console s (unat (f_major (ftable s f)))"

definition fileread :: "nat \<Rightarrow> uint64 \<Rightarrow> int \<Rightarrow> 'a file_state_scheme
    \<Rightarrow> (int outcome \<times> 'a file_state_scheme) option" where
  "fileread f addr n s =
     (if \<not> f_readable (ftable s f) then Some (Done (- 1), s)
      else case f_type (ftable s f) of
        FD_PIPE \<Rightarrow> piperead (f_pipe (ftable s f)) addr n s
      | FD_DEVICE \<Rightarrow>
          if \<not> device_ok f s then Some (Done (- 1), s) else consoleread (UserVa addr) n s
      | FD_INODE \<Rightarrow> do {
          s \<leftarrow> ilock (f_ip (ftable s f)) s;
          (r, _, s) \<leftarrow> readi (f_ip (ftable s f)) (UserVa addr) (f_off (ftable s f)) (of_int n) s;
          let s = (if r > 0 then upd_file f (\<lambda>x. x\<lparr>f_off := f_off x + of_int r\<rparr>) s else s);
          s \<leftarrow> iunlock (f_ip (ftable s f)) s;
          Some (Done r, s) }
      | FD_NONE \<Rightarrow> panic ''fileread'')"

text \<open>\<open>filewrite\<close> on an inode: a transaction for each piece of at most \<open>filewrite_max\<close> bytes.\<close>

definition filewrite_max :: nat where
  "filewrite_max = ((MAXOPBLOCKS - 1 - 1 - 2) div 2) * BSIZE"

partial_function (option) filewrite_loop :: "nat \<Rightarrow> uint64 \<Rightarrow> int \<Rightarrow> int
    \<Rightarrow> 'a file_state_scheme \<Rightarrow> (int \<times> 'a file_state_scheme) option" where
  "filewrite_loop f addr n i s =
     (if i < n
      then do {
        let n1 = min (n - i) (int filewrite_max);
        s \<leftarrow> begin_op s;
        s \<leftarrow> ilock (f_ip (ftable s f)) s;
        (r, s) \<leftarrow> writei (f_ip (ftable s f)) (UserVa (addr + of_int i)) (f_off (ftable s f)) (of_int n1) s;
        let s = (if r > 0 then upd_file f (\<lambda>x. x\<lparr>f_off := f_off x + of_int r\<rparr>) s else s);
        s \<leftarrow> iunlock (f_ip (ftable s f)) s;
        s \<leftarrow> end_op s;
        if r \<noteq> n1 then Some (i, s) else filewrite_loop f addr n (i + r) s }
      else Some (i, s))"

definition filewrite :: "nat \<Rightarrow> uint64 \<Rightarrow> int \<Rightarrow> 'a file_state_scheme
    \<Rightarrow> (int outcome \<times> 'a file_state_scheme) option" where
  "filewrite f addr n s =
     (if \<not> f_writable (ftable s f) then Some (Done (- 1), s)
      else case f_type (ftable s f) of
        FD_PIPE \<Rightarrow> pipewrite (f_pipe (ftable s f)) addr n s
      | FD_DEVICE \<Rightarrow>
          if \<not> device_ok f s then Some (Done (- 1), s) else consolewrite (UserVa addr) n s
      | FD_INODE \<Rightarrow> do {
          (i, s) \<leftarrow> filewrite_loop f addr n 0 s;
          Some (Done (if i = n then n else - 1), s) }
      | FD_NONE \<Rightarrow> panic ''filewrite'')"

section \<open>The ring buffer is a bounded queue\<close>

definition pipe_contents :: "pipe \<Rightarrow> uint8 list" where
  "pipe_contents x = map (\<lambda>k. pi_data x (unat ((pi_nread x + of_nat k) mod PIPESIZE)))
     [0..<unat (pi_nwrite x - pi_nread x)]"

definition pipe_ok :: "pipe \<Rightarrow> bool" where
  "pipe_ok x \<longleftrightarrow> unat (pi_nwrite x - pi_nread x) \<le> 512"

lemma PIPESIZE_mask: "w mod PIPESIZE = take_bit 9 w"
  by (simp add: PIPESIZE_def take_bit_eq_mod)

lemma ring_slot: "unat ((r + of_nat k) mod PIPESIZE) = (unat r + k) mod 512" if "k < 2 ^ 32" for r :: uint_t
proof -
  have "unat ((r + of_nat k) mod PIPESIZE) = unat (r + of_nat k) mod 512"
    by (simp add: PIPESIZE_def unat_mod)
  also have "unat (r + of_nat k) = (unat r + k) mod 2 ^ 32"
    using that by (simp add: unat_word_ariths unat_of_nat take_bit_eq_mod)
  also have "(unat r + k) mod 2 ^ 32 mod 512 = (unat r + k) mod 512"
    by (simp add: mod_mod_cancel)
  finally show ?thesis .
qed

lemma ring_slots_apart:
  fixes r :: uint_t
  assumes "j < k" and "k < 512"
  shows "unat ((r + of_nat j) mod PIPESIZE) \<noteq> unat ((r + of_nat k) mod PIPESIZE)"
proof
  assume "unat ((r + of_nat j) mod PIPESIZE) = unat ((r + of_nat k) mod PIPESIZE)"
  then have "(unat r + j) mod 512 = (unat r + k) mod 512" using assms by (simp add: ring_slot)
  then have "(k - j) mod 512 = 0"
    using assms(1) by (metis add_diff_cancel_left less_imp_le_nat mod_eq_dvd_iff_nat mod_0_imp_dvd mod_eq_0_iff_dvd nat_add_left_cancel_le)
  then show False using assms by simp
qed

lemma pipe_full_iff: "pipe_full x \<longleftrightarrow> length (pipe_contents x) = 512"
proof -
  have "pipe_full x \<longleftrightarrow> pi_nwrite x - pi_nread x = 512"
    by (auto simp: pipe_full_def PIPESIZE_def algebra_simps)
  also have "\<dots> \<longleftrightarrow> unat (pi_nwrite x - pi_nread x) = unat (512 :: uint_t)"
    by (simp only: word_unat_eq_iff)
  finally show ?thesis by (simp add: pipe_contents_def)
qed

lemma pipe_empty_iff: "pipe_empty x \<longleftrightarrow> pipe_contents x = []"
  by (auto simp: pipe_empty_def pipe_contents_def unat_eq_0)

lemma pipe_put_contents:
  assumes "pipe_ok x" and "\<not> pipe_full x"
  shows "pipe_contents (pipe_put ch x) = pipe_contents x @ [ch]" and "pipe_ok (pipe_put ch x)"
proof -
  define n where "n = unat (pi_nwrite x - pi_nread x)"
  have n: "n < 512" using assms by (simp add: pipe_ok_def pipe_full_iff pipe_contents_def n_def)
  have w: "pi_nwrite x = pi_nread x + of_nat n" by (simp add: n_def)
  have n1: "unat (pi_nwrite x + 1 - pi_nread x) = Suc n"
  proof -
    have "pi_nwrite x + 1 - pi_nread x = of_nat (Suc n)" by (simp add: w)
    then show ?thesis using n by (simp add: unat_of_nat take_bit_eq_mod del: of_nat_Suc)
  qed
  show "pipe_ok (pipe_put ch x)" using n n1 by (simp add: pipe_ok_def pipe_put_def)
  have "pi_data (pipe_put ch x) (unat ((pi_nread x + of_nat k) mod PIPESIZE)) =
      pi_data x (unat ((pi_nread x + of_nat k) mod PIPESIZE))" if "k < n" for k
    using ring_slots_apart [OF that n, of "pi_nread x"] by (simp add: pipe_put_def w)
  moreover have "pi_data (pipe_put ch x) (unat ((pi_nread x + of_nat n) mod PIPESIZE)) = ch"
    by (simp add: pipe_put_def w)
  moreover have "pi_nread (pipe_put ch x) = pi_nread x" "pi_nwrite (pipe_put ch x) = pi_nwrite x + 1"
    by (simp_all add: pipe_put_def)
  ultimately show "pipe_contents (pipe_put ch x) = pipe_contents x @ [ch]"
    by (simp add: pipe_contents_def n1 n_def [symmetric])
qed

lemma pipe_drop_contents:
  assumes "pipe_ok x" and "\<not> pipe_empty x"
  shows "pipe_contents x = pipe_head x # pipe_contents (pipe_drop x)" and "pipe_ok (pipe_drop x)"
proof -
  define n where "n = unat (pi_nwrite x - pi_nread x)"
  have n: "n \<noteq> 0" "n \<le> 512"
    using assms by (auto simp: pipe_ok_def pipe_empty_iff pipe_contents_def n_def)
  then obtain m where m: "n = Suc m" by (cases n) auto
  have n1: "unat (pi_nwrite x - (pi_nread x + 1)) = m"
  proof -
    have "pi_nwrite x - (pi_nread x + 1) = of_nat n - 1" by (simp add: n_def algebra_simps)
    then show ?thesis using n m by (simp add: unat_of_nat take_bit_eq_mod)
  qed
  show "pipe_ok (pipe_drop x)" using n m n1 by (simp add: pipe_ok_def pipe_drop_def)
  show "pipe_contents x = pipe_head x # pipe_contents (pipe_drop x)"
    by (simp add: pipe_contents_def n_def [symmetric] m upt_conv_Cons map_Suc_upt [symmetric]
        pipe_head_def pipe_drop_def n1 add.assoc comp_def del: upt_Suc)
qed

section \<open>Writing to a pipe\<close>

text \<open>The user bytes \<open>bs\<close> at \<open>addr\<close>, on resident pages of the page table \<open>pt\<close>.\<close>

definition user_bytes :: "memory \<Rightarrow> uint64 \<Rightarrow> uint64 \<Rightarrow> uint8 list \<Rightarrow> bool" where
  "user_bytes m pt addr bs \<longleftrightarrow> (\<forall>i < length bs.
     let a = addr + of_nat i; va0 = PGROUNDDOWN a in
     case walkaddr m pt va0 of
       None \<Rightarrow> False
     | Some pa \<Rightarrow> pa \<noteq> 0 \<and> m (pa + (a - va0)) = bs ! i)"

lemma page_rest: "0 < unat (PGSIZE - (a - PGROUNDDOWN a))"
proof -
  have "unat (a - PGROUNDDOWN a) < 4096"
    by (simp add: unat_sub_if' unat_PGROUNDDOWN)
  then have "a - PGROUNDDOWN a \<noteq> PGSIZE" by (auto simp: PGSIZE_def)
  then show ?thesis by (simp add: unat_gt_0)
qed

lemma copyin_byte:
  assumes "user_bytes (mem s) pt addr bs" and "i < length bs"
  shows "copyin pt (addr + of_nat i) 1 s = Some (0, [bs ! i], s)"
proof -
  let ?a = "addr + of_nat i :: uint64"
  obtain pa where pa: "walkaddr (mem s) pt (PGROUNDDOWN ?a) = Some pa" "pa \<noteq> 0"
      "mem s (pa + (?a - PGROUNDDOWN ?a)) = bs ! i"
    using assms by (fastforce simp: user_bytes_def Let_def split: option.splits)
  have n: "min (unat (PGSIZE - (?a - PGROUNDDOWN ?a))) (Suc 0) = Suc 0" using page_rest [of ?a] by simp
  have "copyin_from pt [] ?a 1 s = copyin_from pt [bs ! i] (PGROUNDDOWN ?a + PGSIZE) 0 s"
    by (subst copyin_from.simps) (simp add: user_page_def pa n load_bytes_def Let_def)
  then show ?thesis by (simp add: copyin_def copyin_from.simps)
qed

lemma killed_eq: "ProcLock p \<notin> held s \<Longrightarrow> killed p s = Some (p_killed (procs s p), s)"
  by (simp add: killed_def lock_simps)

lemma upd_pipe_simps [simp]:
  "pipes (upd_pipe pi f s) = (pipes s)(pi := f (pipes s pi))" "mem (upd_pipe pi f s) = mem s"
  "procs (upd_pipe pi f s) = procs s" "held (upd_pipe pi f s) = held s"
  "pqueue (upd_pipe pi f s) = pqueue s" "cpu_proc (upd_pipe pi f s) = cpu_proc s" "tp (upd_pipe pi f s) = tp s"
  by (simp_all add: upd_pipe_def)

lemma pipe_put_open [simp]:
  "pi_readopen (pipe_put c x) = pi_readopen x" "pi_writeopen (pipe_put c x) = pi_writeopen x"
  "pi_readopen (fold pipe_put cs x) = pi_readopen x" "pi_writeopen (fold pipe_put cs x) = pi_writeopen x"
  by (simp_all add: pipe_put_def, (induction cs arbitrary: x; simp add: pipe_put_def)+)

lemma fold_pipe_put:
  "pipe_ok x \<Longrightarrow> length (pipe_contents x) + length cs \<le> 512 \<Longrightarrow>
   pipe_contents (fold pipe_put cs x) = pipe_contents x @ cs \<and> pipe_ok (fold pipe_put cs x)"
proof (induction cs arbitrary: x)
  case (Cons c cs)
  then have "\<not> pipe_full x" by (simp add: pipe_full_iff)
  with Cons show ?case by (simp add: pipe_put_contents)
qed simp

lemma upd_pipe_comp [simp]: "upd_pipe pi f (upd_pipe pi g s) = upd_pipe pi (\<lambda>x. f (g x)) s"
  by (simp add: upd_pipe_def)

text \<open>The loop copies bytes while there is room.\<close>

lemma pipewrite_loop_copies:
  assumes "user_bytes (mem s) (p_pagetable (procs s pr)) addr bs" and "pi_readopen (pipes s pi)"
    and "p_killed (procs s pr) = 0" and "ProcLock pr \<notin> held s" and "pipe_ok (pipes s pi)"
    and "i + k \<le> length bs" and "length (pipe_contents (pipes s pi)) + k \<le> 512"
  shows "pipewrite_loop pi pr addr (int (length bs)) (int i) s =
     pipewrite_loop pi pr addr (int (length bs)) (int (i + k))
       (upd_pipe pi (fold pipe_put (take k (drop i bs))) s)"
  using assms
proof (induction k arbitrary: i s)
  case 0
  then show ?case by (simp add: upd_pipe_def)
next
  case (Suc k)
  let ?t = "upd_pipe pi (pipe_put (bs ! i)) s"
  have nf: "\<not> pipe_full (pipes s pi)" using Suc.prems by (simp add: pipe_full_iff)
  have i: "i < length bs" using Suc.prems by simp
  have "copyin (p_pagetable (procs s pr)) (addr + of_nat i) (Suc 0) s = Some (0, [bs ! i], s)"
    using copyin_byte [OF Suc.prems(1) i] by simp
  then have "pipewrite_loop pi pr addr (int (length bs)) (int i) s =
      pipewrite_loop pi pr addr (int (length bs)) (int i + 1) ?t"
    using Suc.prems i nf by (subst pipewrite_loop.simps) (simp add: killed_eq)
  also have "int i + 1 = int (Suc i)" by simp
  also have "pipewrite_loop pi pr addr (int (length bs)) (int (Suc i)) ?t =
      pipewrite_loop pi pr addr (int (length bs)) (int (Suc i + k))
        (upd_pipe pi (fold pipe_put (take k (drop (Suc i) bs))) ?t)"
    using Suc.prems nf by (intro Suc.IH) (simp_all add: pipe_put_contents)
  also have "upd_pipe pi (fold pipe_put (take k (drop (Suc i) bs))) ?t =
      upd_pipe pi (fold pipe_put (take (Suc k) (drop i bs))) s"
    using i by (simp add: Cons_nth_drop_Suc [symmetric] comp_def)
  finally show ?case by simp
qed

text \<open>Waking up the readers changes process states and queues only.\<close>

lemma make_ready_file [simp]:
  "pipes (make_ready p s) = pipes s" "mem (make_ready p s) = mem s" "ftable (make_ready p s) = ftable s"
  "pipes (fold make_ready ps s) = pipes s" "mem (fold make_ready ps s) = mem s"
  "ftable (fold make_ready ps s) = ftable s"
  by (simp_all add: make_ready_def upd_proc_def upd_queue_def,
      (induction ps arbitrary: s; simp add: make_ready_def upd_proc_def upd_queue_def)+)

lemma pipewrite_fills:
  assumes "myproc s = Some pr" and "held s = {}" and "user_bytes (mem s) (p_pagetable (procs s pr)) addr bs"
    and "p_killed (procs s pr) = 0" and "pi_readopen (pipes s pi)" and "pipe_ok (pipes s pi)"
    and "k \<le> length bs" and "length (pipe_contents (pipes s pi)) + k \<le> 512"
    and t: "t = upd_pipe pi (fold pipe_put (take k bs)) (s\<lparr>held := {PipeLock pi}\<rparr>)"
  shows "pipewrite pi addr (int (length bs)) s = pipewrite_loop pi pr addr (int (length bs)) (int k) t"
    and "pipe_contents (pipes t pi) = pipe_contents (pipes s pi) @ take k bs" and "pipe_ok (pipes t pi)"
    and "(if \<not> pi_readopen (pipes t pi) then Some (True, t)
      else do { (k, s) \<leftarrow> killed pr t; Some (k \<noteq> 0, s) }) = Some (False, t)"
proof -
  show "pipewrite pi addr (int (length bs)) s = pipewrite_loop pi pr addr (int (length bs)) (int k) t"
    using pipewrite_loop_copies [of "s\<lparr>held := {PipeLock pi}\<rparr>" pr addr bs pi 0 k] assms
    by (simp add: pipewrite_def acq_free)
  show "pipe_contents (pipes t pi) = pipe_contents (pipes s pi) @ take k bs" "pipe_ok (pipes t pi)"
    using fold_pipe_put [of "pipes s pi" "take k bs"] assms(6-8) t by simp_all
  show "(if \<not> pi_readopen (pipes t pi) then Some (True, t)
      else do { (k, s) \<leftarrow> killed pr t; Some (k \<noteq> 0, s) }) = Some (False, t)"
    using assms(4,5) t by (simp add: killed_eq)
qed

text \<open>C26.  Writing to a pipe.  A live process that writes \<open>bs\<close> from resident memory to a pipe whose read end is
  open appends the bytes to the pipe in order.  When they all fit, the call returns their number and every
  reader asleep on the pipe is made runnable.  When they do not, exactly the bytes that fit are appended, the
  readers are woken and the writer sleeps, having released all locks, with the number of bytes
  written so far.  User memory does not change.\<close>

theorem pipewrite_correct:
  assumes "myproc s = Some pr" and "pr < NPROC" and "held s = {}" and "sched_ok s"
    and "user_bytes (mem s) (p_pagetable (procs s pr)) addr bs" and "p_killed (procs s pr) = 0"
    and "pi_readopen (pipes s pi)" and "pipe_ok (pipes s pi)"
    and "room = 512 - length (pipe_contents (pipes s pi))"
  shows "runs (pipewrite pi addr (int (length bs)) s) (\<lambda>(r, t).
     pipe_contents (pipes t pi) = pipe_contents (pipes s pi) @ take room bs
   \<and> r = (if length bs \<le> room then Done (int (length bs)) else Asleep (WaitPipeWrite (int room)))
   \<and> p_state (procs t pr) = (if length bs \<le> room then p_state (procs s pr) else SLEEPING)
   \<and> (\<forall>q < NPROC. wakes (ChanPipeRead pi) s q \<longrightarrow> p_state (procs t q) = RUNNABLE)
   \<and> mem t = mem s \<and> held t = {} \<and> pipe_ok (pipes t pi))"
proof -
  let ?k = "min room (length bs)"
  let ?s = "s\<lparr>held := {PipeLock pi}\<rparr>"
  let ?t = "upd_pipe pi (fold pipe_put (take ?k bs)) ?s"
  let ?W = "filter (wakes (ChanPipeRead pi) ?t) [0..<NPROC]"
  let ?u = "fold make_ready ?W ?t"
  have room: "length (pipe_contents (pipes s pi)) + room = 512"
    using assms(8,9) by (simp add: pipe_ok_def pipe_contents_def)
  have k: "?k \<le> length bs" "length (pipe_contents (pipes s pi)) + ?k \<le> 512" using room by simp_all
  note fills = pipewrite_fills [OF assms(1,3,5-8) k refl]
  note loop = fills(1) and cont = fills(2,3) and dead = fills(4)
  have ok: "sched_ok ?t" using assms(4) by (simp add: sched_ok_def)
  have wake: "wakeup (ChanPipeRead pi) ?t = Some ?u"
    by (rule wakeup_eq) (simp_all add: ok queues_free_def)
  have self: "pr \<notin> set ?W" using assms(1) by (simp add: wakes_def myproc_def)
  have woken: "wakes (ChanPipeRead pi) s q \<Longrightarrow> q < NPROC \<Longrightarrow> q \<in> set ?W" for q
    by (simp add: wakes_def myproc_def)
  show ?thesis
  proof (cases "length bs \<le> room")
    case True
    then have k: "?k = length bs" by simp
    have "pipewrite_loop pi pr addr (int (length bs)) (int ?k) ?t =
        Some (Done (int (length bs)), ?u\<lparr>held := {}\<rparr>)"
      unfolding k by (subst pipewrite_loop.simps) (use wake k in \<open>simp add: rel_held'\<close>)
    then show ?thesis
      using cont True self woken unfolding loop by (auto simp: fold_make_ready_procs)
  next
    case False
    then have k: "?k = room" and less: "room < length bs" by simp_all
    have full: "pipe_full (pipes ?t pi)" using cont room less by (simp add: pipe_full_iff)
    have "sleep (ChanPipeWrite pi) (PipeLock pi) ?u = Some
        ((upd_proc pr (\<lambda>x. x\<lparr>p_chan := Some (ChanPipeWrite pi), p_state := SLEEPING\<rparr>) ?u)
          \<lparr>cpu_proc := (cpu_proc ?u)(tp ?u := None), held := {}\<rparr>)"
      using assms(1) by (intro sleep_eq) (simp_all add: myproc_def)
    then have "pipewrite_loop pi pr addr (int (length bs)) (int ?k) ?t =
        Some (Asleep (WaitPipeWrite (int room)),
          (upd_proc pr (\<lambda>x. x\<lparr>p_chan := Some (ChanPipeWrite pi), p_state := SLEEPING\<rparr>) ?u)
          \<lparr>cpu_proc := (cpu_proc ?u)(tp ?u := None), held := {}\<rparr>)"
      by (subst pipewrite_loop.simps, subst dead) (use wake k less full in simp)
    then show ?thesis
      using cont False self woken less unfolding loop k
      by (auto simp: fold_make_ready_procs upd_proc_def)
  qed
qed

section \<open>A concrete state\<close>

definition demo_user_mem :: memory where
  "demo_user_mem =
     write64 0x80200000 (PA2PTE 0x80201000 OR PTE_V)
    (write64 0x80201000 (PA2PTE 0x80202000 OR PTE_V)
    (write64 0x80202000 (PA2PTE 0x80300000 OR PTE_V OR PTE_U OR PTE_R OR PTE_W)
       (\<lambda>a. if a = 0x80300000 then 104 else if a = 0x80300001 then 105 else 0)))"

definition demo_pipe :: pipe where
  "demo_pipe = \<lparr>pi_data = (\<lambda>_. 65), pi_nread = - 3, pi_nwrite = 508, pi_readopen = True, pi_writeopen = True\<rparr>"

definition demo_file :: file_state where
  "demo_file = \<lparr>held = {},
     procs = demo_procs(0 := (demo_procs 0)\<lparr>p_pagetable := 0x80200000\<rparr>,
                        2 := (demo_procs 2)\<lparr>p_chan := Some (ChanPipeRead 0x80400000)\<rparr>),
     pqueue = demo_queues, ticks_max = (\<lambda>l. 2 ^ (l + 1)),
     cpu_proc = (\<lambda>_. None)(0 := Some 0), tp = 0, initproc = Some 0, nextpid = 5, ticks = 128, last_mod128 = 0,
     mem = demo_user_mem, freelist = 0, ft_f = (\<lambda>_. free_frame),
     clock_p = 7, swap_mask = (\<lambda>_. 0), kernel_pagetable = 0, sym_end = 0x80020000,
     sym_etext = 0x80008000, sym_trampoline = 0x80007000,
     disk = (\<lambda>_. replicate BSIZE 0), disk_writes = [],
     slocks = (\<lambda>_. \<lparr>sl_locked = 0, sl_name = [], sl_pid = 0\<rparr>),
     bufs = (\<lambda>_. \<lparr>b_valid = False, b_disk = False, b_dev = 0, b_blockno = 0, b_refcnt = 0, b_prev = 0, b_next = 0,
               b_data = replicate BSIZE 0\<rparr>),
     lg = \<lparr>lg_start = 2, lg_outstanding = 0, lg_committing = False, lg_dev = 1, lg_n = 0, lg_block = (\<lambda>_. 0)\<rparr>,
     sb = \<lparr>sb_magic = FSMAGIC, sb_size = 2000, sb_nblocks = 1954, sb_ninodes = 200, sb_nlog = 31,
           sb_logstart = 2, sb_inodestart = 33, sb_bmapstart = 46\<rparr>,
     itable = (\<lambda>_. \<lparr>i_dev = 0, i_inum = 0, i_ref = 0, i_valid = False, i_type = 0, i_major = 0, i_minor = 0,
                 i_nlink = 0, i_size = 0, i_addrs = (\<lambda>_. 0)\<rparr>),
     cons = \<lparr>c_buf = (\<lambda>_. 0), c_r = 0, c_w = 0, c_e = 0\<rparr>, tx_busy = False, uart_out = [], uart_rx = [],
     uart_idle = True, devsw_console = (\<lambda>d. d = CONSOLE), panicking = False, panicked = False,
     pipes = (\<lambda>_. demo_pipe),
     ftable = (\<lambda>_. \<lparr>f_type = FD_NONE, f_ref = 0, f_readable = False, f_writable = False, f_pipe = 0, f_ip = 0,
                 f_off = 0, f_major = 0\<rparr>)\<rparr>"

lemma demo_user_walk: "walkaddr demo_user_mem 0x80200000 0 = Some 0x80300000"
  by (simp add: walkaddr_def walk_lookup_def demo_user_mem_def read64_write64_apart read64_write64_same
      PX_def PXSHIFT_def PXMASK_def PGSHIFT_def MAXVA_def PTE2PA_def PA2PTE_def PTE_V_def PTE_U_def PTE_R_def PTE_W_def)

lemma demo_user_bytes: "user_bytes demo_user_mem 0x80200000 0 [104, 105]"
proof -
  have "PGROUNDDOWN (1 :: uint64) = 0" "PGROUNDDOWN (0 :: uint64) = 0" by (simp_all add: PGROUNDDOWN_def PGSIZE_def)
  moreover have "demo_user_mem 0x80300000 = 104" "demo_user_mem 0x80300001 = 105"
    by (simp_all add: demo_user_mem_def write64_def)
  ultimately show ?thesis
    by (auto simp: user_bytes_def demo_user_walk less_Suc_eq)
qed

lemma demo_file_sched: "sched_ok demo_file"
  using demo_ready by (auto simp: ready_exact_def sched_ok_def demo_file_def demo_procs_def)

lemma demo_room: "length (pipe_contents demo_pipe) = 511"
  unfolding pipe_contents_def length_map length_upt by (simp add: demo_pipe_def)

theorem pipewrite_correct_witness:
  "runs (pipewrite 0x80400000 0 2 demo_file) (\<lambda>(r, t).
     pipe_contents (pipes t 0x80400000) = pipe_contents demo_pipe @ [104]
   \<and> r = Asleep (WaitPipeWrite 1) \<and> p_state (procs t 0) = SLEEPING \<and> p_state (procs t 2) = RUNNABLE)"
proof -
  have w: "wakes (ChanPipeRead 0x80400000) demo_file 2" "(2 :: nat) < NPROC"
    by (simp_all add: wakes_def demo_file_def myproc_def demo_procs_def NPROC_def)
  have "runs (pipewrite 0x80400000 0 (int (length [104, 105 :: uint8])) demo_file) (\<lambda>(r, t).
     pipe_contents (pipes t 0x80400000) = pipe_contents (pipes demo_file 0x80400000) @ take 1 [104, 105]
   \<and> r = (if length [104, 105 :: uint8] \<le> 1 then Done (int (length [104, 105 :: uint8])) else Asleep (WaitPipeWrite (int 1)))
   \<and> p_state (procs t 0) = (if length [104, 105 :: uint8] \<le> 1 then p_state (procs demo_file 0) else SLEEPING)
   \<and> (\<forall>q < NPROC. wakes (ChanPipeRead 0x80400000) demo_file q \<longrightarrow> p_state (procs t q) = RUNNABLE)
   \<and> mem t = mem demo_file \<and> held t = {} \<and> pipe_ok (pipes t 0x80400000))"
    by (rule pipewrite_correct)
      (use demo_user_bytes demo_file_sched demo_room in \<open>simp_all add: demo_file_def myproc_def NPROC_def pipe_ok_def
         demo_procs_def demo_pipe_def slot0_def\<close>)
  moreover have "int (length [104, 105 :: uint8]) = 2" by simp
  ultimately have "runs (pipewrite 0x80400000 0 2 demo_file) (\<lambda>(r, t).
     pipe_contents (pipes t 0x80400000) = pipe_contents (pipes demo_file 0x80400000) @ [104]
   \<and> r = Asleep (WaitPipeWrite 1) \<and> p_state (procs t 0) = SLEEPING
   \<and> (\<forall>q < NPROC. wakes (ChanPipeRead 0x80400000) demo_file q \<longrightarrow> p_state (procs t q) = RUNNABLE))"
    by (elim runsE) (auto simp: runs_def)
  then show ?thesis
    by (elim runsE) (use w in \<open>auto simp: runs_def demo_file_def\<close>)
qed

end
