(* ===== verification/Proc.thy ===== *)
theory Proc
  imports File
begin

text \<open>
  The life of a process (\<^verbatim>\<open>kernel/proc.c\<close>): allocation, fork, exit, wait, and the calls that
  report on processes.

  \<open>allocproc\<close> returns with the lock of the new process held, as the code does.  The initial kernel
  context of a process points to \<^verbatim>\<open>forkret\<close>, whose address is a symbol.  \<open>kwait\<close> has the outcome
  \<open>Asleep WaitChild\<close> when it goes to sleep.
\<close>

section \<open>State\<close>

record proc_state = file_state +
  sym_forkret :: uint64
  forkret_first :: bool

section \<open>Page tables and allocation\<close>

definition procinit :: "'a proc_state_scheme \<Rightarrow> 'a proc_state_scheme" where
  "procinit s = fold (\<lambda>p. upd_proc p (\<lambda>x. x\<lparr>p_state := UNUSED, p_kstack := KSTACK p\<rparr>)) [0..<NPROC] s"

definition proc_pagetable :: "nat \<Rightarrow> 'a mem_state_scheme \<Rightarrow> (uint64 \<times> 'a mem_state_scheme) option" where
  "proc_pagetable p s = do {
     (pagetable, s) \<leftarrow> uvmcreate s;
     if pagetable = 0 then Some (0, s)
     else do {
       (r, s) \<leftarrow> mappages pagetable TRAMPOLINE PGSIZE (sym_trampoline s) (PTE_R OR PTE_X) s;
       if r < 0
       then do { s \<leftarrow> uvmfree pagetable 0 s; Some (0, s) }
       else do {
         (r, s) \<leftarrow> mappages pagetable TRAPFRAME PGSIZE (p_trapframe (procs s p)) (PTE_R OR PTE_W) s;
         if r < 0
         then do {
           s \<leftarrow> uvmunmap pagetable TRAMPOLINE 1 False s;
           s \<leftarrow> uvmfree pagetable 0 s;
           Some (0, s) }
         else Some (pagetable, s) } }
   }"

definition proc_freepagetable :: "uint64 \<Rightarrow> uint64 \<Rightarrow> 'a mem_state_scheme \<Rightarrow> 'a mem_state_scheme option" where
  "proc_freepagetable pagetable sz s = do {
     s \<leftarrow> uvmunmap pagetable TRAMPOLINE 1 False s;
     s \<leftarrow> uvmunmap pagetable TRAPFRAME 1 False s;
     uvmfree pagetable sz s
   }"

definition freeproc :: "nat \<Rightarrow> 'a mem_state_scheme \<Rightarrow> 'a mem_state_scheme option" where
  "freeproc p s = do {
     s \<leftarrow> (if p_trapframe (procs s p) \<noteq> 0 then kfree (p_trapframe (procs s p)) s else Some s);
     let s = upd_proc p (\<lambda>x. x\<lparr>p_trapframe := 0\<rparr>) s;
     s \<leftarrow> (if p_pagetable (procs s p) \<noteq> 0
          then proc_freepagetable (p_pagetable (procs s p)) (p_sz (procs s p)) s else Some s);
     Some (upd_proc p (\<lambda>x. x\<lparr>p_pagetable := 0, p_sz := 0, p_pid := 0, p_parent := None,
             p_name := (p_name x)[0 := 0], p_chan := None, p_killed := 0, p_xstate := 0,
             p_state := UNUSED\<rparr>) s)
   }"

fun find_unused :: "nat list \<Rightarrow> 'a sched_state_scheme \<Rightarrow> (nat option \<times> 'a sched_state_scheme) option" where
  "find_unused [] s = Some (None, s)"
| "find_unused (p # ps) s = do {
     s \<leftarrow> acq (ProcLock p) s;
     if p_state (procs s p) = UNUSED then Some (Some p, s)
     else do { s \<leftarrow> rel (ProcLock p) s; find_unused ps s }
   }"

definition alloc_failed :: "nat \<Rightarrow> 'a mem_state_scheme \<Rightarrow> (nat option \<times> 'a mem_state_scheme) option" where
  "alloc_failed p s = do {
     s \<leftarrow> freeproc p s;
     s \<leftarrow> rel (ProcLock p) s;
     Some (None, s)
   }"

definition fresh_proc :: "uint64 \<Rightarrow> proc \<Rightarrow> proc" where
  "fresh_proc entry x = x\<lparr>
     p_context := \<lparr>ctx_ra = entry, ctx_sp = p_kstack x + PGSIZE, ctx_s = replicate 12 0\<rparr>,
     p_sysCount := 0, p_qlevel := 0, p_pticks := 0,
     p_qticks := (\<lambda>i. if i < LEVELS then 0 else p_qticks x i),
     p_tsched := 0, p_dSysCount := 0, p_page_evicted := 0, p_page_faults := 0,
     p_pages_swapped_in := 0, p_pages_swapped_out := 0, p_resident_pages := 0\<rparr>"

definition allocproc :: "'a proc_state_scheme \<Rightarrow> (nat option \<times> 'a proc_state_scheme) option" where
  "allocproc s = do {
     (found, s) \<leftarrow> find_unused [0..<NPROC] s;
     case found of
       None \<Rightarrow> Some (None, s)
     | Some p \<Rightarrow> do {
         (pid, s) \<leftarrow> allocpid s;
         let s = upd_proc p (\<lambda>x. x\<lparr>p_pid := pid, p_state := USED\<rparr>) s;
         (tf, s) \<leftarrow> kalloc s;
         let s = upd_proc p (\<lambda>x. x\<lparr>p_trapframe := tf\<rparr>) s;
         if tf = 0 then alloc_failed p s
         else do {
           (pagetable, s) \<leftarrow> proc_pagetable p s;
           let s = upd_proc p (\<lambda>x. x\<lparr>p_pagetable := pagetable\<rparr>) s;
           if pagetable = 0 then alloc_failed p s
           else Some (Some p, upd_proc p (fresh_proc (sym_forkret s)) s) } }
   }"

definition userinit :: "'a proc_state_scheme \<Rightarrow> 'a proc_state_scheme option" where
  "userinit s = do {
     (np, s) \<leftarrow> allocproc s;
     p \<leftarrow> np;
     let s = s\<lparr>initproc := Some p\<rparr>;
     (cwd, s) \<leftarrow> namei [slash] s;
     let s = upd_proc p (\<lambda>x. x\<lparr>p_cwd := cwd, p_state := RUNNABLE\<rparr>) s;
     s \<leftarrow> push_proc p s;
     rel (ProcLock p) s
   }"

definition growproc :: "int \<Rightarrow> 'a proc_state_scheme \<Rightarrow> (int \<times> 'a proc_state_scheme) option" where
  "growproc n s = do {
     p \<leftarrow> myproc s;
     let sz = p_sz (procs s p);
     if n > 0
     then
       if sz + of_int n > TRAPFRAME then Some (- 1, s)
       else do {
         (sz, s) \<leftarrow> uvmalloc (p_pagetable (procs s p)) sz (sz + of_int n) PTE_W s;
         if sz = 0 then Some (- 1, s)
         else Some (0, upd_proc p (\<lambda>x. x\<lparr>p_sz := sz\<rparr>) s) }
     else if n < 0
     then do {
       (sz, s) \<leftarrow> uvmdealloc (p_pagetable (procs s p)) sz (sz + of_int n) s;
       Some (0, upd_proc p (\<lambda>x. x\<lparr>p_sz := sz\<rparr>) s) }
     else Some (0, upd_proc p (\<lambda>x. x\<lparr>p_sz := sz\<rparr>) s)
   }"

section \<open>Fork\<close>

text \<open>The loop over the child's swapped pages; it runs while \<open>va < np->sz\<close>.\<close>

partial_function (option) kfork_swapped :: "nat \<Rightarrow> uint64 \<Rightarrow> 'a proc_state_scheme \<Rightarrow> 'a proc_state_scheme option" where
  "kfork_swapped np va s =
     (if va < p_sz (procs s np)
      then do {
        (pte, s) \<leftarrow> walk (p_pagetable (procs s np)) va False s;
        s \<leftarrow>
          (case pte of
             None \<Rightarrow> Some s
           | Some a \<Rightarrow>
               let e = read64 (mem s) a in
               if e AND PTE_S \<noteq> 0
               then do {
                 (pa, s) \<leftarrow> kalloc_or_evict s;
                 s \<leftarrow> own_frame pa np va s;
                 let s = s\<lparr>mem := memmove pa (get_swap_addr (swap_index_of e)) 4096 (mem s)\<rparr>;
                 (child_pte, s) \<leftarrow> walk (p_pagetable (procs s np)) va True s;
                 a \<leftarrow> child_pte;
                 Some (s\<lparr>mem := write64 a (PA2PTE pa OR PTE_V OR PTE_U OR PTE_R OR PTE_W) (mem s)\<rparr>) }
               else if e AND PTE_V \<noteq> 0 then own_frame (PTE2PA e) np va s
               else Some s);
        kfork_swapped np (va + PGSIZE) s }
      else Some s)"

definition kfork_file :: "nat \<Rightarrow> nat \<Rightarrow> nat \<Rightarrow> 'a file_state_scheme \<Rightarrow> 'a file_state_scheme option" where
  "kfork_file p np i s =
     (case p_ofile (procs s p) i of
        None \<Rightarrow> Some s
      | Some f \<Rightarrow> do {
          (f, s) \<leftarrow> filedup f s;
          Some (upd_proc np (\<lambda>x. x\<lparr>p_ofile := (p_ofile x)(i := Some f)\<rparr>) s) })"

definition copy_name :: "uint8 list \<Rightarrow> uint8 list \<Rightarrow> uint8 list" where
  "copy_name old new = map (safestrcpy (str_at old) (str_at new) 16) [0..<16]"

definition kfork :: "'a proc_state_scheme \<Rightarrow> (int \<times> 'a proc_state_scheme) option" where
  "kfork s = do {
     p \<leftarrow> myproc s;
     (found, s) \<leftarrow> allocproc s;
     case found of
       None \<Rightarrow> Some (- 1, s)
     | Some np \<Rightarrow> do {
         (r, s) \<leftarrow> uvmcopy (p_pagetable (procs s p)) (p_pagetable (procs s np)) (p_sz (procs s p)) np s;
         if r < 0
         then do {
           s \<leftarrow> freeproc np s;
           s \<leftarrow> rel (ProcLock np) s;
           Some (- 1, s) }
         else do {
           s \<leftarrow> kfork_swapped np 0 s;
           let s = upd_proc np (\<lambda>x. x\<lparr>p_sz := p_sz (procs s p)\<rparr>) s;
           let s = s\<lparr>mem := memmove (p_trapframe (procs s np)) (p_trapframe (procs s p)) 288 (mem s)\<rparr>;
           let s = s\<lparr>mem := write64 (p_trapframe (procs s np) + 112) 0 (mem s)\<rparr>;
           s \<leftarrow> for_each (kfork_file p np) [0..<NOFILE] s;
           cwd \<leftarrow> p_cwd (procs s p);
           (cwd, s) \<leftarrow> idup cwd s;
           let s = upd_proc np (\<lambda>x. x\<lparr>p_cwd := Some cwd\<rparr>) s;
           let s = upd_proc np (\<lambda>x. x\<lparr>p_name := copy_name (p_name x) (p_name (procs s p))\<rparr>) s;
           let pid = p_pid (procs s np);
           s \<leftarrow> rel (ProcLock np) s;
           s \<leftarrow> acq WaitLock s;
           let s = upd_proc np (\<lambda>x. x\<lparr>p_parent := Some p\<rparr>) s;
           s \<leftarrow> rel WaitLock s;
           s \<leftarrow> acq (ProcLock np) s;
           let s = upd_proc np (\<lambda>x. x\<lparr>p_state := RUNNABLE\<rparr>) s;
           s \<leftarrow> push_proc np s;
           s \<leftarrow> rel (ProcLock np) s;
           Some (pid, s) } }
   }"

section \<open>Exit and wait\<close>

definition reparent1 :: "nat \<Rightarrow> nat \<Rightarrow> 'a sched_state_scheme \<Rightarrow> 'a sched_state_scheme option" where
  "reparent1 p pp s =
     (if p_parent (procs s pp) = Some p
      then do {
        let s = upd_proc pp (\<lambda>x. x\<lparr>p_parent := initproc s\<rparr>) s;
        ini \<leftarrow> initproc s;
        wakeup (ChanProc ini) s }
      else Some s)"

definition reparent :: "nat \<Rightarrow> 'a sched_state_scheme \<Rightarrow> 'a sched_state_scheme option" where
  "reparent p s = for_each (reparent1 p) [0..<NPROC] s"

definition kexit_file :: "nat \<Rightarrow> nat \<Rightarrow> 'a file_state_scheme \<Rightarrow> 'a file_state_scheme option" where
  "kexit_file p fd s =
     (case p_ofile (procs s p) fd of
        None \<Rightarrow> Some s
      | Some f \<Rightarrow> do {
          s \<leftarrow> fileclose f s;
          Some (upd_proc p (\<lambda>x. x\<lparr>p_ofile := (p_ofile x)(fd := None)\<rparr>) s) })"

text \<open>\<open>kexit\<close> ends in \<open>sched\<close>; the result is the state in which the scheduler resumes.\<close>

definition kexit :: "int \<Rightarrow> 'a proc_state_scheme \<Rightarrow> 'a proc_state_scheme option" where
  "kexit status s = do {
     p \<leftarrow> myproc s;
     if Some p = initproc s then panic ''init exiting''
     else do {
       s \<leftarrow> for_each (kexit_file p) [0..<NOFILE] s;
       s \<leftarrow> begin_op s;
       cwd \<leftarrow> p_cwd (procs s p);
       s \<leftarrow> iput cwd s;
       s \<leftarrow> end_op s;
       let s = upd_proc p (\<lambda>x. x\<lparr>p_cwd := None\<rparr>) s;
       s \<leftarrow> acq WaitLock s;
       s \<leftarrow> reparent p s;
       parent \<leftarrow> p_parent (procs s p);
       s \<leftarrow> wakeup (ChanProc parent) s;
       s \<leftarrow> acq (ProcLock p) s;
       let s = upd_proc p (\<lambda>x. x\<lparr>p_xstate := status, p_state := ZOMBIE\<rparr>) s;
       s \<leftarrow> rel WaitLock s;
       sched s }
   }"

text \<open>One scan of the process table: \<open>Inl\<close> the return value when the call returns from inside the
  scan, otherwise \<open>Inr\<close> whether there are children.\<close>

fun kwait_scan :: "nat \<Rightarrow> uint64 \<Rightarrow> bool \<Rightarrow> nat list \<Rightarrow> 'a proc_state_scheme
    \<Rightarrow> ((int + bool) \<times> 'a proc_state_scheme) option" where
  "kwait_scan p addr havekids [] s = Some (Inr havekids, s)"
| "kwait_scan p addr havekids (pp # pps) s =
     (if p_parent (procs s pp) = Some p
      then do {
        s \<leftarrow> acq (ProcLock pp) s;
        if p_state (procs s pp) = ZOMBIE
        then do {
          let pid = p_pid (procs s pp);
          (r, s) \<leftarrow>
            (if addr \<noteq> 0
             then copyout (p_pagetable (procs s p)) addr
                    (le_bytes 4 (of_int (p_xstate (procs s pp)) :: uint32)) s
             else Some (0, s));
          if r < 0
          then do {
            s \<leftarrow> rel (ProcLock pp) s;
            s \<leftarrow> rel WaitLock s;
            Some (Inl (- 1), s) }
          else do {
            s \<leftarrow> freeproc pp s;
            s \<leftarrow> rel (ProcLock pp) s;
            s \<leftarrow> rel WaitLock s;
            Some (Inl pid, s) } }
        else do {
          s \<leftarrow> rel (ProcLock pp) s;
          kwait_scan p addr True pps s } }
      else kwait_scan p addr havekids pps s)"

definition kwait_turn :: "nat \<Rightarrow> uint64 \<Rightarrow> 'a proc_state_scheme \<Rightarrow> (int outcome \<times> 'a proc_state_scheme) option" where
  "kwait_turn p addr s = do {
     (r, s) \<leftarrow> kwait_scan p addr False [0..<NPROC] s;
     case r of
       Inl v \<Rightarrow> Some (Done v, s)
     | Inr havekids \<Rightarrow> do {
         (stop, s) \<leftarrow> (if \<not> havekids then Some (True, s)
                      else do { (k, s) \<leftarrow> killed p s; Some (k \<noteq> 0, s) });
         if stop then do { s \<leftarrow> rel WaitLock s; Some (Done (- 1), s) }
         else do { s \<leftarrow> sleep (ChanProc p) WaitLock s; Some (Asleep WaitChild, s) } }
   }"

definition kwait :: "uint64 \<Rightarrow> 'a proc_state_scheme \<Rightarrow> (int outcome \<times> 'a proc_state_scheme) option" where
  "kwait addr s = do {
     p \<leftarrow> myproc s;
     s \<leftarrow> acq WaitLock s;
     kwait_turn p addr s
   }"

definition kwait_resume :: "nat \<Rightarrow> uint64 \<Rightarrow> 'a proc_state_scheme \<Rightarrow> (int outcome \<times> 'a proc_state_scheme) option" where
  "kwait_resume p addr s = do { s \<leftarrow> sleep_resume p WaitLock s; kwait_turn p addr s }"

section \<open>Reports on processes\<close>

definition kgetppid :: "'a sched_state_scheme \<Rightarrow> (int \<times> 'a sched_state_scheme) option" where
  "kgetppid s = do {
     pp \<leftarrow> myproc s;
     if Some pp = initproc s then Some (- 1, s)
     else do {
       s \<leftarrow> acq WaitLock s;
       if p_parent (procs s pp) = initproc s
       then do { s \<leftarrow> rel WaitLock s; Some (- 1, s) }
       else do {
         parent \<leftarrow> p_parent (procs s pp);
         (k, s) \<leftarrow> killed parent s;
         if k = 1
         then do { s \<leftarrow> rel WaitLock s; Some (- 1, s) }
         else do {
           let ppid = p_pid (procs s parent);
           s \<leftarrow> rel WaitLock s;
           Some (ppid, s) } } }
   }"

fun count_children :: "nat \<Rightarrow> int \<Rightarrow> nat list \<Rightarrow> 'a sched_state_scheme \<Rightarrow> (int \<times> 'a sched_state_scheme) option" where
  "count_children p n [] s = Some (n, s)"
| "count_children p n (cp # cps) s =
     (if p_parent (procs s cp) = Some p
      then do {
        s \<leftarrow> acq (ProcLock cp) s;
        let n = (if p_killed (procs s cp) \<noteq> 1 \<and> p_state (procs s cp) \<noteq> ZOMBIE then n + 1 else n);
        s \<leftarrow> rel (ProcLock cp) s;
        count_children p n cps s }
      else count_children p n cps s)"

definition kgetnumchild :: "uint64 \<Rightarrow> 'a sched_state_scheme \<Rightarrow> (int \<times> 'a sched_state_scheme) option" where
  "kgetnumchild addr s = do {
     p \<leftarrow> myproc s;
     s \<leftarrow> acq WaitLock s;
     (n, s) \<leftarrow> count_children p 0 [0..<NPROC] s;
     s \<leftarrow> rel WaitLock s;
     Some (n, s)
   }"

fun find_child_count :: "nat \<Rightarrow> int \<Rightarrow> nat list \<Rightarrow> 'a sched_state_scheme \<Rightarrow> (int \<times> 'a sched_state_scheme) option" where
  "find_child_count p pid [] s = Some (- 1, s)"
| "find_child_count p pid (cp # cps) s =
     (if p_parent (procs s cp) = Some p
      then do {
        s \<leftarrow> acq (ProcLock cp) s;
        if p_pid (procs s cp) = pid
        then do {
          let count = p_sysCount (procs s cp);
          s \<leftarrow> rel (ProcLock cp) s;
          Some (count, s) }
        else do {
          s \<leftarrow> rel (ProcLock cp) s;
          find_child_count p pid cps s } }
      else find_child_count p pid cps s)"

definition kgetchildsyscount :: "int \<Rightarrow> 'a sched_state_scheme \<Rightarrow> (int \<times> 'a sched_state_scheme) option" where
  "kgetchildsyscount pid s = do {
     p \<leftarrow> myproc s;
     s \<leftarrow> acq WaitLock s;
     (n, s) \<leftarrow> find_child_count p pid [0..<NPROC] s;
     s \<leftarrow> rel WaitLock s;
     Some (n, s)
   }"

definition int_bytes :: "int \<Rightarrow> uint8 list" where
  "int_bytes i = le_bytes 4 (of_int i :: uint32)"

text \<open>The bytes of \<^verbatim>\<open>struct mlfqinfo\<close>: level, ticks per level, times scheduled, system calls.\<close>

definition mlfqinfo_bytes :: "proc \<Rightarrow> uint8 list" where
  "mlfqinfo_bytes x = int_bytes (int (p_qlevel x)) @ concat (map (\<lambda>i. int_bytes (p_qticks x i)) [0..<LEVELS])
     @ int_bytes (p_tsched x) @ int_bytes (p_sysCount x)"

fun find_pid_locked :: "int \<Rightarrow> nat list \<Rightarrow> 'a sched_state_scheme \<Rightarrow> (uint8 list option \<times> 'a sched_state_scheme) option" where
  "find_pid_locked pid [] s = Some (None, s)"
| "find_pid_locked pid (p # ps) s = do {
     s \<leftarrow> acq (ProcLock p) s;
     if p_pid (procs s p) = pid \<and> p_state (procs s p) \<noteq> UNUSED
     then do {
       let info = mlfqinfo_bytes (procs s p);
       s \<leftarrow> rel (ProcLock p) s;
       Some (Some info, s) }
     else do {
       s \<leftarrow> rel (ProcLock p) s;
       find_pid_locked pid ps s }
   }"

definition kgetmlfqinfo :: "int \<Rightarrow> uint64 \<Rightarrow> 'a mem_state_scheme \<Rightarrow> (int \<times> 'a mem_state_scheme) option" where
  "kgetmlfqinfo pid info_ptr s = do {
     s \<leftarrow> acq WaitLock s;
     (info, s) \<leftarrow> find_pid_locked pid [0..<NPROC] s;
     s \<leftarrow> rel WaitLock s;
     case info of
       None \<Rightarrow> Some (- 1, s)
     | Some bs \<Rightarrow> do {
         p \<leftarrow> myproc s;
         (r, s) \<leftarrow> copyout (p_pagetable (procs s p)) info_ptr bs s;
         Some (if r < 0 then - 1 else 0, s) }
   }"

text \<open>The bytes of \<^verbatim>\<open>struct vmstats\<close>.\<close>

definition vmstats_bytes :: "proc \<Rightarrow> uint8 list" where
  "vmstats_bytes x = int_bytes (p_page_faults x) @ int_bytes (p_page_evicted x)
     @ int_bytes (p_pages_swapped_in x) @ int_bytes (p_pages_swapped_out x) @ int_bytes (p_resident_pages x)"

definition kgetvmstats :: "int \<Rightarrow> uint64 \<Rightarrow> 'a mem_state_scheme \<Rightarrow> (int \<times> 'a mem_state_scheme) option" where
  "kgetvmstats pid info_ptr s = do {
     s \<leftarrow> acq WaitLock s;
     let found = find (\<lambda>p. p_pid (procs s p) = pid \<and> p_state (procs s p) \<noteq> UNUSED) [0..<NPROC];
     s \<leftarrow> rel WaitLock s;
     case found of
       None \<Rightarrow> Some (- 1, s)
     | Some q \<Rightarrow> do {
         p \<leftarrow> myproc s;
         (r, s) \<leftarrow> copyout (p_pagetable (procs s p)) info_ptr (vmstats_bytes (procs s q)) s;
         Some (if r < 0 then - 1 else 0, s) }
   }"

section \<open>What the reports and reparenting compute\<close>

definition live_child :: "nat \<Rightarrow> 'a sched_state_scheme \<Rightarrow> nat \<Rightarrow> bool" where
  "live_child p s q \<longleftrightarrow> p_parent (procs s q) = Some p \<and> p_killed (procs s q) \<noteq> 1 \<and> p_state (procs s q) \<noteq> ZOMBIE"

lemma count_children_eq:
  "\<forall>q \<in> set qs. ProcLock q \<notin> held s \<Longrightarrow>
   count_children p n qs s = Some (n + int (length (filter (live_child p s) qs)), s)"
  by (induction qs arbitrary: n) (auto simp: lock_simps live_child_def Let_def)

text \<open>C30.  \<open>getnumchild\<close> returns the number of children of the caller that are neither zombies nor marked
  as killed, and changes nothing.\<close>

theorem kgetnumchild_correct:
  assumes "myproc s = Some p" and "WaitLock \<notin> held s" and "\<forall>q < NPROC. ProcLock q \<notin> held s"
  shows "kgetnumchild addr s = Some (int (card {q. q < NPROC \<and> p_parent (procs s q) = Some p
     \<and> p_killed (procs s q) \<noteq> 1 \<and> p_state (procs s q) \<noteq> ZOMBIE}), s)"
proof -
  let ?s = "s\<lparr>held := insert WaitLock (held s)\<rparr>"
  have "length (filter (live_child p ?s) [0..<NPROC]) = card (set (filter (live_child p ?s) [0..<NPROC]))"
    by (rule distinct_card [symmetric]) simp
  also have "set (filter (live_child p ?s) [0..<NPROC]) = {q. q < NPROC \<and> p_parent (procs s q) = Some p
     \<and> p_killed (procs s q) \<noteq> 1 \<and> p_state (procs s q) \<noteq> ZOMBIE}"
    by (auto simp: live_child_def)
  finally show ?thesis
    using assms by (simp add: kgetnumchild_def acq_free rel_held' count_children_eq)
qed

theorem kgetnumchild_correct_witness:
  "kgetnumchild 0 (demo_sched\<lparr>procs := demo_procs(1 := (demo_procs 1)\<lparr>p_parent := Some 0\<rparr>,
       2 := (demo_procs 2)\<lparr>p_parent := Some 0, p_killed := 1\<rparr>)\<rparr>)
   = Some (1, demo_sched\<lparr>procs := demo_procs(1 := (demo_procs 1)\<lparr>p_parent := Some 0\<rparr>,
       2 := (demo_procs 2)\<lparr>p_parent := Some 0, p_killed := 1\<rparr>)\<rparr>)"
proof -
  let ?s = "demo_sched\<lparr>procs := demo_procs(1 := (demo_procs 1)\<lparr>p_parent := Some 0\<rparr>,
       2 := (demo_procs 2)\<lparr>p_parent := Some 0, p_killed := 1\<rparr>)\<rparr>"
  have "{q. q < NPROC \<and> p_parent (procs ?s q) = Some 0 \<and> p_killed (procs ?s q) \<noteq> 1 \<and> p_state (procs ?s q) \<noteq> ZOMBIE} = {1}"
    by (auto simp: demo_procs_def slot0_def NPROC_def split: if_splits)
  with kgetnumchild_correct [of ?s 0 0] show ?thesis by (simp add: myproc_def)
qed

lemma runs_wakeup:
  assumes "sched_ok s" and "\<forall>p < NPROC. ProcLock p \<notin> held s" and "queues_free s"
  shows "runs (wakeup ch s) (\<lambda>t. sched_ok t \<and> held t = held s \<and> initproc t = initproc s \<and> cpu_proc t = cpu_proc s
    \<and> tp t = tp s \<and> (\<forall>q. procs t q = (if q < NPROC \<and> wakes ch s q then (procs s q)\<lparr>p_state := RUNNABLE\<rparr> else procs s q)))"
  using assms by (simp add: wakeup_eq fold_make_ready_ok fold_make_ready_procs)

text \<open>The state after the entries \<open>done\<close> of the process table have been visited.\<close>

definition reparented :: "nat \<Rightarrow> nat \<Rightarrow> 'a sched_state_scheme \<Rightarrow> nat list \<Rightarrow> 'a sched_state_scheme \<Rightarrow> bool" where
  "reparented i p s done t \<longleftrightarrow> sched_ok t \<and> held t = held s \<and> initproc t = Some i \<and> cpu_proc t = cpu_proc s \<and> tp t = tp s
   \<and> (\<forall>q. p_parent (procs t q) =
         (if q \<in> set done \<and> p_parent (procs s q) = Some p then Some i else p_parent (procs s q)))
   \<and> (\<forall>q. p_chan (procs t q) = p_chan (procs s q))
   \<and> (wakes (ChanProc i) s i \<longrightarrow> p_state (procs t i) =
        (if \<exists>q \<in> set done. p_parent (procs s q) = Some p then RUNNABLE else SLEEPING))"

lemma reparent1_step:
  assumes "sched_ok s" and "\<forall>p < NPROC. ProcLock p \<notin> held s" and "queues_free s"
    and "initproc s = Some i" and "i < NPROC" and "i \<noteq> p"
    and I: "reparented i p s xs t" and q: "q \<notin> set xs" "q < NPROC"
  shows "runs (reparent1 p q t) (reparented i p s (xs @ [q]))"
proof (cases "p_parent (procs s q) = Some p")
  case False
  then show ?thesis using I [unfolded reparented_def] q assms(6) by (auto simp: reparent1_def reparented_def)
next
  case True
  note I' = I [unfolded reparented_def]
  let ?t = "upd_proc q (\<lambda>x. x\<lparr>p_parent := Some i\<rparr>) t"
  have st: "p_state (procs ?t i) = p_state (procs t i)" by simp
  have "runs (wakeup (ChanProc i) ?t) (\<lambda>u. sched_ok u \<and> held u = held ?t \<and> initproc u = initproc ?t
      \<and> cpu_proc u = cpu_proc ?t \<and> tp u = tp ?t \<and> (\<forall>q. procs u q = (if q < NPROC \<and> wakes (ChanProc i) ?t q
         then (procs ?t q)\<lparr>p_state := RUNNABLE\<rparr> else procs ?t q)))"
    using I' assms by (intro runs_wakeup) (auto simp: sched_ok_def queues_free_def)
  then obtain u where u: "wakeup (ChanProc i) ?t = Some u" "sched_ok u" "held u = held s" "initproc u = Some i"
      "cpu_proc u = cpu_proc s" "tp u = tp s"
      and pu: "\<And>q. procs u q = (if q < NPROC \<and> wakes (ChanProc i) ?t q
         then (procs ?t q)\<lparr>p_state := RUNNABLE\<rparr> else procs ?t q)"
    using I' by (elim runsE) auto
  have "p_parent (procs u r) =
      (if r \<in> set (xs @ [q]) \<and> p_parent (procs s r) = Some p then Some i else p_parent (procs s r))" for r
    using I' q True by (simp add: pu)
  moreover have "p_chan (procs u r) = p_chan (procs s r)" for r using I' by (simp add: pu)
  moreover have "p_state (procs u i) = RUNNABLE" if w: "wakes (ChanProc i) s i"
  proof (cases "p_state (procs t i) = SLEEPING")
    case True
    then have "wakes (ChanProc i) ?t i" using I' w by (auto simp: wakes_def myproc_def)
    then show ?thesis using assms(5) by (simp add: pu)
  next
    case False
    with I' w have "p_state (procs t i) = RUNNABLE" by presburger
    then show ?thesis by (auto simp: pu)
  qed
  moreover have "reparent1 p q t = Some u" using True I' q u(1) by (simp add: reparent1_def)
  ultimately show ?thesis using u True by (auto simp: reparented_def)
qed

text \<open>C31.  Reparenting.  When a process gives its children away, every child's parent becomes init and no other
  parent pointer changes; if there was a child and init was asleep waiting for one, init is
  made runnable.\<close>

theorem reparent_correct:
  assumes "sched_ok s" and "\<forall>p < NPROC. ProcLock p \<notin> held s" and "queues_free s"
    and "initproc s = Some i" and "i < NPROC" and "i \<noteq> p"
  shows "runs (reparent p s) (\<lambda>t. sched_ok t \<and> held t = held s
   \<and> (\<forall>q < NPROC. p_parent (procs t q) = (if p_parent (procs s q) = Some p then Some i else p_parent (procs s q)))
   \<and> (wakes (ChanProc i) s i \<and> (\<exists>q < NPROC. p_parent (procs s q) = Some p) \<longrightarrow> p_state (procs t i) = RUNNABLE))"
proof -
  have "runs (for_each (reparent1 p) [0..<NPROC] s) (reparented i p s [0..<NPROC])"
  proof (rule runs_for_each)
    show "reparented i p s [] s" using assms by (simp add: reparented_def wakes_def)
  next
    fix xs q rest t
    assume xs: "[0..<NPROC] = xs @ q # rest" and I: "reparented i p s xs t"
    have q2: "q < NPROC" and xs0: "xs = [0..<q]" using upt_eq_append_Cons [OF xs] by blast+
    have q: "q \<notin> set xs" "q < NPROC" by (simp_all only: xs0 q2 set_upt atLeastLessThan_iff less_irrefl simp_thms)
    show "runs (reparent1 p q t) (reparented i p s (xs @ [q]))" by (rule reparent1_step [OF assms I q])
  qed
  then show ?thesis
    unfolding reparent_def by (rule runs_mono) (auto simp: reparented_def)
qed

theorem reparent_correct_witness:
  "runs (reparent 1 (demo_sched\<lparr>procs := demo_procs(3 := (demo_procs 3)\<lparr>p_parent := Some 1\<rparr>)\<rparr>))
     (\<lambda>t. p_parent (procs t 3) = Some 0)"
proof -
  let ?s = "demo_sched\<lparr>procs := demo_procs(3 := (demo_procs 3)\<lparr>p_parent := Some 1\<rparr>)\<rparr>"
  have ok: "sched_ok ?s" "\<forall>p < NPROC. ProcLock p \<notin> held ?s" "queues_free ?s" "initproc ?s = Some 0"
    using demo_ready by (auto simp: ready_exact_def sched_ok_def queues_free_def demo_procs_def)
  have n: "(3 :: nat) < NPROC" "(0 :: nat) < NPROC" "(0 :: nat) \<noteq> 1" by (simp_all add: NPROC_def)
  show ?thesis
    by (rule runs_mono [OF reparent_correct [OF ok n(2,3)]]) (use n(1) in simp)
qed

end
