(* ===== verification/Exec.thy ===== *)
theory Exec
  imports Proc
begin

text \<open>
  \<open>kexec\<close> (\<^verbatim>\<open>kernel/exec.c\<close>) and system-call arguments (\<^verbatim>\<open>kernel/syscall.c\<close>, first half).

  The ELF header and the program headers are decoded from the bytes read from the file.  The
  argument strings of \<open>kexec\<close> are lists of bytes without their terminator.
\<close>

section \<open>System-call arguments\<close>

definition trapframe_word :: "nat \<Rightarrow> 'a mem_state_scheme \<Rightarrow> uint64 option" where
  "trapframe_word off s = do {
     p \<leftarrow> myproc s;
     Some (read64 (mem s) (p_trapframe (procs s p) + of_nat off))
   }"

definition set_trapframe_word :: "nat \<Rightarrow> uint64 \<Rightarrow> 'a mem_state_scheme \<Rightarrow> 'a mem_state_scheme option" where
  "set_trapframe_word off v s = do {
     p \<leftarrow> myproc s;
     Some (s\<lparr>mem := write64 (p_trapframe (procs s p) + of_nat off) v (mem s)\<rparr>)
   }"

definition argraw :: "nat \<Rightarrow> 'a mem_state_scheme \<Rightarrow> uint64 option" where
  "argraw n s = (if n \<le> 5 then trapframe_word (112 + 8 * n) s else panic ''argraw'')"

definition argint :: "nat \<Rightarrow> 'a mem_state_scheme \<Rightarrow> int option" where
  "argint n s = do { w \<leftarrow> argraw n s; Some (sint (ucast w :: 32 word)) }"

definition argaddr :: "nat \<Rightarrow> 'a mem_state_scheme \<Rightarrow> uint64 option" where
  "argaddr n s = argraw n s"

text \<open>\<open>fetchaddr\<close> returns the word, \<open>fetchstr\<close> and \<open>argstr\<close> the string; \<^term>\<open>None\<close> inside stands for
  the return value \<open>-1\<close>.\<close>

definition word_of_bytes :: "uint8 list \<Rightarrow> uint64" where
  "word_of_bytes bs = foldr (\<lambda>b w. push_bit 8 w OR ucast b) bs 0"

definition fetchaddr :: "uint64 \<Rightarrow> 'a mem_state_scheme \<Rightarrow> (uint64 option \<times> 'a mem_state_scheme) option" where
  "fetchaddr addr s = do {
     p \<leftarrow> myproc s;
     if addr \<ge> p_sz (procs s p) \<or> addr + 8 > p_sz (procs s p) then Some (None, s)
     else do {
       (r, bs, s) \<leftarrow> copyin (p_pagetable (procs s p)) addr 8 s;
       Some (if r \<noteq> 0 then None else Some (word_of_bytes bs), s) }
   }"

definition fetchstr :: "uint64 \<Rightarrow> nat \<Rightarrow> 'a mem_state_scheme \<Rightarrow> uint8 list option option" where
  "fetchstr addr mx s = do {
     p \<leftarrow> myproc s;
     (r, bs) \<leftarrow> copyinstr (mem s) (p_pagetable (procs s p)) addr mx;
     if r < 0 then Some None
     else do {
       len \<leftarrow> strlen (str_at bs);
       Some (Some (take len bs)) }
   }"

definition argstr :: "nat \<Rightarrow> nat \<Rightarrow> 'a mem_state_scheme \<Rightarrow> uint8 list option option" where
  "argstr n mx s = do { addr \<leftarrow> argaddr n s; fetchstr addr mx s }"

section \<open>Executable files\<close>

definition ELF_MAGIC :: uint_t where "ELF_MAGIC = 0x464C457F"
definition ELF_PROG_LOAD :: uint_t where "ELF_PROG_LOAD = 1"
definition USERSTACK :: uint64 where "USERSTACK = 1"
definition MAXARG :: nat where "MAXARG = 32"
definition MAXPATH :: nat where "MAXPATH = 128"

definition get64 :: "uint8 list \<Rightarrow> nat \<Rightarrow> uint64" where
  "get64 d i = word_of_bytes (take 8 (drop i d))"

record elfhdr =
  eh_magic :: uint_t
  eh_entry :: uint64
  eh_phoff :: uint64
  eh_phnum :: ushort

definition get_elfhdr :: "uint8 list \<Rightarrow> elfhdr" where
  "get_elfhdr d = \<lparr>eh_magic = get32 d 0, eh_entry = get64 d 24, eh_phoff = get64 d 32,
     eh_phnum = get16 d 56\<rparr>"

record proghdr =
  ph_type :: uint_t
  ph_flags :: uint_t
  ph_off :: uint64
  ph_vaddr :: uint64
  ph_filesz :: uint64
  ph_memsz :: uint64

definition get_proghdr :: "uint8 list \<Rightarrow> proghdr" where
  "get_proghdr d = \<lparr>ph_type = get32 d 0, ph_flags = get32 d 4, ph_off = get64 d 8,
     ph_vaddr = get64 d 16, ph_filesz = get64 d 32, ph_memsz = get64 d 40\<rparr>"

definition flags2perm :: "uint_t \<Rightarrow> uint64" where
  "flags2perm flags = (if flags AND 1 \<noteq> 0 then PTE_X else 0) OR (if flags AND 2 \<noteq> 0 then PTE_W else 0)"

text \<open>\<open>n\<close> bytes of a file, read into an object of the caller; \<^term>\<open>None\<close> inside when fewer arrived.\<close>

definition read_exact :: "nat \<Rightarrow> uint_t \<Rightarrow> nat \<Rightarrow> 'a fs_state_scheme \<Rightarrow> (uint8 list option \<times> 'a fs_state_scheme) option" where
  "read_exact ip off n s = do {
     (r, dst, s) \<leftarrow> readi ip (Local []) off (of_nat n) s;
     case dst of
       Local bs \<Rightarrow> Some (if r \<noteq> int n then None else Some bs, s)
     | _ \<Rightarrow> None
   }"

partial_function (option) loadseg_from :: "uint64 \<Rightarrow> uint64 \<Rightarrow> nat \<Rightarrow> uint_t \<Rightarrow> uint_t \<Rightarrow> uint_t
    \<Rightarrow> 'a fs_state_scheme \<Rightarrow> (int \<times> 'a fs_state_scheme) option" where
  "loadseg_from pagetable va ip offset sz i s =
     (if i < sz
      then do {
        pa \<leftarrow> walkaddr (mem s) pagetable (va + ucast i);
        if pa = 0 then panic ''loadseg: address should exist''
        else do {
          let n = (if sz - i < 4096 then sz - i else 4096);
          (r, _, s) \<leftarrow> readi ip (KernelPa pa) (offset + i) n s;
          if r \<noteq> uint n then Some (- 1, s)
          else loadseg_from pagetable va ip offset sz (i + 4096) s } }
      else Some (0, s))"

definition loadseg :: "uint64 \<Rightarrow> uint64 \<Rightarrow> nat \<Rightarrow> uint_t \<Rightarrow> uint_t
    \<Rightarrow> 'a fs_state_scheme \<Rightarrow> (int \<times> 'a fs_state_scheme) option" where
  "loadseg pagetable va ip offset sz s = loadseg_from pagetable va ip offset sz 0 s"

section \<open>Loading the segments\<close>

text \<open>One program header: \<open>Inl sz\<close> when \<open>kexec\<close> gives up (with the size it has then to free),
  \<open>Inr sz\<close> the new size.\<close>

definition load_one :: "uint64 \<Rightarrow> nat \<Rightarrow> uint64 \<Rightarrow> uint_t
    \<Rightarrow> 'a fs_state_scheme \<Rightarrow> ((uint64 + uint64) \<times> 'a fs_state_scheme) option" where
  "load_one pagetable ip sz off s = do {
     (bs, s) \<leftarrow> read_exact ip off 56 s;
     case bs of
       None \<Rightarrow> Some (Inl sz, s)
     | Some bs \<Rightarrow>
         let ph = get_proghdr bs in
         if ph_type ph \<noteq> ELF_PROG_LOAD then Some (Inr sz, s)
         else if ph_memsz ph < ph_filesz ph then Some (Inl sz, s)
         else if ph_vaddr ph + ph_memsz ph < ph_vaddr ph then Some (Inl sz, s)
         else if ph_vaddr ph mod PGSIZE \<noteq> 0 then Some (Inl sz, s)
         else do {
           (sz1, s) \<leftarrow> uvmalloc pagetable sz (ph_vaddr ph + ph_memsz ph) (flags2perm (ph_flags ph)) s;
           if sz1 = 0 then Some (Inl sz, s)
           else do {
             (r, s) \<leftarrow> loadseg pagetable (ph_vaddr ph) ip (ucast (ph_off ph)) (ucast (ph_filesz ph)) s;
             Some (if r < 0 then Inl sz1 else Inr sz1, s) } }
   }"

fun load_segments :: "uint64 \<Rightarrow> nat \<Rightarrow> uint64 \<Rightarrow> uint_t \<Rightarrow> nat
    \<Rightarrow> 'a fs_state_scheme \<Rightarrow> ((uint64 + uint64) \<times> 'a fs_state_scheme) option" where
  "load_segments pagetable ip sz off 0 s = Some (Inr sz, s)"
| "load_segments pagetable ip sz off (Suc k) s = do {
     (r, s) \<leftarrow> load_one pagetable ip sz off s;
     case r of
       Inl sz \<Rightarrow> Some (Inl sz, s)
     | Inr sz \<Rightarrow> load_segments pagetable ip sz (off + 56) k s
   }"

section \<open>The argument strings\<close>

text \<open>Pushing the argument strings: the stack pointer and the addresses pushed so far, or
  \<^term>\<open>None\<close> when the stack or the number of arguments is exceeded.\<close>

fun push_args :: "uint64 \<Rightarrow> uint64 \<Rightarrow> uint8 list list \<Rightarrow> uint64 \<Rightarrow> uint64 list
    \<Rightarrow> 'a mem_state_scheme \<Rightarrow> ((uint64 \<times> uint64 list) option \<times> 'a mem_state_scheme) option" where
  "push_args pagetable stackbase [] sp ustack s = Some (Some (sp, ustack), s)"
| "push_args pagetable stackbase (arg # args) sp ustack s =
     (if length ustack \<ge> MAXARG then Some (None, s)
      else
        let sp = sp - of_nat (length arg + 1);
            sp = sp - sp mod 16
        in if sp < stackbase then Some (None, s)
           else do {
             (r, s) \<leftarrow> copyout pagetable sp (arg @ [0]) s;
             if r < 0 then Some (None, s)
             else push_args pagetable stackbase args sp (ustack @ [sp]) s })"

definition push_ustack :: "uint64 \<Rightarrow> uint64 \<Rightarrow> uint64 \<Rightarrow> uint64 list
    \<Rightarrow> 'a mem_state_scheme \<Rightarrow> (uint64 option \<times> 'a mem_state_scheme) option" where
  "push_ustack pagetable stackbase sp ustack s = do {
     check (length ustack < MAXARG);
     let sp = sp - of_nat ((length ustack + 1) * 8);
     let sp = sp - sp mod 16;
     if sp < stackbase then Some (None, s)
     else do {
       (r, s) \<leftarrow> copyout pagetable sp (concat (map (le_bytes 8) (ustack @ [0]))) s;
       Some (if r < 0 then None else Some sp, s) }
   }"

text \<open>The last element of a path.\<close>

fun path_last :: "uint8 list \<Rightarrow> uint8 list \<Rightarrow> uint8 list" where
  "path_last last_elem [] = last_elem"
| "path_last last_elem (c # cs) = path_last (if c = slash then cs else last_elem) cs"

section \<open>exec\<close>

definition exec_bad_open :: "uint64 \<Rightarrow> uint64 \<Rightarrow> nat \<Rightarrow> 'a proc_state_scheme \<Rightarrow> (int \<times> 'a proc_state_scheme) option" where
  "exec_bad_open pagetable sz ip s = do {
     s \<leftarrow> (if pagetable \<noteq> 0 then proc_freepagetable pagetable sz s else Some s);
     s \<leftarrow> iunlockput ip s;
     s \<leftarrow> end_op s;
     Some (- 1, s)
   }"

definition exec_bad :: "uint64 \<Rightarrow> uint64 \<Rightarrow> 'a proc_state_scheme \<Rightarrow> (int \<times> 'a proc_state_scheme) option" where
  "exec_bad pagetable sz s = do {
     s \<leftarrow> proc_freepagetable pagetable sz s;
     Some (- 1, s)
   }"

text \<open>The second half of \<open>kexec\<close>, after the file has been closed.\<close>

definition exec_finish :: "nat \<Rightarrow> uint64 \<Rightarrow> uint64 \<Rightarrow> uint64 \<Rightarrow> uint8 list \<Rightarrow> uint8 list list
    \<Rightarrow> 'a proc_state_scheme \<Rightarrow> (int \<times> 'a proc_state_scheme) option" where
  "exec_finish p pagetable sz entry path argv s = do {
     let oldsz = p_sz (procs s p);
     let sz = PGROUNDUP sz;
     (sz1, s) \<leftarrow> uvmalloc pagetable sz (sz + (USERSTACK + 1) * PGSIZE) PTE_W s;
     if sz1 = 0 then exec_bad pagetable sz s
     else do {
       let sz = sz1;
       s \<leftarrow> uvmclear pagetable (sz - (USERSTACK + 1) * PGSIZE) s;
       let stackbase = sz - USERSTACK * PGSIZE;
       (r, s) \<leftarrow> push_args pagetable stackbase argv sz [] s;
       case r of
         None \<Rightarrow> exec_bad pagetable sz s
       | Some (sp, ustack) \<Rightarrow> do {
           (r, s) \<leftarrow> push_ustack pagetable stackbase sp ustack s;
           case r of
             None \<Rightarrow> exec_bad pagetable sz s
           | Some sp \<Rightarrow> do {
               s \<leftarrow> set_trapframe_word 120 sp s;
               let s = upd_proc p (\<lambda>x. x\<lparr>p_name := copy_name (p_name x) (path_last path path)\<rparr>) s;
               let oldpagetable = p_pagetable (procs s p);
               let s = upd_proc p (\<lambda>x. x\<lparr>p_pagetable := pagetable, p_sz := sz\<rparr>) s;
               s \<leftarrow> set_trapframe_word 24 entry s;
               s \<leftarrow> set_trapframe_word 48 sp s;
               s \<leftarrow> proc_freepagetable oldpagetable oldsz s;
               Some (int (length argv), s) } } }
   }"

definition kexec :: "uint8 list \<Rightarrow> uint8 list list \<Rightarrow> 'a proc_state_scheme \<Rightarrow> (int \<times> 'a proc_state_scheme) option" where
  "kexec path argv s = do {
     p \<leftarrow> myproc s;
     s \<leftarrow> begin_op s;
     (found, s) \<leftarrow> namei path s;
     case found of
       None \<Rightarrow> do { s \<leftarrow> end_op s; Some (- 1, s) }
     | Some ip \<Rightarrow> do {
         s \<leftarrow> ilock ip s;
         (hdr, s) \<leftarrow> read_exact ip 0 64 s;
         case hdr of
           None \<Rightarrow> exec_bad_open 0 0 ip s
         | Some bs \<Rightarrow>
             let elf = get_elfhdr bs in
             if eh_magic elf \<noteq> ELF_MAGIC then exec_bad_open 0 0 ip s
             else do {
               (pagetable, s) \<leftarrow> proc_pagetable p s;
               if pagetable = 0 then exec_bad_open 0 0 ip s
               else do {
                 (r, s) \<leftarrow> load_segments pagetable ip 0 (ucast (eh_phoff elf)) (unat (eh_phnum elf)) s;
                 case r of
                   Inl sz \<Rightarrow> exec_bad_open pagetable sz ip s
                 | Inr sz \<Rightarrow> do {
                     s \<leftarrow> iunlockput ip s;
                     s \<leftarrow> end_op s;
                     exec_finish p pagetable sz (eh_entry elf) path argv s } } } }
   }"

end
