(* ===== verification/Sysfile.thy ===== *)
theory Sysfile
  imports Exec
begin

text \<open>
  The file-system calls (\<^verbatim>\<open>kernel/sysfile.c\<close>).  Each takes its arguments from the trap frame of
  the current process and returns the value for \<^verbatim>\<open>a0\<close> before it is stored there: an \<^typ>\<open>int\<close>, with
  an outcome where the call may sleep.
\<close>

section \<open>Descriptors\<close>

definition O_WRONLY :: int where "O_WRONLY = 0x001"
definition O_RDWR :: int where "O_RDWR = 0x002"
definition O_CREATE :: int where "O_CREATE = 0x200"
definition O_TRUNC :: int where "O_TRUNC = 0x400"

definition argfd :: "nat \<Rightarrow> 'a mem_state_scheme \<Rightarrow> (nat \<times> nat) option option" where
  "argfd n s = do {
     fd \<leftarrow> argint n s;
     p \<leftarrow> myproc s;
     if fd < 0 \<or> fd \<ge> int NOFILE then Some None
     else case p_ofile (procs s p) (nat fd) of
       None \<Rightarrow> Some None
     | Some f \<Rightarrow> Some (Some (nat fd, f))
   }"

definition fdalloc :: "nat \<Rightarrow> 'a sched_state_scheme \<Rightarrow> (nat option \<times> 'a sched_state_scheme) option" where
  "fdalloc f s = do {
     p \<leftarrow> myproc s;
     case find (\<lambda>fd. p_ofile (procs s p) fd = None) [0..<NOFILE] of
       None \<Rightarrow> Some (None, s)
     | Some fd \<Rightarrow> Some (Some fd, upd_proc p (\<lambda>x. x\<lparr>p_ofile := (p_ofile x)(fd := Some f)\<rparr>) s)
   }"

definition close_fd :: "nat \<Rightarrow> 'a sched_state_scheme \<Rightarrow> 'a sched_state_scheme option" where
  "close_fd fd s = do {
     p \<leftarrow> myproc s;
     Some (upd_proc p (\<lambda>x. x\<lparr>p_ofile := (p_ofile x)(fd := None)\<rparr>) s)
   }"

definition sys_dup :: "'a proc_state_scheme \<Rightarrow> (int \<times> 'a proc_state_scheme) option" where
  "sys_dup s = do {
     a \<leftarrow> argfd 0 s;
     case a of
       None \<Rightarrow> Some (- 1, s)
     | Some (_, f) \<Rightarrow> do {
         (r, s) \<leftarrow> fdalloc f s;
         case r of
           None \<Rightarrow> Some (- 1, s)
         | Some fd \<Rightarrow> do {
             (_, s) \<leftarrow> filedup f s;
             Some (int fd, s) } }
   }"

definition sys_read :: "'a proc_state_scheme \<Rightarrow> (int outcome \<times> 'a proc_state_scheme) option" where
  "sys_read s = do {
     p \<leftarrow> argaddr 1 s;
     n \<leftarrow> argint 2 s;
     a \<leftarrow> argfd 0 s;
     case a of
       None \<Rightarrow> Some (Done (- 1), s)
     | Some (_, f) \<Rightarrow> fileread f p n s
   }"

definition sys_write :: "'a proc_state_scheme \<Rightarrow> (int outcome \<times> 'a proc_state_scheme) option" where
  "sys_write s = do {
     p \<leftarrow> argaddr 1 s;
     n \<leftarrow> argint 2 s;
     a \<leftarrow> argfd 0 s;
     case a of
       None \<Rightarrow> Some (Done (- 1), s)
     | Some (_, f) \<Rightarrow> filewrite f p n s
   }"

definition sys_close :: "'a proc_state_scheme \<Rightarrow> (int \<times> 'a proc_state_scheme) option" where
  "sys_close s = do {
     a \<leftarrow> argfd 0 s;
     case a of
       None \<Rightarrow> Some (- 1, s)
     | Some (fd, f) \<Rightarrow> do {
         s \<leftarrow> close_fd fd s;
         s \<leftarrow> fileclose f s;
         Some (0, s) }
   }"

definition sys_fstat :: "'a proc_state_scheme \<Rightarrow> (int \<times> 'a proc_state_scheme) option" where
  "sys_fstat s = do {
     st \<leftarrow> argaddr 1 s;
     a \<leftarrow> argfd 0 s;
     case a of
       None \<Rightarrow> Some (- 1, s)
     | Some (_, f) \<Rightarrow> filestat f st s
   }"

section \<open>Links\<close>

definition link_bad :: "nat \<Rightarrow> 'a fs_state_scheme \<Rightarrow> (int \<times> 'a fs_state_scheme) option" where
  "link_bad ip s = do {
     s \<leftarrow> ilock ip s;
     let s = upd_inode ip (\<lambda>x. x\<lparr>i_nlink := i_nlink x - 1\<rparr>) s;
     s \<leftarrow> iupdate ip s;
     s \<leftarrow> iunlockput ip s;
     s \<leftarrow> end_op s;
     Some (- 1, s)
   }"

definition link_to :: "nat \<Rightarrow> uint8 list \<Rightarrow> 'a fs_state_scheme \<Rightarrow> (int \<times> 'a fs_state_scheme) option" where
  "link_to ip new s = do {
     let s = upd_inode ip (\<lambda>x. x\<lparr>i_nlink := i_nlink x + 1\<rparr>) s;
     s \<leftarrow> iupdate ip s;
     s \<leftarrow> iunlock ip s;
     (dir, name, s) \<leftarrow> nameiparent new (replicate DIRSIZ 0) s;
     case dir of
       None \<Rightarrow> link_bad ip s
     | Some dp \<Rightarrow> do {
         s \<leftarrow> ilock dp s;
         (r, s) \<leftarrow> (if i_dev (itable s dp) \<noteq> i_dev (itable s ip) then Some (- 1, s)
                   else dirlink dp name (i_inum (itable s ip)) s);
         s \<leftarrow> iunlockput dp s;
         if r < 0 then link_bad ip s
         else do {
           s \<leftarrow> iput ip s;
           s \<leftarrow> end_op s;
           Some (0, s) } }
   }"

definition sys_link :: "'a proc_state_scheme \<Rightarrow> (int \<times> 'a proc_state_scheme) option" where
  "sys_link s = do {
     old_path \<leftarrow> argstr 0 MAXPATH s;
     case old_path of
       None \<Rightarrow> Some (- 1, s)
     | Some old_path \<Rightarrow> do {
         new_path \<leftarrow> argstr 1 MAXPATH s;
         case new_path of
           None \<Rightarrow> Some (- 1, s)
         | Some new_path \<Rightarrow> do {
             s \<leftarrow> begin_op s;
             (found, s) \<leftarrow> namei old_path s;
             case found of
               None \<Rightarrow> do { s \<leftarrow> end_op s; Some (- 1, s) }
             | Some ip \<Rightarrow> do {
                 s \<leftarrow> ilock ip s;
                 if i_type (itable s ip) = T_DIR
                 then do {
                   s \<leftarrow> iunlockput ip s;
                   s \<leftarrow> end_op s;
                   Some (- 1, s) }
                 else link_to ip new_path s } } }
   }"

partial_function (option) isdirempty_from :: "nat \<Rightarrow> uint_t \<Rightarrow> 'a fs_state_scheme
    \<Rightarrow> (bool \<times> 'a fs_state_scheme) option" where
  "isdirempty_from dp off s =
     (if off < i_size (itable s dp)
      then do {
        (de, s) \<leftarrow> read_dirent ''isdirempty: readi'' dp off s;
        if de_inum de \<noteq> 0 then Some (False, s) else isdirempty_from dp (off + 16) s }
      else Some (True, s))"

definition isdirempty :: "nat \<Rightarrow> 'a fs_state_scheme \<Rightarrow> (bool \<times> 'a fs_state_scheme) option" where
  "isdirempty dp s = isdirempty_from dp 32 s"

definition unlink_bad :: "nat \<Rightarrow> 'a fs_state_scheme \<Rightarrow> (int \<times> 'a fs_state_scheme) option" where
  "unlink_bad dp s = do {
     s \<leftarrow> iunlockput dp s;
     s \<leftarrow> end_op s;
     Some (- 1, s)
   }"

definition unlink_entry :: "nat \<Rightarrow> nat \<Rightarrow> uint_t \<Rightarrow> 'a fs_state_scheme \<Rightarrow> (int \<times> 'a fs_state_scheme) option" where
  "unlink_entry dp ip off s = do {
     s \<leftarrow> ilock ip s;
     if sint (i_nlink (itable s ip)) < 1 then panic ''unlink: nlink < 1''
     else do {
       (busy, s) \<leftarrow> (if i_type (itable s ip) = T_DIR
                    then do { (e, s) \<leftarrow> isdirempty ip s; Some (\<not> e, s) }
                    else Some (False, s));
       if busy then do { s \<leftarrow> iunlockput ip s; unlink_bad dp s }
       else do {
         (r, s) \<leftarrow> writei dp (Local (replicate 16 0)) off 16 s;
         if r \<noteq> 16 then panic ''unlink: writei''
         else do {
           s \<leftarrow> (if i_type (itable s ip) = T_DIR
                then iupdate dp (upd_inode dp (\<lambda>x. x\<lparr>i_nlink := i_nlink x - 1\<rparr>) s)
                else Some s);
           s \<leftarrow> iunlockput dp s;
           let s = upd_inode ip (\<lambda>x. x\<lparr>i_nlink := i_nlink x - 1\<rparr>) s;
           s \<leftarrow> iupdate ip s;
           s \<leftarrow> iunlockput ip s;
           s \<leftarrow> end_op s;
           Some (0, s) } } }
   }"

definition dot :: "uint8 list" where "dot = [46]"
definition dotdot :: "uint8 list" where "dotdot = [46, 46]"

definition sys_unlink :: "'a proc_state_scheme \<Rightarrow> (int \<times> 'a proc_state_scheme) option" where
  "sys_unlink s = do {
     path \<leftarrow> argstr 0 MAXPATH s;
     case path of
       None \<Rightarrow> Some (- 1, s)
     | Some path \<Rightarrow> do {
         s \<leftarrow> begin_op s;
         (dir, name, s) \<leftarrow> nameiparent path (replicate DIRSIZ 0) s;
         case dir of
           None \<Rightarrow> do { s \<leftarrow> end_op s; Some (- 1, s) }
         | Some dp \<Rightarrow> do {
             s \<leftarrow> ilock dp s;
             if namecmp name dot = 0 \<or> namecmp name dotdot = 0 then unlink_bad dp s
             else do {
               (found, s) \<leftarrow> dirlookup dp name s;
               case found of
                 None \<Rightarrow> unlink_bad dp s
               | Some (ip, off) \<Rightarrow> unlink_entry dp ip off s } } }
   }"

section \<open>Creating and opening\<close>

definition create_fail :: "nat \<Rightarrow> nat \<Rightarrow> 'a fs_state_scheme \<Rightarrow> (nat option \<times> 'a fs_state_scheme) option" where
  "create_fail dp ip s = do {
     let s = upd_inode ip (\<lambda>x. x\<lparr>i_nlink := 0\<rparr>) s;
     s \<leftarrow> iupdate ip s;
     s \<leftarrow> iunlockput ip s;
     s \<leftarrow> iunlockput dp s;
     Some (None, s)
   }"

definition create_dots :: "nat \<Rightarrow> nat \<Rightarrow> 'a fs_state_scheme \<Rightarrow> (bool \<times> 'a fs_state_scheme) option" where
  "create_dots dp ip s = do {
     (r, s) \<leftarrow> dirlink ip dot (i_inum (itable s ip)) s;
     if r < 0 then Some (False, s)
     else do {
       (r, s) \<leftarrow> dirlink ip dotdot (i_inum (itable s dp)) s;
       Some (\<not> r < 0, s) }
   }"

definition create_new :: "nat \<Rightarrow> uint8 list \<Rightarrow> uint16 \<Rightarrow> uint16 \<Rightarrow> uint16 \<Rightarrow> nat
    \<Rightarrow> 'a fs_state_scheme \<Rightarrow> (nat option \<times> 'a fs_state_scheme) option" where
  "create_new dp name type major minor ip s = do {
     s \<leftarrow> ilock ip s;
     let s = upd_inode ip (\<lambda>x. x\<lparr>i_major := major, i_minor := minor, i_nlink := 1\<rparr>) s;
     s \<leftarrow> iupdate ip s;
     (ok, s) \<leftarrow> (if type = T_DIR then create_dots dp ip s else Some (True, s));
     if \<not> ok then create_fail dp ip s
     else do {
       (r, s) \<leftarrow> dirlink dp name (i_inum (itable s ip)) s;
       if r < 0 then create_fail dp ip s
       else do {
         s \<leftarrow> (if type = T_DIR
              then iupdate dp (upd_inode dp (\<lambda>x. x\<lparr>i_nlink := i_nlink x + 1\<rparr>) s)
              else Some s);
         s \<leftarrow> iunlockput dp s;
         Some (Some ip, s) } }
   }"

definition create :: "uint8 list \<Rightarrow> uint16 \<Rightarrow> uint16 \<Rightarrow> uint16
    \<Rightarrow> 'a fs_state_scheme \<Rightarrow> (nat option \<times> 'a fs_state_scheme) option" where
  "create path type major minor s = do {
     (dir, name, s) \<leftarrow> nameiparent path (replicate DIRSIZ 0) s;
     case dir of
       None \<Rightarrow> Some (None, s)
     | Some dp \<Rightarrow> do {
         s \<leftarrow> ilock dp s;
         (found, s) \<leftarrow> dirlookup dp name s;
         case found of
           Some (ip, _) \<Rightarrow> do {
             s \<leftarrow> iunlockput dp s;
             s \<leftarrow> ilock ip s;
             if type = T_FILE \<and> (i_type (itable s ip) = T_FILE \<or> i_type (itable s ip) = T_DEVICE)
             then Some (Some ip, s)
             else do {
               s \<leftarrow> iunlockput ip s;
               Some (None, s) } }
         | None \<Rightarrow> do {
             (new, s) \<leftarrow> ialloc (i_dev (itable s dp)) type s;
             case new of
               None \<Rightarrow> do { s \<leftarrow> iunlockput dp s; Some (None, s) }
             | Some ip \<Rightarrow> create_new dp name type major minor ip s } }
   }"

text \<open>The inode \<open>sys_open\<close> opens, locked.\<close>

definition open_inode :: "uint8 list \<Rightarrow> int \<Rightarrow> 'a fs_state_scheme \<Rightarrow> (nat option \<times> 'a fs_state_scheme) option" where
  "open_inode path omode s =
     (if omode AND O_CREATE \<noteq> 0 then create path T_FILE 0 0 s
      else do {
        (found, s) \<leftarrow> namei path s;
        case found of
          None \<Rightarrow> Some (None, s)
        | Some ip \<Rightarrow> do {
            s \<leftarrow> ilock ip s;
            if i_type (itable s ip) = T_DIR \<and> omode \<noteq> 0
            then do { s \<leftarrow> iunlockput ip s; Some (None, s) }
            else Some (Some ip, s) } })"

definition open_fail :: "nat \<Rightarrow> 'a fs_state_scheme \<Rightarrow> (int \<times> 'a fs_state_scheme) option" where
  "open_fail ip s = do {
     s \<leftarrow> iunlockput ip s;
     s \<leftarrow> end_op s;
     Some (- 1, s)
   }"

definition open_file_on :: "nat \<Rightarrow> nat \<Rightarrow> nat \<Rightarrow> int \<Rightarrow> 'a file_state_scheme \<Rightarrow> (int \<times> 'a file_state_scheme) option" where
  "open_file_on f fd ip omode s = do {
     let s = (if i_type (itable s ip) = T_DEVICE
              then upd_file f (\<lambda>x. x\<lparr>f_type := FD_DEVICE, f_major := i_major (itable s ip)\<rparr>) s
              else upd_file f (\<lambda>x. x\<lparr>f_type := FD_INODE, f_off := 0\<rparr>) s);
     let s = upd_file f (\<lambda>x. x\<lparr>f_ip := ip, f_readable := (omode AND O_WRONLY = 0),
               f_writable := (omode AND O_WRONLY \<noteq> 0 \<or> omode AND O_RDWR \<noteq> 0)\<rparr>) s;
     s \<leftarrow> (if omode AND O_TRUNC \<noteq> 0 \<and> i_type (itable s ip) = T_FILE then itrunc ip s else Some s);
     s \<leftarrow> iunlock ip s;
     s \<leftarrow> end_op s;
     Some (int fd, s)
   }"

definition sys_open :: "'a proc_state_scheme \<Rightarrow> (int \<times> 'a proc_state_scheme) option" where
  "sys_open s = do {
     omode \<leftarrow> argint 1 s;
     path \<leftarrow> argstr 0 MAXPATH s;
     case path of
       None \<Rightarrow> Some (- 1, s)
     | Some path \<Rightarrow> do {
         s \<leftarrow> begin_op s;
         (found, s) \<leftarrow> open_inode path omode s;
         case found of
           None \<Rightarrow> do { s \<leftarrow> end_op s; Some (- 1, s) }
         | Some ip \<Rightarrow>
             if i_type (itable s ip) = T_DEVICE
                \<and> (sint (i_major (itable s ip)) < 0 \<or> sint (i_major (itable s ip)) \<ge> int NDEV)
             then open_fail ip s
             else do {
               (f, s) \<leftarrow> filealloc s;
               case f of
                 None \<Rightarrow> open_fail ip s
               | Some f \<Rightarrow> do {
                   (fd, s) \<leftarrow> fdalloc f s;
                   case fd of
                     None \<Rightarrow> do { s \<leftarrow> fileclose f s; open_fail ip s }
                   | Some fd \<Rightarrow> open_file_on f fd ip omode s } } }
   }"

text \<open>\<open>sys_mkdir\<close> and \<open>sys_mknod\<close> after their arguments have been fetched.\<close>

definition create_and_put :: "uint8 list option \<Rightarrow> uint16 \<Rightarrow> uint16 \<Rightarrow> uint16
    \<Rightarrow> 'a fs_state_scheme \<Rightarrow> (int \<times> 'a fs_state_scheme) option" where
  "create_and_put path type major minor s = do {
     (ip, s) \<leftarrow> (case path of None \<Rightarrow> Some (None, s) | Some path \<Rightarrow> create path type major minor s);
     case ip of
       None \<Rightarrow> do { s \<leftarrow> end_op s; Some (- 1, s) }
     | Some ip \<Rightarrow> do {
         s \<leftarrow> iunlockput ip s;
         s \<leftarrow> end_op s;
         Some (0, s) }
   }"

definition sys_mkdir :: "'a proc_state_scheme \<Rightarrow> (int \<times> 'a proc_state_scheme) option" where
  "sys_mkdir s = do {
     s \<leftarrow> begin_op s;
     path \<leftarrow> argstr 0 MAXPATH s;
     create_and_put path T_DIR 0 0 s
   }"

definition sys_mknod :: "'a proc_state_scheme \<Rightarrow> (int \<times> 'a proc_state_scheme) option" where
  "sys_mknod s = do {
     s \<leftarrow> begin_op s;
     major \<leftarrow> argint 1 s;
     minor \<leftarrow> argint 2 s;
     path \<leftarrow> argstr 0 MAXPATH s;
     create_and_put path T_DEVICE (of_int major) (of_int minor) s
   }"

definition sys_chdir :: "'a proc_state_scheme \<Rightarrow> (int \<times> 'a proc_state_scheme) option" where
  "sys_chdir s = do {
     p \<leftarrow> myproc s;
     s \<leftarrow> begin_op s;
     path \<leftarrow> argstr 0 MAXPATH s;
     (found, s) \<leftarrow> (case path of None \<Rightarrow> Some (None, s) | Some path \<Rightarrow> namei path s);
     case found of
       None \<Rightarrow> do { s \<leftarrow> end_op s; Some (- 1, s) }
     | Some ip \<Rightarrow> do {
         s \<leftarrow> ilock ip s;
         if i_type (itable s ip) \<noteq> T_DIR
         then do {
           s \<leftarrow> iunlockput ip s;
           s \<leftarrow> end_op s;
           Some (- 1, s) }
         else do {
           s \<leftarrow> iunlock ip s;
           cwd \<leftarrow> p_cwd (procs s p);
           s \<leftarrow> iput cwd s;
           s \<leftarrow> end_op s;
           Some (0, upd_proc p (\<lambda>x. x\<lparr>p_cwd := Some ip\<rparr>) s) } }
   }"

section \<open>exec and pipe\<close>

text \<open>The argument loop of \<open>sys_exec\<close>: the pages allocated so far, and the strings copied into
  them, or \<^term>\<open>None\<close> for the jump to \<^verbatim>\<open>bad\<close>.\<close>

fun fetch_args :: "uint64 \<Rightarrow> nat \<Rightarrow> nat \<Rightarrow> uint64 list \<Rightarrow> uint8 list list
    \<Rightarrow> 'a mem_state_scheme \<Rightarrow> ((uint64 list \<times> uint8 list list option) \<times> 'a mem_state_scheme) option" where
  "fetch_args uargv i 0 pages args s = Some ((pages, None), s)"
| "fetch_args uargv i (Suc k) pages args s = do {
     (w, s) \<leftarrow> fetchaddr (uargv + 8 * of_nat i) s;
     case w of
       None \<Rightarrow> Some ((pages, None), s)
     | Some uarg \<Rightarrow>
         if uarg = 0 then Some ((pages, Some args), s)
         else do {
           (pa, s) \<leftarrow> kalloc s;
           if pa = 0 then Some ((pages, None), s)
           else do {
             str \<leftarrow> fetchstr uarg 4096 s;
             case str of
               None \<Rightarrow> Some ((pages @ [pa], None), s)
             | Some bs \<Rightarrow>
                 fetch_args uargv (i + 1) k (pages @ [pa]) (args @ [bs])
                   (s\<lparr>mem := store_bytes pa (bs @ [0]) (mem s)\<rparr>) } }
   }"

definition sys_exec :: "'a proc_state_scheme \<Rightarrow> (int \<times> 'a proc_state_scheme) option" where
  "sys_exec s = do {
     uargv \<leftarrow> argaddr 1 s;
     path \<leftarrow> argstr 0 MAXPATH s;
     case path of
       None \<Rightarrow> Some (- 1, s)
     | Some path \<Rightarrow> do {
         ((pages, args), s) \<leftarrow> fetch_args uargv 0 MAXARG [] [] s;
         (ret, s) \<leftarrow> (case args of None \<Rightarrow> Some (- 1, s) | Some argv \<Rightarrow> kexec path argv s);
         s \<leftarrow> for_each kfree pages s;
         Some (ret, s) }
   }"

definition close_both :: "nat \<Rightarrow> nat \<Rightarrow> 'a file_state_scheme \<Rightarrow> (int \<times> 'a file_state_scheme) option" where
  "close_both rfile wfile s = do {
     s \<leftarrow> fileclose rfile s;
     s \<leftarrow> fileclose wfile s;
     Some (- 1, s)
   }"

definition sys_pipe :: "'a proc_state_scheme \<Rightarrow> (int \<times> 'a proc_state_scheme) option" where
  "sys_pipe s = do {
     p \<leftarrow> myproc s;
     fdarray \<leftarrow> argaddr 0 s;
     (ends, s) \<leftarrow> pipealloc s;
     case ends of
       None \<Rightarrow> Some (- 1, s)
     | Some (rfile, wfile) \<Rightarrow> do {
         (fd0, s) \<leftarrow> fdalloc rfile s;
         case fd0 of
           None \<Rightarrow> close_both rfile wfile s
         | Some fd0 \<Rightarrow> do {
             (fd1, s) \<leftarrow> fdalloc wfile s;
             case fd1 of
               None \<Rightarrow> do { s \<leftarrow> close_fd fd0 s; close_both rfile wfile s }
             | Some fd1 \<Rightarrow> do {
                 (r, s) \<leftarrow> copyout (p_pagetable (procs s p)) fdarray (int_bytes (int fd0)) s;
                 (r, s) \<leftarrow> (if r < 0 then Some (r, s)
                           else copyout (p_pagetable (procs s p)) (fdarray + 4) (int_bytes (int fd1)) s);
                 if r < 0
                 then do {
                   s \<leftarrow> close_fd fd0 s;
                   s \<leftarrow> close_fd fd1 s;
                   close_both rfile wfile s }
                 else Some (0, s) } } }
   }"

end
