(* ===== verification/Syscall.thy ===== *)
theory Syscall
  imports Sysfile
begin

text \<open>
  The process calls (\<^verbatim>\<open>kernel/sysproc.c\<close>), system-call dispatch (\<^verbatim>\<open>kernel/syscall.c\<close>) and traps
  (\<^verbatim>\<open>kernel/trap.c\<close>).

  The control and status registers that trap handling reads and writes are fields of the state.
  The addresses of \<^verbatim>\<open>kernelvec\<close>, \<^verbatim>\<open>uservec\<close> and \<^verbatim>\<open>usertrap\<close> are symbols.  A handler that lets another process
  run (a timer tick, a call that sleeps, an exit) ends with the outcome of that call.
\<close>

section \<open>Process calls\<close>

definition SBRK_EAGER :: int where "SBRK_EAGER = 1"

definition sys_exit :: "'a proc_state_scheme \<Rightarrow> 'a proc_state_scheme option" where
  "sys_exit s = do { n \<leftarrow> argint 0 s; kexit n s }"

definition sys_getpid :: "'a proc_state_scheme \<Rightarrow> int option" where
  "sys_getpid s = do { p \<leftarrow> myproc s; Some (p_pid (procs s p)) }"

definition sys_fork :: "'a proc_state_scheme \<Rightarrow> (int \<times> 'a proc_state_scheme) option" where
  "sys_fork s = kfork s"

definition sys_wait :: "'a proc_state_scheme \<Rightarrow> (int outcome \<times> 'a proc_state_scheme) option" where
  "sys_wait s = do { p \<leftarrow> argaddr 0 s; kwait p s }"

definition sys_sbrk :: "'a proc_state_scheme \<Rightarrow> (uint64 \<times> 'a proc_state_scheme) option" where
  "sys_sbrk s = do {
     n \<leftarrow> argint 0 s;
     t \<leftarrow> argint 1 s;
     p \<leftarrow> myproc s;
     let addr = p_sz (procs s p);
     if t = SBRK_EAGER \<or> n < 0
     then do {
       (r, s) \<leftarrow> growproc n s;
       Some (if r < 0 then - 1 else addr, s) }
     else if addr + of_int n < addr then Some (- 1, s)
     else if addr + of_int n > TRAPFRAME then Some (- 1, s)
     else Some (addr, upd_proc p (\<lambda>x. x\<lparr>p_sz := p_sz x + of_int n\<rparr>) s)
   }"

text \<open>\<open>sys_pause\<close> with \<open>tickslock\<close> held; \<open>n\<close> is compared as an unsigned number.\<close>

definition pause_turn :: "nat \<Rightarrow> uint_t \<Rightarrow> uint_t \<Rightarrow> 'a proc_state_scheme
    \<Rightarrow> (int outcome \<times> 'a proc_state_scheme) option" where
  "pause_turn p ticks0 n s =
     (if ticks s - ticks0 < n
      then do {
        (k, s) \<leftarrow> killed p s;
        if k \<noteq> 0 then do { s \<leftarrow> rel TicksLock s; Some (Done (- 1), s) }
        else do {
          s \<leftarrow> sleep ChanTicks TicksLock s;
          Some (Asleep (WaitTicks ticks0), s) } }
      else do { s \<leftarrow> rel TicksLock s; Some (Done 0, s) })"

definition sys_pause :: "'a proc_state_scheme \<Rightarrow> (int outcome \<times> 'a proc_state_scheme) option" where
  "sys_pause s = do {
     n \<leftarrow> argint 0 s;
     p \<leftarrow> myproc s;
     let n = (if n < 0 then 0 else n);
     s \<leftarrow> acq TicksLock s;
     pause_turn p (ticks s) (of_int n) s
   }"

definition sys_pause_resume :: "nat \<Rightarrow> uint_t \<Rightarrow> uint_t \<Rightarrow> 'a proc_state_scheme
    \<Rightarrow> (int outcome \<times> 'a proc_state_scheme) option" where
  "sys_pause_resume p ticks0 n s = do { s \<leftarrow> sleep_resume p TicksLock s; pause_turn p ticks0 n s }"

definition sys_kill :: "'a proc_state_scheme \<Rightarrow> (int \<times> 'a proc_state_scheme) option" where
  "sys_kill s = do { pid \<leftarrow> argint 0 s; kkill pid s }"

definition sys_uptime :: "'a proc_state_scheme \<Rightarrow> (uint_t \<times> 'a proc_state_scheme) option" where
  "sys_uptime s = do {
     s \<leftarrow> acq TicksLock s;
     let xticks = ticks s;
     s \<leftarrow> rel TicksLock s;
     Some (xticks, s)
   }"

definition sys_getppid :: "'a proc_state_scheme \<Rightarrow> (int \<times> 'a proc_state_scheme) option" where
  "sys_getppid s = kgetppid s"

definition sys_getnumchild :: "'a proc_state_scheme \<Rightarrow> (int \<times> 'a proc_state_scheme) option" where
  "sys_getnumchild s = do { p \<leftarrow> argaddr 0 s; kgetnumchild p s }"

definition sys_getsyscount :: "'a proc_state_scheme \<Rightarrow> int option" where
  "sys_getsyscount s = do { p \<leftarrow> myproc s; Some (p_sysCount (procs s p)) }"

definition sys_getchildsyscount :: "'a proc_state_scheme \<Rightarrow> (int \<times> 'a proc_state_scheme) option" where
  "sys_getchildsyscount s = do { pid \<leftarrow> argint 0 s; kgetchildsyscount pid s }"

definition sys_getpinfo :: "'a proc_state_scheme \<Rightarrow> (int \<times> 'a proc_state_scheme) option" where
  "sys_getpinfo s = do {
     p \<leftarrow> myproc s;
     s \<leftarrow> acq (ProcLock p) s;
     s \<leftarrow> rel (ProcLock p) s;
     Some (0, s)
   }"

definition sys_getlevel :: "'a proc_state_scheme \<Rightarrow> int option" where
  "sys_getlevel s = do { p \<leftarrow> myproc s; Some (int (p_qlevel (procs s p))) }"

definition sys_getmlfqinfo :: "'a proc_state_scheme \<Rightarrow> (int \<times> 'a proc_state_scheme) option" where
  "sys_getmlfqinfo s = do {
     pid \<leftarrow> argint 0 s;
     info_ptr \<leftarrow> argaddr 1 s;
     kgetmlfqinfo pid info_ptr s
   }"

definition sys_getvmstats :: "'a proc_state_scheme \<Rightarrow> (int \<times> 'a proc_state_scheme) option" where
  "sys_getvmstats s = do {
     pid \<leftarrow> argint 0 s;
     info_ptr \<leftarrow> argaddr 1 s;
     kgetvmstats pid info_ptr s
   }"

section \<open>Dispatch\<close>

text \<open>The conversions from a handler's result to the 64-bit value stored in \<^verbatim>\<open>a0\<close>.\<close>

definition ret_int :: "(int \<times> 's) option \<Rightarrow> (uint64 outcome \<times> 's) option" where
  "ret_int m = do { (r, s) \<leftarrow> m; Some (Done (of_int r), s) }"

definition ret_word :: "(uint64 \<times> 's) option \<Rightarrow> (uint64 outcome \<times> 's) option" where
  "ret_word m = do { (r, s) \<leftarrow> m; Some (Done r, s) }"

definition ret_outcome :: "(int outcome \<times> 's) option \<Rightarrow> (uint64 outcome \<times> 's) option" where
  "ret_outcome m = do { (r, s) \<leftarrow> m; Some (map_outcome of_int r, s) }"

definition ret_const :: "'s \<Rightarrow> int option \<Rightarrow> (uint64 outcome \<times> 's) option" where
  "ret_const s m = do { r \<leftarrow> m; Some (Done (of_int r), s) }"

text \<open>The table \<open>syscalls\<close>; \<^term>\<open>None\<close> outside for a number without an entry.  \<open>sys_hello\<close> only
  prints; of \<open>sys_getpinfo\<close>, which prints under the lock of the process, the locking is modelled.\<close>

definition syscalls :: "int \<Rightarrow> ('a proc_state_scheme \<Rightarrow> (uint64 outcome \<times> 'a proc_state_scheme) option) option" where
  "syscalls num =
     (if num = 1 then Some (\<lambda>s. ret_int (sys_fork s))
      else if num = 2 then Some (\<lambda>s. do { s \<leftarrow> sys_exit s; Some (Exited, s) })
      else if num = 3 then Some (\<lambda>s. ret_outcome (sys_wait s))
      else if num = 4 then Some (\<lambda>s. ret_int (sys_pipe s))
      else if num = 5 then Some (\<lambda>s. ret_outcome (sys_read s))
      else if num = 6 then Some (\<lambda>s. ret_int (sys_kill s))
      else if num = 7 then Some (\<lambda>s. ret_int (sys_exec s))
      else if num = 8 then Some (\<lambda>s. ret_int (sys_fstat s))
      else if num = 9 then Some (\<lambda>s. ret_int (sys_chdir s))
      else if num = 10 then Some (\<lambda>s. ret_int (sys_dup s))
      else if num = 11 then Some (\<lambda>s. ret_const s (sys_getpid s))
      else if num = 12 then Some (\<lambda>s. ret_word (sys_sbrk s))
      else if num = 13 then Some (\<lambda>s. ret_outcome (sys_pause s))
      else if num = 14 then Some (\<lambda>s. ret_word (map_option (apfst ucast) (sys_uptime s)))
      else if num = 15 then Some (\<lambda>s. ret_int (sys_open s))
      else if num = 16 then Some (\<lambda>s. ret_outcome (sys_write s))
      else if num = 17 then Some (\<lambda>s. ret_int (sys_mknod s))
      else if num = 18 then Some (\<lambda>s. ret_int (sys_unlink s))
      else if num = 19 then Some (\<lambda>s. ret_int (sys_link s))
      else if num = 20 then Some (\<lambda>s. ret_int (sys_mkdir s))
      else if num = 21 then Some (\<lambda>s. ret_int (sys_close s))
      else if num = 22 then Some (\<lambda>s. ret_const s (Some 0))
      else if num = 23 then Some (\<lambda>s. ret_int (sys_getppid s))
      else if num = 24 then Some (\<lambda>s. ret_int (sys_getnumchild s))
      else if num = 25 then Some (\<lambda>s. ret_const s (sys_getsyscount s))
      else if num = 26 then Some (\<lambda>s. ret_int (sys_getchildsyscount s))
      else if num = 27 then Some (\<lambda>s. ret_const s (sys_getpid s))
      else if num = 28 then Some (\<lambda>s. ret_int (sys_getpinfo s))
      else if num = 29 then Some (\<lambda>s. ret_const s (sys_getlevel s))
      else if num = 30 then Some (\<lambda>s. ret_int (sys_getmlfqinfo s))
      else if num = 31 then Some (\<lambda>s. ret_int (sys_getvmstats s))
      else None)"

definition syscall :: "'a proc_state_scheme \<Rightarrow> (uint64 outcome \<times> 'a proc_state_scheme) option" where
  "syscall s = do {
     p \<leftarrow> myproc s;
     a7 \<leftarrow> trapframe_word 168 s;
     case syscalls (sint (ucast a7 :: 32 word)) of
       None \<Rightarrow> do {
         s \<leftarrow> set_trapframe_word 112 (- 1) s;
         Some (Done (- 1), s) }
     | Some handler \<Rightarrow> do {
         let s = upd_proc p (\<lambda>x. x\<lparr>p_sysCount := p_sysCount x + 1\<rparr>) s;
         (r, s) \<leftarrow> handler s;
         case r of
           Done v \<Rightarrow> do {
             s \<leftarrow> set_trapframe_word 112 v s;
             Some (Done v, s) }
         | _ \<Rightarrow> Some (r, s) }
   }"

section \<open>Traps\<close>

record trap_state = proc_state +
  sstatus :: uint64
  sepc :: uint64
  scause :: uint64
  stval :: uint64
  stvec :: uint64
  satp :: uint64
  stimecmp :: uint64
  mtime :: uint64
  plic_pending :: "uint_t"
  sym_kernelvec :: uint64
  sym_uservec :: uint64
  sym_usertrap :: uint64

definition SSTATUS_SPP :: uint64 where "SSTATUS_SPP = push_bit 8 1"
definition SSTATUS_SPIE :: uint64 where "SSTATUS_SPIE = push_bit 5 1"
definition SSTATUS_SIE :: uint64 where "SSTATUS_SIE = push_bit 1 1"
definition UART0_IRQ :: uint_t where "UART0_IRQ = 10"
definition VIRTIO0_IRQ :: uint_t where "VIRTIO0_IRQ = 1"

definition clockintr :: "'a trap_state_scheme \<Rightarrow> 'a trap_state_scheme option" where
  "clockintr s = do {
     s \<leftarrow>
       (if tp s = 0
        then do {
          s \<leftarrow> acq TicksLock s;
          let s = s\<lparr>ticks := ticks s + 1\<rparr>;
          s \<leftarrow> wakeup ChanTicks s;
          rel TicksLock s }
        else Some s);
     Some (s\<lparr>stimecmp := mtime s + 1000000\<rparr>)
   }"

text \<open>\<open>devintr\<close> claims the pending interrupt from the interrupt controller and completes it.  The
  disk's handler is a parameter; the transfers themselves are modelled as synchronous.\<close>

definition devintr :: "('a trap_state_scheme \<Rightarrow> 'a trap_state_scheme option) \<Rightarrow> 'a trap_state_scheme
    \<Rightarrow> (int \<times> 'a trap_state_scheme) option" where
  "devintr disk_intr s =
     (if scause s = 0x8000000000000009
      then do {
        let irq = plic_pending s;
        let s = s\<lparr>plic_pending := 0\<rparr>;
        s \<leftarrow> (if irq = UART0_IRQ then uartintr s
             else if irq = VIRTIO0_IRQ then disk_intr s
             else Some s);
        Some (1, s) }
      else if scause s = 0x8000000000000005
      then do { s \<leftarrow> clockintr s; Some (2, s) }
      else Some (0, s))"

definition prepare_return :: "'a trap_state_scheme \<Rightarrow> 'a trap_state_scheme option" where
  "prepare_return s = do {
     p \<leftarrow> myproc s;
     let s = s\<lparr>sstatus := sstatus s AND NOT SSTATUS_SIE\<rparr>;
     let s = s\<lparr>stvec := TRAMPOLINE + (sym_uservec s - sym_trampoline s)\<rparr>;
     s \<leftarrow> set_trapframe_word 0 (satp s) s;
     s \<leftarrow> set_trapframe_word 8 (p_kstack (procs s p) + PGSIZE) s;
     s \<leftarrow> set_trapframe_word 16 (sym_usertrap s) s;
     s \<leftarrow> set_trapframe_word 32 (of_nat (tp s)) s;
     let s = s\<lparr>sstatus := (sstatus s AND NOT SSTATUS_SPP) OR SSTATUS_SPIE\<rparr>;
     epc \<leftarrow> trapframe_word 24 s;
     Some (s\<lparr>sepc := epc\<rparr>)
   }"

definition MAKE_SATP :: "uint64 \<Rightarrow> uint64" where
  "MAKE_SATP pagetable = push_bit 60 8 OR drop_bit 12 pagetable"

text \<open>The end of \<open>usertrap\<close>: the second \<open>killed\<close> test, the timer tick, and the return to user space,
  with the value for \<^verbatim>\<open>satp\<close>.\<close>

definition usertrap_finish :: "nat \<Rightarrow> int \<Rightarrow> 'a trap_state_scheme \<Rightarrow> (uint64 outcome \<times> 'a trap_state_scheme) option" where
  "usertrap_finish p which_dev s = do {
     (k, s) \<leftarrow> killed p s;
     if k \<noteq> 0 then do { s \<leftarrow> kexit (- 1) s; Some (Exited, s) }
     else do {
       (fl, s) \<leftarrow> (if which_dev = 2 then do { q \<leftarrow> myproc s; event_tick q s } else Some (Returned, s));
       case fl of
         Switched \<Rightarrow> Some (Asleep WaitTurn, s)
       | Returned \<Rightarrow> do {
           s \<leftarrow> prepare_return s;
           Some (Done (MAKE_SATP (p_pagetable (procs s p))), s) } }
   }"

definition usertrap :: "('a trap_state_scheme \<Rightarrow> 'a trap_state_scheme option) \<Rightarrow> 'a trap_state_scheme
    \<Rightarrow> (uint64 outcome \<times> 'a trap_state_scheme) option" where
  "usertrap disk_intr s =
     (if sstatus s AND SSTATUS_SPP \<noteq> 0 then panic ''usertrap: not from user mode''
      else do {
        let s = s\<lparr>stvec := sym_kernelvec s\<rparr>;
        p \<leftarrow> myproc s;
        s \<leftarrow> set_trapframe_word 24 (sepc s) s;
        if scause s = 8
        then do {
          (k, s) \<leftarrow> killed p s;
          if k \<noteq> 0 then do { s \<leftarrow> kexit (- 1) s; Some (Exited, s) }
          else do {
            epc \<leftarrow> trapframe_word 24 s;
            s \<leftarrow> set_trapframe_word 24 (epc + 4) s;
            let s = s\<lparr>sstatus := sstatus s OR SSTATUS_SIE\<rparr>;
            (r, s) \<leftarrow> syscall s;
            case r of
              Done _ \<Rightarrow> usertrap_finish p 0 s
            | _ \<Rightarrow> Some (r, s) } }
        else do {
          (which_dev, s) \<leftarrow> devintr disk_intr s;
          if which_dev \<noteq> 0 then usertrap_finish p which_dev s
          else if scause s = 15 \<or> scause s = 13 \<or> scause s = 12
          then do {
            (pa, s) \<leftarrow> vmfault (p_pagetable (procs s p)) (stval s) s;
            if pa = 0 then panic ''mem alloc failed'' else usertrap_finish p 0 s }
          else do {
            s \<leftarrow> setkilled p s;
            usertrap_finish p 0 s } } })"

definition kerneltrap :: "('a trap_state_scheme \<Rightarrow> 'a trap_state_scheme option) \<Rightarrow> 'a trap_state_scheme
    \<Rightarrow> (flow \<times> 'a trap_state_scheme) option" where
  "kerneltrap disk_intr s =
     (let sepc0 = sepc s; sstatus0 = sstatus s in
      if sstatus0 AND SSTATUS_SPP = 0 then panic ''kerneltrap: not from supervisor mode''
      else if sstatus s AND SSTATUS_SIE \<noteq> 0 then panic ''kerneltrap: interrupts enabled''
      else do {
        (which_dev, s) \<leftarrow> devintr disk_intr s;
        if which_dev = 0 then panic ''kerneltrap''
        else do {
          (fl, s) \<leftarrow>
            (case myproc s of
               Some p \<Rightarrow> if which_dev = 2 then event_tick p s else Some (Returned, s)
             | None \<Rightarrow> Some (Returned, s));
          case fl of
            Switched \<Rightarrow> Some (Switched, s)
          | Returned \<Rightarrow> Some (Returned, s\<lparr>sepc := sepc0, sstatus := sstatus0\<rparr>) } })"

text \<open>The rest of \<open>kerneltrap\<close> when the interrupted process \<open>p\<close> runs again.\<close>

definition kerneltrap_resume :: "nat \<Rightarrow> uint64 \<Rightarrow> uint64 \<Rightarrow> 'a trap_state_scheme \<Rightarrow> 'a trap_state_scheme option" where
  "kerneltrap_resume p sepc0 sstatus0 s = do {
     s \<leftarrow> yield_resume p s;
     Some (s\<lparr>sepc := sepc0, sstatus := sstatus0\<rparr>)
   }"

definition init_path :: "uint8 list" where
  "init_path = [47, 105, 110, 105, 116]"

definition forkret :: "'a trap_state_scheme \<Rightarrow> (uint64 \<times> 'a trap_state_scheme) option" where
  "forkret s = do {
     p \<leftarrow> myproc s;
     s \<leftarrow> rel (ProcLock p) s;
     s \<leftarrow>
       (if forkret_first s
        then do {
          s \<leftarrow> fsinit ROOTDEV s;
          let s = s\<lparr>forkret_first := False\<rparr>;
          (r, s) \<leftarrow> kexec init_path [init_path] s;
          s \<leftarrow> set_trapframe_word 112 (of_int r) s;
          if r = - 1 then panic ''exec'' else Some s }
        else Some s);
     s \<leftarrow> prepare_return s;
     Some (MAKE_SATP (p_pagetable (procs s p)), s)
   }"

end
