(* ===== verification/Virtio.thy ===== *)
theory Virtio
  imports Bio
begin

text \<open>
  The disk driver (\<^verbatim>\<open>kernel/virtio_disk.c\<close>, \<^verbatim>\<open>kernel/virtio.h\<close>).  The descriptor table and the two rings, which the
  code keeps in three pages shared with the device, are arrays of the state; the addresses that the driver
  stores in descriptors are tagged with the object they point to.  The device registers are read
  through a function \<open>dev\<close> of the writes made so far, which stands for the device.  A call that sleeps
  ends with an outcome that says what it waits for.
\<close>

section \<open>Constants and state\<close>

definition NUM :: nat where "NUM = 8"
definition VRING_DESC_F_NEXT :: uint16 where "VRING_DESC_F_NEXT = 1"
definition VRING_DESC_F_WRITE :: uint16 where "VRING_DESC_F_WRITE = 2"
definition VIRTIO_BLK_T_IN :: uint32 where "VIRTIO_BLK_T_IN = 0"
definition VIRTIO_BLK_T_OUT :: uint32 where "VIRTIO_BLK_T_OUT = 1"

datatype target = Null | OpsEntry nat | BufData nat | InfoStatus nat

record virtq_desc =
  d_addr :: target
  d_len :: uint32
  d_flags :: uint16
  d_next :: uint16

record virtio_blk_req =
  rq_type :: uint32
  rq_reserved :: uint32
  rq_sector :: uint64

record disk_info =
  in_b :: "nat option"
  in_status :: uint8

record vdisk_state = bio_state +
  desc :: "nat \<Rightarrow> virtq_desc"
  avail_idx :: uint16
  avail_ring :: "nat \<Rightarrow> uint16"
  used_new :: uint16
  used_ring :: "nat \<Rightarrow> uint32"
  dfree :: "nat \<Rightarrow> bool"
  used_idx :: uint16
  dinfo :: "nat \<Rightarrow> disk_info"
  dops :: "nat \<Rightarrow> virtio_blk_req"
  queue_pages :: "uint64 \<times> uint64 \<times> uint64"
  mmio :: "(uint64 \<times> uint32) list"

definition upd_desc :: "int \<Rightarrow> (virtq_desc \<Rightarrow> virtq_desc) \<Rightarrow> 'a vdisk_state_scheme \<Rightarrow> 'a vdisk_state_scheme" where
  "upd_desc i f s = s\<lparr>desc := (desc s)(nat i := f (desc s (nat i)))\<rparr>"

definition upd_info :: "int \<Rightarrow> (disk_info \<Rightarrow> disk_info) \<Rightarrow> 'a vdisk_state_scheme \<Rightarrow> 'a vdisk_state_scheme" where
  "upd_info i f s = s\<lparr>dinfo := (dinfo s)(nat i := f (dinfo s (nat i)))\<rparr>"

section \<open>Initialisation\<close>

definition VIRTIO_MMIO_MAGIC_VALUE :: uint64 where "VIRTIO_MMIO_MAGIC_VALUE = 0x000"
definition VIRTIO_MMIO_VERSION :: uint64 where "VIRTIO_MMIO_VERSION = 0x004"
definition VIRTIO_MMIO_DEVICE_ID :: uint64 where "VIRTIO_MMIO_DEVICE_ID = 0x008"
definition VIRTIO_MMIO_VENDOR_ID :: uint64 where "VIRTIO_MMIO_VENDOR_ID = 0x00c"
definition VIRTIO_MMIO_DEVICE_FEATURES :: uint64 where "VIRTIO_MMIO_DEVICE_FEATURES = 0x010"
definition VIRTIO_MMIO_DRIVER_FEATURES :: uint64 where "VIRTIO_MMIO_DRIVER_FEATURES = 0x020"
definition VIRTIO_MMIO_QUEUE_SEL :: uint64 where "VIRTIO_MMIO_QUEUE_SEL = 0x030"
definition VIRTIO_MMIO_QUEUE_NUM_MAX :: uint64 where "VIRTIO_MMIO_QUEUE_NUM_MAX = 0x034"
definition VIRTIO_MMIO_QUEUE_NUM :: uint64 where "VIRTIO_MMIO_QUEUE_NUM = 0x038"
definition VIRTIO_MMIO_QUEUE_READY :: uint64 where "VIRTIO_MMIO_QUEUE_READY = 0x044"
definition VIRTIO_MMIO_QUEUE_NOTIFY :: uint64 where "VIRTIO_MMIO_QUEUE_NOTIFY = 0x050"
definition VIRTIO_MMIO_INTERRUPT_STATUS :: uint64 where "VIRTIO_MMIO_INTERRUPT_STATUS = 0x060"
definition VIRTIO_MMIO_INTERRUPT_ACK :: uint64 where "VIRTIO_MMIO_INTERRUPT_ACK = 0x064"
definition VIRTIO_MMIO_STATUS :: uint64 where "VIRTIO_MMIO_STATUS = 0x070"
definition VIRTIO_MMIO_QUEUE_DESC_LOW :: uint64 where "VIRTIO_MMIO_QUEUE_DESC_LOW = 0x080"
definition VIRTIO_MMIO_QUEUE_DESC_HIGH :: uint64 where "VIRTIO_MMIO_QUEUE_DESC_HIGH = 0x084"
definition VIRTIO_MMIO_DRIVER_DESC_LOW :: uint64 where "VIRTIO_MMIO_DRIVER_DESC_LOW = 0x090"
definition VIRTIO_MMIO_DRIVER_DESC_HIGH :: uint64 where "VIRTIO_MMIO_DRIVER_DESC_HIGH = 0x094"
definition VIRTIO_MMIO_DEVICE_DESC_LOW :: uint64 where "VIRTIO_MMIO_DEVICE_DESC_LOW = 0x0a0"
definition VIRTIO_MMIO_DEVICE_DESC_HIGH :: uint64 where "VIRTIO_MMIO_DEVICE_DESC_HIGH = 0x0a4"

definition VIRTIO_CONFIG_S_ACKNOWLEDGE :: uint32 where "VIRTIO_CONFIG_S_ACKNOWLEDGE = 1"
definition VIRTIO_CONFIG_S_DRIVER :: uint32 where "VIRTIO_CONFIG_S_DRIVER = 2"
definition VIRTIO_CONFIG_S_DRIVER_OK :: uint32 where "VIRTIO_CONFIG_S_DRIVER_OK = 4"
definition VIRTIO_CONFIG_S_FEATURES_OK :: uint32 where "VIRTIO_CONFIG_S_FEATURES_OK = 8"

text \<open>The feature bits that the driver declines.\<close>

definition declined :: "nat list" where
  "declined = [5, 7, 11, 12, 27, 29, 28]"

type_synonym device_regs = "(uint64 \<times> uint32) list \<Rightarrow> uint64 \<Rightarrow> uint32"

definition wreg :: "uint64 \<Rightarrow> uint32 \<Rightarrow> 'a vdisk_state_scheme \<Rightarrow> 'a vdisk_state_scheme" where
  "wreg r v s = s\<lparr>mmio := mmio s @ [(r, v)]\<rparr>"

definition rreg :: "device_regs \<Rightarrow> uint64 \<Rightarrow> 'a vdisk_state_scheme \<Rightarrow> uint32" where
  "rreg dev r s = dev (mmio s) r"

definition negotiate :: "device_regs \<Rightarrow> 'a vdisk_state_scheme \<Rightarrow> (uint32 \<times> 'a vdisk_state_scheme) option" where
  "negotiate dev s =
     (if rreg dev VIRTIO_MMIO_MAGIC_VALUE s \<noteq> 0x74726976 \<or> rreg dev VIRTIO_MMIO_VERSION s \<noteq> 2
         \<or> rreg dev VIRTIO_MMIO_DEVICE_ID s \<noteq> 2 \<or> rreg dev VIRTIO_MMIO_VENDOR_ID s \<noteq> 0x554d4551
      then panic ''could not find virtio disk''
      else do {
        let status = 0;
        let s = wreg VIRTIO_MMIO_STATUS status s;
        let status = status OR VIRTIO_CONFIG_S_ACKNOWLEDGE;
        let s = wreg VIRTIO_MMIO_STATUS status s;
        let status = status OR VIRTIO_CONFIG_S_DRIVER;
        let s = wreg VIRTIO_MMIO_STATUS status s;
        let features = (ucast (rreg dev VIRTIO_MMIO_DEVICE_FEATURES s) :: uint64);
        let features = fold (\<lambda>b f. f AND NOT (push_bit b 1)) declined features;
        let s = wreg VIRTIO_MMIO_DRIVER_FEATURES (ucast features) s;
        let status = status OR VIRTIO_CONFIG_S_FEATURES_OK;
        let s = wreg VIRTIO_MMIO_STATUS status s;
        let status = rreg dev VIRTIO_MMIO_STATUS s;
        if status AND VIRTIO_CONFIG_S_FEATURES_OK = 0 then panic ''virtio disk FEATURES_OK unset''
        else Some (status, s) })"

definition queue_size_ok :: "device_regs \<Rightarrow> 'a vdisk_state_scheme \<Rightarrow> 'a vdisk_state_scheme option" where
  "queue_size_ok dev s = do {
     let s = wreg VIRTIO_MMIO_QUEUE_SEL 0 s;
     if rreg dev VIRTIO_MMIO_QUEUE_READY s \<noteq> 0 then panic ''virtio disk should not be ready''
     else do {
       let max = rreg dev VIRTIO_MMIO_QUEUE_NUM_MAX s;
       if max = 0 then panic ''virtio disk has no queue 0''
       else if max < of_nat NUM then panic ''virtio disk max queue too short''
       else Some s } }"

definition wreg_addr :: "uint64 \<Rightarrow> uint64 \<Rightarrow> uint64 \<Rightarrow> 'a vdisk_state_scheme \<Rightarrow> 'a vdisk_state_scheme" where
  "wreg_addr low high a s = wreg high (ucast (drop_bit 32 a)) (wreg low (ucast a) s)"

definition virtio_disk_init :: "device_regs \<Rightarrow> 'a vdisk_state_scheme \<Rightarrow> 'a vdisk_state_scheme option" where
  "virtio_disk_init dev s = do {
     (status, s) \<leftarrow> negotiate dev s;
     s \<leftarrow> queue_size_ok dev s;
     (d, s) \<leftarrow> kalloc s;
     (a, s) \<leftarrow> kalloc s;
     (u, s) \<leftarrow> kalloc s;
     if d = 0 \<or> a = 0 \<or> u = 0 then panic ''virtio disk kalloc''
     else do {
       let s = s\<lparr>queue_pages := (d, a, u),
                 mem := memset u 0 (unat PGSIZE) (memset a 0 (unat PGSIZE) (memset d 0 (unat PGSIZE) (mem s))),
                 desc := (\<lambda>_. \<lparr>d_addr = Null, d_len = 0, d_flags = 0, d_next = 0\<rparr>),
                 avail_idx := 0, avail_ring := (\<lambda>_. 0), used_new := 0, used_ring := (\<lambda>_. 0)\<rparr>;
       let s = wreg VIRTIO_MMIO_QUEUE_NUM (of_nat NUM) s;
       let s = wreg_addr VIRTIO_MMIO_QUEUE_DESC_LOW VIRTIO_MMIO_QUEUE_DESC_HIGH d s;
       let s = wreg_addr VIRTIO_MMIO_DRIVER_DESC_LOW VIRTIO_MMIO_DRIVER_DESC_HIGH a s;
       let s = wreg_addr VIRTIO_MMIO_DEVICE_DESC_LOW VIRTIO_MMIO_DEVICE_DESC_HIGH u s;
       let s = wreg VIRTIO_MMIO_QUEUE_READY 1 s;
       let s = s\<lparr>dfree := (\<lambda>i. i < NUM \<or> dfree s i)\<rparr>;
       Some (wreg VIRTIO_MMIO_STATUS (status OR VIRTIO_CONFIG_S_DRIVER_OK) s) } }"

section \<open>Descriptors\<close>

definition alloc_desc :: "'a vdisk_state_scheme \<Rightarrow> int \<times> 'a vdisk_state_scheme" where
  "alloc_desc s =
     (case find (dfree s) [0..<NUM] of
        Some i \<Rightarrow> (int i, s\<lparr>dfree := (dfree s)(i := False)\<rparr>)
      | None \<Rightarrow> (- 1, s))"

definition free_desc :: "int \<Rightarrow> 'a vdisk_state_scheme \<Rightarrow> 'a vdisk_state_scheme option" where
  "free_desc i s =
     (if i \<ge> int NUM then panic ''free_desc 1''
      else do {
        check (0 \<le> i);
        if dfree s (nat i) then panic ''free_desc 2''
        else do {
          let s = upd_desc i (\<lambda>d. d\<lparr>d_addr := Null, d_len := 0, d_flags := 0, d_next := 0\<rparr>) s;
          let s = s\<lparr>dfree := (dfree s)(nat i := True)\<rparr>;
          wakeup ChanDiskFree s } })"

partial_function (option) free_chain :: "int \<Rightarrow> 'a vdisk_state_scheme \<Rightarrow> 'a vdisk_state_scheme option" where
  "free_chain i s = do {
     check (0 \<le> i \<and> i < int NUM);
     let flag = d_flags (desc s (nat i));
     let nxt = d_next (desc s (nat i));
     s \<leftarrow> free_desc i s;
     if flag AND VRING_DESC_F_NEXT \<noteq> 0 then free_chain (uint nxt) s else Some s
   }"

fun alloc3_loop :: "nat \<Rightarrow> int list \<Rightarrow> 'a vdisk_state_scheme \<Rightarrow> (int \<times> int list \<times> 'a vdisk_state_scheme) option" where
  "alloc3_loop 0 idx s = Some (0, idx, s)"
| "alloc3_loop (Suc n) idx s =
     (let (d, s) = alloc_desc s in
      if d < 0 then do { s \<leftarrow> for_each free_desc idx s; Some (- 1, idx @ [d], s) }
      else alloc3_loop n (idx @ [d]) s)"

definition alloc3_desc :: "'a vdisk_state_scheme \<Rightarrow> (int \<times> int list \<times> 'a vdisk_state_scheme) option" where
  "alloc3_desc s = alloc3_loop 3 [] s"

section \<open>Requests\<close>

definition format_request :: "nat \<Rightarrow> bool \<Rightarrow> int \<Rightarrow> int \<Rightarrow> int \<Rightarrow> 'a vdisk_state_scheme \<Rightarrow> 'a vdisk_state_scheme" where
  "format_request b write i0 i1 i2 s =
     (let sector = ucast (b_blockno (bufs s b) * of_nat (BSIZE div 512));
          s = s\<lparr>dops := (dops s)(nat i0 := \<lparr>rq_type = (if write then VIRTIO_BLK_T_OUT else VIRTIO_BLK_T_IN),
                                         rq_reserved = 0, rq_sector = sector\<rparr>)\<rparr>;
          s = upd_desc i0 (\<lambda>d. \<lparr>d_addr = OpsEntry (nat i0), d_len = 16, d_flags = VRING_DESC_F_NEXT,
                                d_next = of_int i1\<rparr>) s;
          s = upd_desc i1 (\<lambda>d. \<lparr>d_addr = BufData b, d_len = of_nat BSIZE,
                                d_flags = (if write then 0 else VRING_DESC_F_WRITE) OR VRING_DESC_F_NEXT,
                                d_next = of_int i2\<rparr>) s;
          s = upd_info i0 (\<lambda>x. x\<lparr>in_status := 0xff\<rparr>) s
      in upd_desc i2 (\<lambda>d. \<lparr>d_addr = InfoStatus (nat i0), d_len = 1, d_flags = VRING_DESC_F_WRITE, d_next = 0\<rparr>) s)"

definition post_request :: "nat \<Rightarrow> int \<Rightarrow> 'a vdisk_state_scheme \<Rightarrow> 'a vdisk_state_scheme" where
  "post_request b i0 s =
     (let s = upd_buf b (\<lambda>x. x\<lparr>b_disk := True\<rparr>) s;
          s = upd_info i0 (\<lambda>x. x\<lparr>in_b := Some b\<rparr>) s;
          s = s\<lparr>avail_ring := (avail_ring s)(unat (avail_idx s) mod NUM := of_int i0)\<rparr>;
          s = s\<lparr>avail_idx := avail_idx s + 1\<rparr>
      in wreg VIRTIO_MMIO_QUEUE_NOTIFY 0 s)"

definition finish_request :: "int \<Rightarrow> 'a vdisk_state_scheme \<Rightarrow> 'a vdisk_state_scheme option" where
  "finish_request i0 s = do {
     let s = upd_info i0 (\<lambda>x. x\<lparr>in_b := None\<rparr>) s;
     s \<leftarrow> free_chain i0 s;
     rel VdiskLock s
   }"

datatype rw_outcome = RwDone | RwWaitDesc | RwWaitDisk int

definition rw_wait :: "nat \<Rightarrow> int \<Rightarrow> 'a vdisk_state_scheme \<Rightarrow> (rw_outcome \<times> 'a vdisk_state_scheme) option" where
  "rw_wait b i0 s =
     (if b_disk (bufs s b) then do { s \<leftarrow> sleep (ChanBuf b) VdiskLock s; Some (RwWaitDisk i0, s) }
      else do { s \<leftarrow> finish_request i0 s; Some (RwDone, s) })"

definition rw_turn :: "nat \<Rightarrow> bool \<Rightarrow> 'a vdisk_state_scheme \<Rightarrow> (rw_outcome \<times> 'a vdisk_state_scheme) option" where
  "rw_turn b write s = do {
     (r, idx, s) \<leftarrow> alloc3_desc s;
     if r = 0
     then rw_wait b (idx ! 0) (post_request b (idx ! 0) (format_request b write (idx ! 0) (idx ! 1) (idx ! 2) s))
     else do { s \<leftarrow> sleep ChanDiskFree VdiskLock s; Some (RwWaitDesc, s) } }"

definition driver_rw :: "nat \<Rightarrow> bool \<Rightarrow> 'a vdisk_state_scheme \<Rightarrow> (rw_outcome \<times> 'a vdisk_state_scheme) option" where
  "driver_rw b write s = do { s \<leftarrow> acq VdiskLock s; rw_turn b write s }"

definition driver_rw_resume :: "nat \<Rightarrow> nat \<Rightarrow> bool \<Rightarrow> rw_outcome \<Rightarrow> 'a vdisk_state_scheme
    \<Rightarrow> (rw_outcome \<times> 'a vdisk_state_scheme) option" where
  "driver_rw_resume p b write w s = do {
     s \<leftarrow> sleep_resume p VdiskLock s;
     case w of RwWaitDisk i0 \<Rightarrow> rw_wait b i0 s | _ \<Rightarrow> rw_turn b write s }"

section \<open>Completion\<close>

partial_function (option) intr_loop :: "'a vdisk_state_scheme \<Rightarrow> 'a vdisk_state_scheme option" where
  "intr_loop s =
     (if used_idx s \<noteq> used_new s
      then do {
        let i = unat (used_ring s (unat (used_idx s) mod NUM));
        check (i < NUM);
        if in_status (dinfo s i) \<noteq> 0 then panic ''virtio_disk_intr status''
        else case in_b (dinfo s i) of
               None \<Rightarrow> None
             | Some b \<Rightarrow> do {
                 let s = upd_buf b (\<lambda>x. x\<lparr>b_disk := False\<rparr>) s;
                 s \<leftarrow> wakeup (ChanBuf b) s;
                 intr_loop (s\<lparr>used_idx := used_idx s + 1\<rparr>) } }
      else Some s)"

definition virtio_disk_intr :: "device_regs \<Rightarrow> 'a vdisk_state_scheme \<Rightarrow> 'a vdisk_state_scheme option" where
  "virtio_disk_intr dev s = do {
     s \<leftarrow> acq VdiskLock s;
     let s = wreg VIRTIO_MMIO_INTERRUPT_ACK (rreg dev VIRTIO_MMIO_INTERRUPT_STATUS s AND 3) s;
     s \<leftarrow> intr_loop s;
     rel VdiskLock s
   }"

section \<open>What the operations do\<close>

lemma make_ready_vdisk [simp]:
  "desc (make_ready p s) = desc s" "avail_idx (make_ready p s) = avail_idx s" "avail_ring (make_ready p s) = avail_ring s"
  "used_new (make_ready p s) = used_new s" "used_ring (make_ready p s) = used_ring s" "dfree (make_ready p s) = dfree s"
  "used_idx (make_ready p s) = used_idx s" "dinfo (make_ready p s) = dinfo s" "dops (make_ready p s) = dops s"
  by (simp_all add: make_ready_def upd_proc_def upd_queue_def)

lemma fold_make_ready_vdisk [simp]:
  "desc (fold make_ready ps s) = desc s" "avail_idx (fold make_ready ps s) = avail_idx s"
  "avail_ring (fold make_ready ps s) = avail_ring s" "used_new (fold make_ready ps s) = used_new s"
  "used_ring (fold make_ready ps s) = used_ring s" "dfree (fold make_ready ps s) = dfree s"
  "used_idx (fold make_ready ps s) = used_idx s" "dinfo (fold make_ready ps s) = dinfo s"
  "dops (fold make_ready ps s) = dops s"
  by (induction ps arbitrary: s) simp_all

text \<open>\<open>driving s\<close>: the driver may wake processes up.  \<open>same_rings\<close>: nothing of the driver's state but the descriptors
  and their free marks differs.\<close>

definition driving :: "'a sched_state_scheme \<Rightarrow> bool" where
  "driving s \<longleftrightarrow> sched_ok s \<and> (\<forall>p < NPROC. ProcLock p \<notin> held s) \<and> queues_free s"

definition same_rings :: "'a vdisk_state_scheme \<Rightarrow> 'b vdisk_state_scheme \<Rightarrow> bool" where
  "same_rings s t \<longleftrightarrow> held t = held s \<and> bufs t = bufs s \<and> disk t = disk s
   \<and> avail_idx t = avail_idx s \<and> avail_ring t = avail_ring s \<and> used_new t = used_new s \<and> used_ring t = used_ring s
   \<and> used_idx t = used_idx s \<and> dinfo t = dinfo s \<and> dops t = dops s"

lemma same_rings_trans: "same_rings s t \<Longrightarrow> same_rings t u \<Longrightarrow> same_rings s u"
  by (simp add: same_rings_def)

lemma driving_cong:
  "pqueue t = pqueue s \<Longrightarrow> procs t = procs s \<Longrightarrow> held t = held s \<Longrightarrow> driving t = driving s"
  by (simp add: driving_def sched_ok_def queues_free_def)

lemma wakeup_driving:
  assumes "driving s"
  obtains t where "wakeup c s = Some t" and "driving t" and "same_rings s t" and "desc t = desc s" and "dfree t = dfree s"
proof -
  let ?t = "fold make_ready (filter (wakes c s) [0..<NPROC]) s"
  have w: "wakeup c s = Some ?t" using assms by (intro wakeup_eq) (simp_all add: driving_def)
  have "sched_ok ?t" using assms by (intro fold_make_ready_ok) (auto simp: driving_def)
  then have "driving ?t" using assms by (simp add: driving_def queues_free_def)
  then show thesis by (rule that [OF w]) (simp_all add: same_rings_def)
qed

definition no_desc :: virtq_desc where
  "no_desc = \<lparr>d_addr = Null, d_len = 0, d_flags = 0, d_next = 0\<rparr>"

lemma free_desc_ok:
  assumes "driving s" and "i < NUM" and "\<not> dfree s i"
  obtains t where "free_desc (int i) s = Some t" and "driving t" and "same_rings s t"
    and "desc t = (desc s)(i := no_desc)" and "dfree t = (dfree s)(i := True)"
proof -
  let ?s = "s\<lparr>desc := (desc s)(i := no_desc), dfree := (dfree s)(i := True)\<rparr>"
  have "driving ?s" using assms(1) by (subst driving_cong [of _ s]) simp_all
  then obtain t where t: "wakeup ChanDiskFree ?s = Some t" "driving t" "same_rings ?s t" "desc t = desc ?s" "dfree t = dfree ?s"
    by (rule wakeup_driving)
  have "upd_desc (int i) (\<lambda>d. d\<lparr>d_addr := Null, d_len := 0, d_flags := 0, d_next := 0\<rparr>) s = s\<lparr>desc := (desc s)(i := no_desc)\<rparr>"
    by (cases "desc s i") (simp add: upd_desc_def no_desc_def)
  then have "free_desc (int i) s = Some t"
    using assms(2,3) t(1) by (simp add: free_desc_def Let_def)
  then show thesis using t by (intro that) (simp_all add: same_rings_def)
qed

text \<open>A chain of three descriptors goes back to the free ones.\<close>

definition chain3 :: "(nat \<Rightarrow> virtq_desc) \<Rightarrow> nat \<Rightarrow> nat \<Rightarrow> nat \<Rightarrow> bool" where
  "chain3 D i j k \<longleftrightarrow> i < NUM \<and> j < NUM \<and> k < NUM \<and> i \<noteq> j \<and> i \<noteq> k \<and> j \<noteq> k
   \<and> d_flags (D i) AND VRING_DESC_F_NEXT \<noteq> 0 \<and> unat (d_next (D i)) = j
   \<and> d_flags (D j) AND VRING_DESC_F_NEXT \<noteq> 0 \<and> unat (d_next (D j)) = k
   \<and> d_flags (D k) AND VRING_DESC_F_NEXT = 0"

lemma free_chain_ok:
  assumes "driving s" and c: "chain3 (desc s) i j k" and f: "\<not> dfree s i" "\<not> dfree s j" "\<not> dfree s k"
  obtains t where "free_chain (int i) s = Some t" and "driving t" and "same_rings s t"
    and "dfree t = (dfree s)(i := True, j := True, k := True)"
proof -
  have n: "i < NUM" "j < NUM" "k < NUM" "i \<noteq> j" "i \<noteq> k" "j \<noteq> k"
    and nx: "uint (d_next (desc s i)) = int j" "uint (d_next (desc s j)) = int k"
    using c by (auto simp: chain3_def)
  obtain s1 where 1: "free_desc (int i) s = Some s1" "driving s1" "same_rings s s1"
      "desc s1 = (desc s)(i := no_desc)" "dfree s1 = (dfree s)(i := True)"
    using free_desc_ok [OF assms(1) n(1) f(1)] .
  obtain s2 where 2: "free_desc (int j) s1 = Some s2" "driving s2" "same_rings s1 s2"
      "desc s2 = (desc s1)(j := no_desc)" "dfree s2 = (dfree s1)(j := True)"
    using free_desc_ok [OF 1(2) n(2)] f(2) n(4) 1(5) by auto
  obtain s3 where 3: "free_desc (int k) s2 = Some s3" "driving s3" "same_rings s2 s3"
      "desc s3 = (desc s2)(k := no_desc)" "dfree s3 = (dfree s2)(k := True)"
    using free_desc_ok [OF 2(2) n(3)] f(3) n(5,6) 1(5) 2(5) by auto
  have fl: "d_flags (desc s i) AND VRING_DESC_F_NEXT \<noteq> 0" "d_flags (desc s1 j) AND VRING_DESC_F_NEXT \<noteq> 0"
      "d_flags (desc s2 k) AND VRING_DESC_F_NEXT = 0" "d_next (desc s1 j) = d_next (desc s j)"
    using c n 1(4) 2(4) by (auto simp: chain3_def)
  have e3: "free_chain (int k) s2 = Some s3" using n 3(1) fl by (subst free_chain.simps) (simp add: Let_def)
  have e2: "free_chain (int j) s1 = Some s3" using n 2(1) fl nx e3 by (subst free_chain.simps) (simp add: Let_def)
  have "free_chain (int i) s = Some s3" using n 1(1) fl nx e2 by (subst free_chain.simps) (simp add: Let_def)
  then show thesis
    using 1 2 3 by (intro that) (auto intro: same_rings_trans)
qed

lemma alloc_desc_ok:
  assumes "{i. i < NUM \<and> dfree s i} \<noteq> {}"
  obtains i where "alloc_desc s = (int i, s\<lparr>dfree := (dfree s)(i := False)\<rparr>)" and "i < NUM" and "dfree s i"
proof -
  obtain j where j: "j < NUM" "dfree s j" using assms by blast
  then have "find (dfree s) [0..<NUM] \<noteq> None" by (auto simp: find_None_iff)
  then obtain i where i: "find (dfree s) [0..<NUM] = Some i" by auto
  then have "i \<in> set [0..<NUM]" "dfree s i" using find_in [of "dfree s"] by blast+
  then show thesis using i by (intro that [of i]) (simp_all add: alloc_desc_def)
qed

lemma alloc3_ok:
  assumes "3 \<le> card {i. i < NUM \<and> dfree s i}"
  obtains i j k where "alloc3_desc s = Some (0, [int i, int j, int k], s\<lparr>dfree := (dfree s)(i := False, j := False, k := False)\<rparr>)"
    and "i < NUM" "j < NUM" "k < NUM" and "i \<noteq> j" "i \<noteq> k" "j \<noteq> k" and "dfree s i" "dfree s j" "dfree s k"
proof -
  let ?F = "{i. i < NUM \<and> dfree s i}"
  have "?F \<noteq> {}" using assms by (metis card.empty not_numeral_le_zero)
  then obtain i where i: "alloc_desc s = (int i, s\<lparr>dfree := (dfree s)(i := False)\<rparr>)" "i < NUM" "dfree s i" by (rule alloc_desc_ok)
  let ?s1 = "s\<lparr>dfree := (dfree s)(i := False)\<rparr>"
  have F1: "{x. x < NUM \<and> dfree ?s1 x} = ?F - {i}" by auto
  have c1: "card (?F - {i}) \<ge> 2" using assms i by simp
  then have "{x. x < NUM \<and> dfree ?s1 x} \<noteq> {}" unfolding F1 by (metis card.empty not_numeral_le_zero)
  then obtain j where j: "alloc_desc ?s1 = (int j, ?s1\<lparr>dfree := (dfree ?s1)(j := False)\<rparr>)" "j < NUM" "dfree ?s1 j" by (rule alloc_desc_ok)
  let ?s2 = "?s1\<lparr>dfree := (dfree ?s1)(j := False)\<rparr>"
  have F2: "{x. x < NUM \<and> dfree ?s2 x} = ?F - {i} - {j}" by auto
  have "j \<in> ?F - {i}" using j by (auto split: if_splits)
  then have "card (?F - {i} - {j}) \<ge> 1" using c1 by (simp add: card_Diff_singleton)
  then have "{x. x < NUM \<and> dfree ?s2 x} \<noteq> {}" unfolding F2 by (metis card.empty not_one_le_zero)
  then obtain k where k: "alloc_desc ?s2 = (int k, ?s2\<lparr>dfree := (dfree ?s2)(k := False)\<rparr>)" "k < NUM" "dfree ?s2 k" by (rule alloc_desc_ok)
  have ne: "i \<noteq> j" "i \<noteq> k" "j \<noteq> k" "dfree s j" "dfree s k" using j(3) k(3) by (auto split: if_splits)
  have "alloc3_desc s = Some (0, [int i, int j, int k], s\<lparr>dfree := (dfree s)(i := False, j := False, k := False)\<rparr>)"
    using i(1) j(1) k(1) by (simp add: alloc3_desc_def numeral_3_eq_3)
  then show thesis using i(2,3) j(2) k(2) ne that by blast
qed
section \<open>A request from the driver to the device and back\<close>

text \<open>What the device finds at the head \<open>h\<close> of a chain: the direction, the sector, the buffer and the status byte.
  The device reads the request header and writes the status, and reads or writes the data as the
  flags say.\<close>

definition request_at :: "'a vdisk_state_scheme \<Rightarrow> nat \<Rightarrow> (bool \<times> uint64 \<times> nat \<times> nat) option" where
  "request_at s h =
     (let d0 = desc s h; d1 = desc s (unat (d_next d0)); d2 = desc s (unat (d_next d1)) in
      if d_flags d0 = VRING_DESC_F_NEXT \<and> d_len d0 = 16 \<and> d_flags d1 AND VRING_DESC_F_NEXT \<noteq> 0 \<and> d_len d1 = of_nat BSIZE
         \<and> d_flags d2 = VRING_DESC_F_WRITE \<and> d_len d2 = 1
      then (case (d_addr d0, d_addr d1, d_addr d2) of
              (OpsEntry q, BufData b, InfoStatus i) \<Rightarrow>
                if rq_type (dops s q) = VIRTIO_BLK_T_OUT \<and> d_flags d1 AND VRING_DESC_F_WRITE = 0
                then Some (True, rq_sector (dops s q), b, i)
                else if rq_type (dops s q) = VIRTIO_BLK_T_IN \<and> d_flags d1 AND VRING_DESC_F_WRITE \<noteq> 0
                then Some (False, rq_sector (dops s q), b, i)
                else None
            | _ \<Rightarrow> None)
      else None)"

text \<open>Two states in which the driver, the buffers and the disk are the same.\<close>

definition same_driver :: "'a vdisk_state_scheme \<Rightarrow> 'a vdisk_state_scheme \<Rightarrow> bool" where
  "same_driver s t \<longleftrightarrow> bufs t = bufs s \<and> disk t = disk s \<and> desc t = desc s \<and> dfree t = dfree s
   \<and> avail_idx t = avail_idx s \<and> avail_ring t = avail_ring s \<and> used_new t = used_new s \<and> used_ring t = used_ring s
   \<and> used_idx t = used_idx s \<and> dinfo t = dinfo s \<and> dops t = dops s"

text \<open>The device as the virtio specification describes it: it takes the next chain of the available ring,
  transfers the block, stores a status and puts the head of the chain into the used ring.  With a status
  other than 0 nothing is promised about the data.\<close>

definition device_step :: "uint8 \<Rightarrow> 'a vdisk_state_scheme \<Rightarrow> 'a vdisk_state_scheme \<Rightarrow> bool" where
  "device_step st s t \<longleftrightarrow> used_new s \<noteq> avail_idx s \<and>
     (let h = unat (avail_ring s (unat (used_new s) mod NUM)) in
      case request_at s h of
        None \<Rightarrow> False
      | Some (write, sector, b, i) \<Rightarrow>
          (let k = ucast (sector div 2); x = bufs s b in
           \<exists>D v. (if write then v = b_data x \<and> (st = 0 \<longrightarrow> D = (disk s)(k := b_data x))
                  else D = disk s \<and> (st = 0 \<longrightarrow> v = disk s k))
             \<and> t = (upd_info (int i) (\<lambda>y. y\<lparr>in_status := st\<rparr>) (upd_buf b (\<lambda>y. y\<lparr>b_data := v\<rparr>) (s\<lparr>disk := D\<rparr>)))
                     \<lparr>used_ring := (used_ring s)(unat (used_new s) mod NUM := of_nat h), used_new := used_new s + 1\<rparr>))"

lemma request_posted:
  fixes s :: "'a vdisk_state_scheme" and w :: bool
  assumes "i < NUM" "j < NUM" "k < NUM" and "i \<noteq> j" "i \<noteq> k" "j \<noteq> k" and blk: "unat (b_blockno (bufs s b)) < 2 ^ 31"
  defines "t \<equiv> post_request b (int i) (format_request b w (int i) (int j) (int k) s)"
  shows "request_at t i = Some (w, ucast (b_blockno (bufs s b) * 2), b, i)"
    and "chain3 (desc t) i j k" and "unat (avail_ring t (unat (avail_idx s) mod NUM)) = i"
proof -
  have u: "unat (of_int (int x) :: uint16) = x" if "x < NUM" for x
    using that by (simp add: NUM_def unat_of_nat take_bit_eq_mod)
  have D: "desc t = (desc s)(i := \<lparr>d_addr = OpsEntry i, d_len = 16, d_flags = VRING_DESC_F_NEXT, d_next = of_int (int j)\<rparr>,
      j := \<lparr>d_addr = BufData b, d_len = of_nat BSIZE, d_flags = (if w then 0 else VRING_DESC_F_WRITE) OR VRING_DESC_F_NEXT,
           d_next = of_int (int k)\<rparr>,
      k := \<lparr>d_addr = InfoStatus i, d_len = 1, d_flags = VRING_DESC_F_WRITE, d_next = 0\<rparr>)"
    unfolding t_def by (simp add: post_request_def format_request_def Let_def upd_desc_def upd_info_def wreg_def upd_buf_def)
  have O: "dops t i = \<lparr>rq_type = (if w then VIRTIO_BLK_T_OUT else VIRTIO_BLK_T_IN), rq_reserved = 0,
      rq_sector = ucast (b_blockno (bufs s b) * 2)\<rparr>"
    unfolding t_def by (simp add: post_request_def format_request_def Let_def upd_desc_def upd_info_def wreg_def upd_buf_def BSIZE_def)
  have A: "avail_ring t (unat (avail_idx s) mod NUM) = of_int (int i)"
    unfolding t_def by (simp add: post_request_def format_request_def Let_def upd_desc_def upd_info_def wreg_def upd_buf_def)
  note flags = VRING_DESC_F_NEXT_def VRING_DESC_F_WRITE_def VIRTIO_BLK_T_IN_def VIRTIO_BLK_T_OUT_def
  show "chain3 (desc t) i j k" using assms u unfolding chain3_def D by (simp add: flags)
  show "unat (avail_ring t (unat (avail_idx s) mod NUM)) = i" using A u assms(1) by simp
  show "request_at t i = Some (w, ucast (b_blockno (bufs s b) * 2), b, i)"
    unfolding request_at_def D Let_def using assms u O by (simp add: flags)
qed

lemma sector_block:
  assumes "unat (k :: uint_t) < 2 ^ 31"
  shows "ucast ((ucast (k * 2) :: uint64) div 2) = k"
proof -
  have 1: "unat (k * 2) = unat k * 2" using assms by (simp add: unat_word_ariths)
  have 2: "unat (ucast (k * 2) :: uint64) = unat (k * 2)"
    using unsigned_less [of "k * 2", where 'a = nat] by (simp add: unsigned_ucast_eq take_bit_nat_eq_self_iff)
  have 3: "unat ((ucast (k * 2) :: uint64) div 2) = unat k" using 1 2 by (simp add: unat_div)
  have "unat (ucast ((ucast (k * 2) :: uint64) div 2) :: uint_t) = unat k"
    using assms by (simp add: unsigned_ucast_eq 3 take_bit_nat_eq_self_iff)
  then show ?thesis by (simp only: word_unat_eq_iff)
qed

text \<open>The state after a request has been served with status \<open>st\<close>.\<close>

definition answered :: "uint8 \<Rightarrow> nat \<Rightarrow> bool \<Rightarrow> nat \<Rightarrow> 'a vdisk_state_scheme \<Rightarrow> 'a vdisk_state_scheme \<Rightarrow> bool" where
  "answered st b w i s t \<longleftrightarrow>
     (st = 0 \<longrightarrow> disk t = disk (virtio_disk_rw b w s)
        \<and> bufs t = (bufs (virtio_disk_rw b w s))(b := (bufs (virtio_disk_rw b w s) b)\<lparr>b_disk := True\<rparr>))
   \<and> avail_idx t = avail_idx s + 1 \<and> used_new t = used_new s + 1 \<and> used_idx t = used_idx s
   \<and> unat (used_ring t (unat (used_new s) mod NUM)) = i \<and> in_status (dinfo t i) = st \<and> in_b (dinfo t i) = Some b"

lemma request_answered:
  fixes s :: "'a vdisk_state_scheme" and w :: bool
  assumes n: "i < NUM" "j < NUM" "k < NUM" "i \<noteq> j" "i \<noteq> k" "j \<noteq> k" and blk: "unat (b_blockno (bufs s b)) < 2 ^ 31"
    and idle: "used_new s = avail_idx s"
    and t: "same_driver (post_request b (int i) (format_request b w (int i) (int j) (int k) s)) t"
    and dev: "device_step st t u"
  shows "answered st b w i s u" and "chain3 (desc u) i j k" and "dfree u = dfree s"
    and "held u = held t" and "procs u = procs t" and "pqueue u = pqueue t" and "cpu_proc u = cpu_proc t" and "tp u = tp t"
proof -
  let ?p = "post_request b (int i) (format_request b w (int i) (int j) (int k) s)"
  note r = request_posted [OF n blk, of w]
  note defs = post_request_def format_request_def Let_def upd_desc_def upd_info_def wreg_def upd_buf_def
  have same: "desc t = desc ?p" "dops t = dops ?p" "avail_ring t = avail_ring ?p" using t by (simp_all add: same_driver_def)
  have q: "request_at t i = Some (w, ucast (b_blockno (bufs s b) * 2), b, i)"
    using r(1) unfolding request_at_def same .
  have f: "used_new t = avail_idx s" "avail_idx t = avail_idx s + 1" "used_idx t = used_idx s" "disk t = disk s"
      "bufs t = (bufs s)(b := (bufs s b)\<lparr>b_disk := True\<rparr>)" "dfree t = dfree s" "in_b (dinfo t i) = Some b"
    using t idle by (simp_all add: same_driver_def defs)
  have h: "unat (avail_ring t (unat (used_new t) mod NUM)) = i" using r(3) f(1) same by simp
  have kk: "ucast ((ucast (b_blockno (bufs s b) * 2) :: uint64) div 2) = b_blockno (bufs s b)" by (rule sector_block [OF blk])
  obtain D v where e: "if w then v = b_data (bufs t b) \<and> (st = 0 \<longrightarrow> D = (disk t)(b_blockno (bufs s b) := b_data (bufs t b)))
        else D = disk t \<and> (st = 0 \<longrightarrow> v = disk t (b_blockno (bufs s b)))"
      "u = (upd_info (int i) (\<lambda>y. y\<lparr>in_status := st\<rparr>) (upd_buf b (\<lambda>y. y\<lparr>b_data := v\<rparr>) (t\<lparr>disk := D\<rparr>)))
         \<lparr>used_ring := (used_ring t)(unat (used_new t) mod NUM := of_nat i), used_new := used_new t + 1\<rparr>"
    using dev unfolding device_step_def Let_def h q option.case prod.case kk by blast
  have ui: "unat (of_nat i :: uint32) = i" using n(1) by (simp add: NUM_def unat_of_nat take_bit_eq_mod)
  show "answered st b w i s u"
    unfolding e(2) answered_def using f ui idle e(1)
    by (cases w; cases "bufs s b") (auto simp: upd_info_def upd_buf_def virtio_disk_rw_def Let_def)
  show "chain3 (desc u) i j k" unfolding e(2) using r(2) same by (simp add: upd_info_def upd_buf_def)
  show "dfree u = dfree s" unfolding e(2) using f by (simp add: upd_info_def upd_buf_def)
  show "held u = held t" "procs u = procs t" "pqueue u = pqueue t" "cpu_proc u = cpu_proc t" "tp u = tp t"
    unfolding e(2) by (simp_all add: upd_info_def upd_buf_def)
qed

text \<open>The interrupt that announces the answer.\<close>

lemma intr_answered:
  fixes u :: "'a vdisk_state_scheme"
  assumes h: "held u = {}" "sched_ok u" and i: "i < NUM" and idle: "used_idx s = avail_idx s" "used_new s = avail_idx s"
    and a: "answered st b w i s u"
  shows "st \<noteq> 0 \<Longrightarrow> virtio_disk_intr regs u = None"
    and "st = 0 \<Longrightarrow> \<exists>v. virtio_disk_intr regs u = Some v \<and> held v = {} \<and> sched_ok v \<and> desc v = desc u \<and> dfree v = dfree u
       \<and> disk v = disk u \<and> bufs v = (bufs u)(b := (bufs u b)\<lparr>b_disk := False\<rparr>)
       \<and> avail_idx v = avail_idx u \<and> used_new v = used_new u \<and> used_idx v = used_new u
       \<and> (\<forall>q < NPROC. wakes (ChanBuf b) u q \<longrightarrow> p_state (procs v q) = RUNNABLE)"
proof -
  define x where "x = wreg VIRTIO_MMIO_INTERRUPT_ACK (rreg regs VIRTIO_MMIO_INTERRUPT_STATUS (u\<lparr>held := {VdiskLock}\<rparr>) AND 3)
      (u\<lparr>held := {VdiskLock}\<rparr>)"
  have x: "held x = {VdiskLock}" "procs x = procs u" "pqueue x = pqueue u" "myproc x = myproc u" "desc x = desc u" "dfree x = dfree u"
      "bufs x = bufs u" "disk x = disk u" "dinfo x = dinfo u" "avail_idx x = avail_idx u" "used_new x = used_new u"
      "used_idx x = used_idx u" "used_ring x = used_ring u"
    by (simp_all add: x_def wreg_def myproc_def)
  have intr: "virtio_disk_intr regs u = Option.bind (intr_loop x) (rel VdiskLock)"
    using h(1) by (simp add: virtio_disk_intr_def acq_def x_def)
  have ne: "used_idx x \<noteq> used_new x" "unat (used_ring x (unat (used_idx x) mod NUM)) = i" "in_status (dinfo x i) = st"
      "in_b (dinfo x i) = Some b" "used_idx x + 1 = used_new x"
    using a idle x by (auto simp: answered_def)
  show "virtio_disk_intr regs u = None" if "st \<noteq> 0"
    unfolding intr using ne i that by (subst intr_loop.simps) (simp add: Let_def)
  let ?y = "upd_buf b (\<lambda>z. z\<lparr>b_disk := False\<rparr>) x"
  let ?W = "filter (wakes (ChanBuf b) ?y) [0..<NPROC]"
  let ?z = "(fold make_ready ?W ?y)\<lparr>used_idx := used_new u\<rparr>"
  have ok: "sched_ok ?y" using h(2) x by (simp add: sched_ok_def)
  have w: "wakeup (ChanBuf b) ?y = Some (fold make_ready ?W ?y)"
    by (rule wakeup_eq [OF ok]) (simp_all add: queues_free_def x)
  have y: "used_idx ?y = used_idx x" "used_new ?y = used_new x" "dfree ?y = dfree x" "desc ?y = desc x" "avail_idx ?y = avail_idx x"
      "disk ?y = disk x" "myproc ?y = myproc x" by (simp_all add: upd_buf_def myproc_def)
  have stop: "intr_loop ?z = Some ?z" by (subst intr_loop.simps) (simp add: y x)
  have loop: "intr_loop x = Some ?z" if "st = 0"
    using ne i that w stop by (subst intr_loop.simps) (simp add: Let_def y x)
  have wk: "wakes (ChanBuf b) ?y q = wakes (ChanBuf b) u q" for q using x y(7) by (simp add: wakes_def)
  have "sched_ok (fold make_ready ?W ?y)" using ok by (rule fold_make_ready_ok) simp
  then have "virtio_disk_intr regs u = Some (?z\<lparr>held := {}\<rparr>) \<and> sched_ok (?z\<lparr>held := {}\<rparr>)" if "st = 0"
    unfolding intr loop [OF that] by (simp add: rel_def x sched_ok_def)
  then show "\<exists>v. virtio_disk_intr regs u = Some v \<and> held v = {} \<and> sched_ok v \<and> desc v = desc u \<and> dfree v = dfree u
       \<and> disk v = disk u \<and> bufs v = (bufs u)(b := (bufs u b)\<lparr>b_disk := False\<rparr>)
       \<and> avail_idx v = avail_idx u \<and> used_new v = used_new u \<and> used_idx v = used_new u
       \<and> (\<forall>q < NPROC. wakes (ChanBuf b) u q \<longrightarrow> p_state (procs v q) = RUNNABLE)" if "st = 0"
    using that by (intro exI [of _ "?z\<lparr>held := {}\<rparr>"]) (simp add: y x wk fold_make_ready_procs)
qed

text \<open>The process, dispatched again, ends its request.\<close>

lemma resume_finishes:
  fixes x :: "'a vdisk_state_scheme"
  assumes h: "held x = {ProcLock p}" "sched_ok x" and c: "chain3 (desc x) i j k"
    and f: "\<not> dfree x i" "\<not> dfree x j" "\<not> dfree x k" and d: "\<not> b_disk (bufs x b)"
  obtains y where "driver_rw_resume p b w (RwWaitDisk (int i)) x = Some (RwDone, y)" and "held y = {}"
    and "disk y = disk x" and "bufs y = bufs x" and "dfree y = (dfree x)(i := True, j := True, k := True)"
    and "avail_idx y = avail_idx x" and "used_new y = used_new x" and "used_idx y = used_idx x"
proof -
  let ?a = "(upd_proc p (\<lambda>z. z\<lparr>p_chan := None\<rparr>) x)\<lparr>held := {VdiskLock}\<rparr>"
  have a: "sleep_resume p VdiskLock x = Some ?a" using h(1) by (simp add: sleep_resume_def acq_def rel_def Let_def)
  let ?v = "upd_info (int i) (\<lambda>z. z\<lparr>in_b := None\<rparr>) ?a"
  have dv: "driving ?v" using h(2) by (simp add: driving_def sched_ok_def queues_free_def upd_info_def)
  have u: "desc ?v = desc x" "dfree ?v = dfree x" "bufs ?v = bufs x" "disk ?v = disk x" "avail_idx ?v = avail_idx x"
      "used_new ?v = used_new x" "used_idx ?v = used_idx x" "held ?v = {VdiskLock}"
    by (simp_all add: upd_info_def upd_proc_def)
  obtain z where z: "free_chain (int i) ?v = Some z" "same_rings ?v z" "dfree z = (dfree ?v)(i := True, j := True, k := True)"
    using free_chain_ok [OF dv, of i j k] c f unfolding u by blast
  have hz: "held z = {VdiskLock}" using z(2) u by (simp add: same_rings_def)
  have "bufs ?a = bufs x" by (simp add: upd_proc_def)
  then have "rw_wait b (int i) ?a = Some (RwDone, z\<lparr>held := {}\<rparr>)"
    using d z(1) hz by (simp add: rw_wait_def finish_request_def rel_def)
  then have "driver_rw_resume p b w (RwWaitDisk (int i)) x = Some (RwDone, z\<lparr>held := {}\<rparr>)"
    using a by (simp add: driver_rw_resume_def)
  then show thesis by (rule that) (use z(2,3) u in \<open>simp_all add: same_rings_def\<close>)
qed

text \<open>\<open>dispatched p v x\<close>: after \<open>v\<close>, the scheduler has handed the CPU back to process \<open>p\<close>, and nobody has used the disk.\<close>

definition dispatched :: "nat \<Rightarrow> 'a vdisk_state_scheme \<Rightarrow> 'a vdisk_state_scheme \<Rightarrow> bool" where
  "dispatched p v x \<longleftrightarrow> same_driver v x \<and> held x = {ProcLock p} \<and> sched_ok x"

definition transferred :: "nat \<Rightarrow> bool \<Rightarrow> 'a vdisk_state_scheme \<Rightarrow> 'a vdisk_state_scheme \<Rightarrow> bool" where
  "transferred b w s t \<longleftrightarrow> disk t = disk (virtio_disk_rw b w s)
   \<and> bufs t = (bufs (virtio_disk_rw b w s))(b := (bufs (virtio_disk_rw b w s) b)\<lparr>b_disk := False\<rparr>)
   \<and> dfree t = dfree s \<and> held t = {}
   \<and> avail_idx t = avail_idx s + 1 \<and> used_new t = avail_idx t \<and> used_idx t = avail_idx t"

text \<open>\<open>posted p b w s i j k t\<close>: process \<open>p\<close> has posted a request in \<open>s\<close> with the descriptors \<open>i\<close>, \<open>j\<close>, \<open>k\<close> and sleeps until
  it is answered.\<close>

definition posted :: "nat \<Rightarrow> nat \<Rightarrow> bool \<Rightarrow> 'a vdisk_state_scheme \<Rightarrow> nat \<Rightarrow> nat \<Rightarrow> nat \<Rightarrow> 'a vdisk_state_scheme \<Rightarrow> bool" where
  "posted p b w s i j k t \<longleftrightarrow> i < NUM \<and> j < NUM \<and> k < NUM \<and> i \<noteq> j \<and> i \<noteq> k \<and> j \<noteq> k \<and> dfree s i \<and> dfree s j \<and> dfree s k
   \<and> same_driver (post_request b (int i) (format_request b w (int i) (int j) (int k)
        (s\<lparr>dfree := (dfree s)(i := False, j := False, k := False)\<rparr>))) t
   \<and> held t = {} \<and> procs t = (procs s)(p := (procs s p)\<lparr>p_chan := Some (ChanBuf b), p_state := SLEEPING\<rparr>)
   \<and> pqueue t = pqueue s \<and> cpu_proc t = (cpu_proc s)(tp s := None)"

lemma driver_rw_posts:
  fixes s :: "'a vdisk_state_scheme"
  assumes h: "held s = {}" "myproc s = Some p" "p < NPROC" and free: "3 \<le> card {i. i < NUM \<and> dfree s i}"
  obtains i j k t where "driver_rw b w s = Some (RwWaitDisk (int i), t)" and "posted p b w s i j k t"
proof -
  let ?s = "s\<lparr>held := {VdiskLock}\<rparr>"
  have "3 \<le> card {i. i < NUM \<and> dfree ?s i}" using free by simp
  then obtain i j k where a: "alloc3_desc ?s = Some (0, [int i, int j, int k], ?s\<lparr>dfree := (dfree ?s)(i := False, j := False, k := False)\<rparr>)"
      and n: "i < NUM" "j < NUM" "k < NUM" "i \<noteq> j" "i \<noteq> k" "j \<noteq> k" and fr: "dfree ?s i" "dfree ?s j" "dfree ?s k"
    by (rule alloc3_ok)
  let ?post = "\<lambda>s :: 'a vdisk_state_scheme. post_request b (int i) (format_request b w (int i) (int j) (int k) s)"
  let ?q = "?post (?s\<lparr>dfree := (dfree ?s)(i := False, j := False, k := False)\<rparr>)"
  note defs = post_request_def format_request_def Let_def upd_desc_def upd_info_def wreg_def upd_buf_def
  let ?g = "\<lambda>x. x\<lparr>p_chan := Some (ChanBuf b), p_state := SLEEPING\<rparr>"
  let ?t = "(upd_proc p ?g ?q)\<lparr>cpu_proc := (cpu_proc ?q)(tp ?q := None), held := {}\<rparr>"
  have q: "held ?q = {VdiskLock}" "myproc ?q = Some p" "b_disk (bufs ?q b)" "procs ?q = procs s" "pqueue ?q = pqueue s"
      "cpu_proc ?q = cpu_proc s" "tp ?q = tp s"
    using h(2) by (simp_all add: defs myproc_def)
  have "sleep (ChanBuf b) VdiskLock ?q = Some ?t" by (rule sleep_eq) (use q in simp_all)
  then have "driver_rw b w s = Some (RwWaitDisk (int i), ?t)"
    using h(1) a q(3) by (simp add: driver_rw_def acq_def rw_turn_def rw_wait_def)
  moreover have sd: "same_driver (?post (s\<lparr>dfree := (dfree s)(i := False, j := False, k := False)\<rparr>)) ?t"
    by (simp add: same_driver_def defs upd_proc_def)
  have "posted p b w s i j k ?t"
    unfolding posted_def by (intro conjI; (rule sd)?) (use n fr q in simp_all)
  ultimately show thesis by (intro that)
qed

lemma request_accepted:
  fixes s :: "'a vdisk_state_scheme" and w :: bool
  assumes n: "i < NUM" "j < NUM" "k < NUM" "i \<noteq> j" "i \<noteq> k" "j \<noteq> k" and blk: "unat (b_blockno (bufs s b)) < 2 ^ 31"
    and idle: "used_new s = avail_idx s"
    and t: "same_driver (post_request b (int i) (format_request b w (int i) (int j) (int k) s)) t"
  shows "\<exists>u. device_step st t u"
proof -
  let ?p = "post_request b (int i) (format_request b w (int i) (int j) (int k) s)"
  note r = request_posted [OF n blk, of w]
  have same: "desc t = desc ?p" "dops t = dops ?p" "avail_ring t = avail_ring ?p" using t by (simp_all add: same_driver_def)
  have q: "request_at t i = Some (w, ucast (b_blockno (bufs s b) * 2), b, i)"
    using r(1) unfolding request_at_def same .
  have f: "used_new t = avail_idx s" "avail_idx t = avail_idx s + 1"
    using t idle by (simp_all add: same_driver_def post_request_def format_request_def Let_def upd_desc_def upd_info_def wreg_def upd_buf_def)
  have h: "unat (avail_ring t (unat (used_new t) mod NUM)) = i" using r(3) f(1) same by simp
  show ?thesis unfolding device_step_def Let_def h q option.case prod.case using f by (cases w) auto
qed

definition idle_queue :: "'a vdisk_state_scheme \<Rightarrow> bool" where
  "idle_queue s \<longleftrightarrow> used_new s = avail_idx s \<and> used_idx s = avail_idx s"

lemma answer_resumes:
  fixes s :: "'a vdisk_state_scheme"
  assumes p: "posted p b w s i j k t" and s: "idle_queue s" "sched_ok s" "p < NPROC" "\<forall>c. cpu_proc s c = Some p \<longrightarrow> c = tp s"
    and blk: "unat (b_blockno (bufs s b)) < 2 ^ 31" and dev: "device_step 0 t u"
  shows "runs (virtio_disk_intr regs (u\<lparr>tp := c\<rparr>)) (\<lambda>v. p_state (procs v p) = RUNNABLE \<and> held v = {} \<and> sched_ok v
     \<and> (\<forall>x. dispatched p v x \<longrightarrow> runs (driver_rw_resume p b w (RwWaitDisk (int i)) x) (\<lambda>(r', y). r' = RwDone \<and> transferred b w s y)))"
proof -
  let ?s = "s\<lparr>dfree := (dfree s)(i := False, j := False, k := False)\<rparr>"
  have n: "i < NUM" "j < NUM" "k < NUM" "i \<noteq> j" "i \<noteq> k" "j \<noteq> k" and fr: "dfree s i" "dfree s j" "dfree s k"
    and sd: "same_driver (post_request b (int i) (format_request b w (int i) (int j) (int k) ?s)) t"
    using p by (simp_all add: posted_def)
  have b: "unat (b_blockno (bufs ?s b)) < 2 ^ 31" "used_new ?s = avail_idx ?s" "used_idx ?s = avail_idx ?s"
    using blk s(1) by (simp_all add: idle_queue_def)
  note an = request_answered [OF n b(1,2) sd dev]
  have a: "answered 0 b w i ?s (u\<lparr>tp := c\<rparr>)" using an(1) by (simp add: answered_def)
  have h: "held (u\<lparr>tp := c\<rparr>) = {}" "sched_ok (u\<lparr>tp := c\<rparr>)"
    using an(4-6) p s(2) by (auto simp: posted_def sched_ok_def)
  have wk: "wakes (ChanBuf b) (u\<lparr>tp := c\<rparr>) p"
    using an(5,7) p s(4) by (auto simp: posted_def wakes_def myproc_def)
  obtain v where v: "virtio_disk_intr regs (u\<lparr>tp := c\<rparr>) = Some v" "held v = {}" "sched_ok v" "p_state (procs v p) = RUNNABLE"
      "desc v = desc u" "dfree v = dfree u" "disk v = disk u" "bufs v = (bufs u)(b := (bufs u b)\<lparr>b_disk := False\<rparr>)"
      "avail_idx v = avail_idx u" "used_new v = used_new u" "used_idx v = used_new u"
    using intr_answered(2) [OF h n(1) b(3,2) a refl, of regs] wk s(3) by auto
  have "runs (driver_rw_resume p b w (RwWaitDisk (int i)) x) (\<lambda>(r', y). r' = RwDone \<and> transferred b w s y)"
    if d: "dispatched p v x" for x
  proof -
    have x: "held x = {ProcLock p}" "sched_ok x" "desc x = desc v" "dfree x = dfree v" "disk x = disk v" "bufs x = bufs v"
        "avail_idx x = avail_idx v" "used_new x = used_new v" "used_idx x = used_idx v"
      using d by (simp_all add: dispatched_def same_driver_def)
    have "chain3 (desc x) i j k" "\<not> dfree x i" "\<not> dfree x j" "\<not> dfree x k" "\<not> b_disk (bufs x b)"
      using an(2,3) x v by simp_all
    then obtain y where y: "driver_rw_resume p b w (RwWaitDisk (int i)) x = Some (RwDone, y)" "held y = {}"
        "disk y = disk x" "bufs y = bufs x" "dfree y = (dfree x)(i := True, j := True, k := True)"
        "avail_idx y = avail_idx x" "used_new y = used_new x" "used_idx y = used_idx x"
      by (rule resume_finishes [OF x(1,2)])
    have "dfree y = dfree s" using y(5) x(4) v(6) an(3) fr by (auto simp: fun_eq_iff)
    moreover have "disk (virtio_disk_rw b w ?s) = disk (virtio_disk_rw b w s)" "bufs (virtio_disk_rw b w ?s) = bufs (virtio_disk_rw b w s)"
      by (simp_all add: virtio_disk_rw_def upd_buf_def Let_def)
    ultimately show ?thesis using y x v an(1) s(1) by (simp add: transferred_def answered_def idle_queue_def)
  qed
  then show ?thesis using v(1-4) by simp
qed

lemma error_answer_panics:
  fixes s :: "'a vdisk_state_scheme"
  assumes p: "posted p b w s i j k t" and s: "idle_queue s" "sched_ok s" "p < NPROC"
    and blk: "unat (b_blockno (bufs s b)) < 2 ^ 31" and dev: "device_step st t u" "st \<noteq> 0"
  shows "virtio_disk_intr regs (u\<lparr>tp := c\<rparr>) = None"
proof -
  let ?s = "s\<lparr>dfree := (dfree s)(i := False, j := False, k := False)\<rparr>"
  have n: "i < NUM" "j < NUM" "k < NUM" "i \<noteq> j" "i \<noteq> k" "j \<noteq> k"
    and sd: "same_driver (post_request b (int i) (format_request b w (int i) (int j) (int k) ?s)) t"
    using p by (simp_all add: posted_def)
  have b: "unat (b_blockno (bufs ?s b)) < 2 ^ 31" "used_new ?s = avail_idx ?s" "used_idx ?s = avail_idx ?s"
    using blk s(1) by (simp_all add: idle_queue_def)
  note an = request_answered [OF n b(1,2) sd dev(1)]
  have a: "answered st b w i ?s (u\<lparr>tp := c\<rparr>)" using an(1) by (simp add: answered_def)
  have h: "held (u\<lparr>tp := c\<rparr>) = {}" "sched_ok (u\<lparr>tp := c\<rparr>)"
    using an(4-6) p s(2) by (auto simp: posted_def sched_ok_def)
  show ?thesis by (rule intr_answered(1) [OF h n(1) b(3,2) a dev(2)])
qed

text \<open>C22.  The driver implements the disk.  A process calls \<open>virtio_disk_rw\<close> while no other request is outstanding and three
  descriptors are free.  The call puts the process to sleep with a request that the device accepts.
  When the device answers it with status 0, the interrupt handler returns, on whatever CPU it
  runs, and makes the process runnable; and when the process has the CPU again, its call returns: the block has been
  transferred between the buffer and the disk as the buffer cache assumes, the buffer belongs to the kernel again, the
  three descriptors are free again and the ring indices are in step.  When the device reports an error, the
  handler does not return.\<close>

theorem driver_rw_correct:
  fixes s :: "'a vdisk_state_scheme"
  assumes "held s = {}" and "sched_ok s" and "myproc s = Some p" and "p < NPROC" and "\<forall>c. cpu_proc s c = Some p \<longrightarrow> c = tp s"
    and "3 \<le> card {i. i < NUM \<and> dfree s i}" and "idle_queue s" and "unat (b_blockno (bufs s b)) < 2 ^ 31"
  shows "runs (driver_rw b w s) (\<lambda>(r, t). p_state (procs t p) = SLEEPING \<and> held t = {}
     \<and> (\<forall>st. \<exists>u. device_step st t u)
     \<and> (\<forall>st u c. device_step st t u \<longrightarrow>
          (if st = 0
           then runs (virtio_disk_intr regs (u\<lparr>tp := c\<rparr>)) (\<lambda>v. p_state (procs v p) = RUNNABLE \<and> held v = {} \<and> sched_ok v
             \<and> (\<forall>x. dispatched p v x \<longrightarrow> runs (driver_rw_resume p b w r x) (\<lambda>(r', y). r' = RwDone \<and> transferred b w s y)))
           else virtio_disk_intr regs (u\<lparr>tp := c\<rparr>) = None)))"
proof -
  obtain i j k t where e: "driver_rw b w s = Some (RwWaitDisk (int i), t)" and p: "posted p b w s i j k t"
    by (rule driver_rw_posts [OF assms(1,3,4,6)])
  let ?s = "s\<lparr>dfree := (dfree s)(i := False, j := False, k := False)\<rparr>"
  have n: "i < NUM" "j < NUM" "k < NUM" "i \<noteq> j" "i \<noteq> k" "j \<noteq> k"
    and sd: "same_driver (post_request b (int i) (format_request b w (int i) (int j) (int k) ?s)) t"
    using p by (simp_all add: posted_def)
  have b: "unat (b_blockno (bufs ?s b)) < 2 ^ 31" "used_new ?s = avail_idx ?s" using assms(7,8) by (simp_all add: idle_queue_def)
  have "\<exists>u. device_step st t u" for st by (rule request_accepted [OF n b sd])
  moreover have "p_state (procs t p) = SLEEPING" "held t = {}" using p by (simp_all add: posted_def)
  ultimately show ?thesis
    using e answer_resumes [OF p assms(7,2,4,5,8)] error_answer_panics [OF p assms(7,2,4,8)] by simp
qed

text \<open>A device that follows the specification, and a driver state whose ring index is about to wrap around.\<close>

definition demo_io :: "vdisk_state \<Rightarrow> vdisk_state" where
  "demo_io s =
     (let h = unat (avail_ring s (unat (used_new s) mod NUM)) in
      case request_at s h of
        None \<Rightarrow> s
      | Some (write, sector, b, i) \<Rightarrow>
          (let k = ucast (sector div 2);
               D = (if write then (disk s)(k := b_data (bufs s b)) else disk s);
               v = (if write then b_data (bufs s b) else disk s k)
           in (upd_info (int i) (\<lambda>y. y\<lparr>in_status := 0\<rparr>) (upd_buf b (\<lambda>y. y\<lparr>b_data := v\<rparr>) (s\<lparr>disk := D\<rparr>)))
                \<lparr>used_ring := (used_ring s)(unat (used_new s) mod NUM := of_nat h), used_new := used_new s + 1\<rparr>))"

lemma demo_io_step: "device_step 0 s u \<Longrightarrow> device_step 0 s (demo_io s)"
proof -
  assume d: "device_step 0 s u"
  let ?h = "unat (avail_ring s (unat (used_new s) mod NUM))"
  obtain w q b i where r: "request_at s ?h = Some (w, q, b, i)"
    using d by (auto simp: device_step_def Let_def split: option.splits)
  show ?thesis using d unfolding device_step_def demo_io_def Let_def r option.case prod.case by (cases w) auto
qed

definition demo_vdisk :: vdisk_state where
  "demo_vdisk = \<lparr>held = {}, procs = demo_procs, pqueue = demo_queues, ticks_max = (\<lambda>l. 2 ^ (l + 1)),
     cpu_proc = (\<lambda>_. None)(0 := Some 0), tp = 0, initproc = Some 0, nextpid = 5, ticks = 128, last_mod128 = 0,
     mem = (\<lambda>_. 0), freelist = 0, ft_f = (\<lambda>_. free_frame),
     clock_p = 7, swap_mask = (\<lambda>_. 0), kernel_pagetable = 0, sym_end = 0x80020000,
     sym_etext = 0x80008000, sym_trampoline = 0x80007000,
     disk = (\<lambda>_. [1, 2, 3]), disk_writes = [],
     slocks = (\<lambda>_. \<lparr>sl_locked = 0, sl_name = [], sl_pid = 0\<rparr>),
     bufs = (\<lambda>b. \<lparr>b_valid = True, b_disk = False, b_dev = 1, b_blockno = 50, b_refcnt = 1, b_prev = 0, b_next = 0,
               b_data = [of_nat b]\<rparr>),
     desc = (\<lambda>_. no_desc), avail_idx = 0xffff, avail_ring = (\<lambda>_. 0), used_new = 0xffff, used_ring = (\<lambda>_. 0),
     dfree = (\<lambda>i. i < NUM), used_idx = 0xffff, dinfo = (\<lambda>_. \<lparr>in_b = None, in_status = 0\<rparr>),
     dops = (\<lambda>_. \<lparr>rq_type = 0, rq_reserved = 0, rq_sector = 0\<rparr>), queue_pages = (0, 0, 0), mmio = []\<rparr>"

theorem driver_rw_correct_witness:
  "runs (driver_rw 3 True demo_vdisk) (\<lambda>(r, t). p_state (procs t 0) = SLEEPING \<and> device_step 0 t (demo_io t)
     \<and> runs (virtio_disk_intr (\<lambda>_ _. 1) ((demo_io t)\<lparr>tp := 1\<rparr>)) (\<lambda>v. p_state (procs v 0) = RUNNABLE
       \<and> runs (driver_rw_resume 0 3 True r (v\<lparr>held := {ProcLock 0}\<rparr>)) (\<lambda>(r', y). r' = RwDone
           \<and> disk y 50 = [3] \<and> disk y 51 = [1, 2, 3] \<and> \<not> b_disk (bufs y 3) \<and> used_idx y = 0)))"
proof -
  have s: "held demo_vdisk = {}" "sched_ok demo_vdisk" "myproc demo_vdisk = Some 0" "0 < NPROC"
      "\<forall>c. cpu_proc demo_vdisk c = Some 0 \<longrightarrow> c = tp demo_vdisk"
    using demo_ready by (simp_all add: demo_vdisk_def sched_ok_def ready_exact_def myproc_def NPROC_def)
  have "{i. i < NUM \<and> dfree demo_vdisk i} = {..<NUM}" by (auto simp: demo_vdisk_def)
  then have f: "3 \<le> card {i. i < NUM \<and> dfree demo_vdisk i}" by (simp add: NUM_def)
  have i: "idle_queue demo_vdisk" "unat (b_blockno (bufs demo_vdisk 3)) < 2 ^ 31" by (simp_all add: demo_vdisk_def idle_queue_def)
  have d: "disk y 50 = [3]" "disk y 51 = [1, 2, 3]" "\<not> b_disk (bufs y 3)" "used_idx y = 0" if "transferred 3 True demo_vdisk y" for y
    using that by (simp_all add: transferred_def virtio_disk_rw_def demo_vdisk_def)
  have x: "dispatched 0 v (v\<lparr>held := {ProcLock 0}\<rparr>)" if "sched_ok v" for v :: vdisk_state
    using that by (simp add: dispatched_def same_driver_def)
  obtain r t where e: "driver_rw 3 True demo_vdisk = Some (r, t)" "p_state (procs t 0) = SLEEPING" "\<exists>u. device_step 0 t u"
    and all: "device_step 0 t u \<Longrightarrow> runs (virtio_disk_intr (\<lambda>_ _. 1) (u\<lparr>tp := 1\<rparr>)) (\<lambda>v. p_state (procs v 0) = RUNNABLE \<and> held v = {} \<and> sched_ok v
      \<and> (\<forall>x. dispatched 0 v x \<longrightarrow> runs (driver_rw_resume 0 3 True r x) (\<lambda>(r', y). r' = RwDone \<and> transferred 3 True demo_vdisk y)))" for u
    using driver_rw_correct [OF s f i, where w = True and regs = "\<lambda>_ _. 1"] by (elim runsE) force
  have st: "device_step 0 t (demo_io t)" using e(3) demo_io_step by blast
  have "runs (virtio_disk_intr (\<lambda>_ _. 1) ((demo_io t)\<lparr>tp := 1\<rparr>)) (\<lambda>v. p_state (procs v 0) = RUNNABLE
       \<and> runs (driver_rw_resume 0 3 True r (v\<lparr>held := {ProcLock 0}\<rparr>)) (\<lambda>(r', y). r' = RwDone
           \<and> disk y 50 = [3] \<and> disk y 51 = [1, 2, 3] \<and> \<not> b_disk (bufs y 3) \<and> used_idx y = 0))"
  proof (rule runs_mono [OF all [OF st]])
    fix v :: vdisk_state
    assume v: "p_state (procs v 0) = RUNNABLE \<and> held v = {} \<and> sched_ok v
      \<and> (\<forall>x. dispatched 0 v x \<longrightarrow> runs (driver_rw_resume 0 3 True r x) (\<lambda>(r', y). r' = RwDone \<and> transferred 3 True demo_vdisk y))"
    then have "runs (driver_rw_resume 0 3 True r (v\<lparr>held := {ProcLock 0}\<rparr>)) (\<lambda>(r', y). r' = RwDone \<and> transferred 3 True demo_vdisk y)"
      using x by blast
    then show "p_state (procs v 0) = RUNNABLE
       \<and> runs (driver_rw_resume 0 3 True r (v\<lparr>held := {ProcLock 0}\<rparr>)) (\<lambda>(r', y). r' = RwDone
           \<and> disk y 50 = [3] \<and> disk y 51 = [1, 2, 3] \<and> \<not> b_disk (bufs y 3) \<and> used_idx y = 0)"
      using v by (auto elim!: runs_mono simp: d)
  qed
  then show ?thesis using e(1,2) st by simp
qed

section \<open>Allocation is all or nothing\<close>

lemma free_all:
  assumes "driving s" and "distinct js" and "\<forall>j \<in> set js. j < NUM \<and> \<not> dfree s j"
  shows "\<exists>t. for_each free_desc (map int js) s = Some t \<and> dfree t = (\<lambda>i. dfree s i \<or> i \<in> set js)"
  using assms
proof (induction js arbitrary: s)
  case (Cons j js)
  have j: "j < NUM" "\<not> dfree s j" using Cons.prems(3) by simp_all
  obtain u where u: "free_desc (int j) s = Some u" "driving u" "same_rings s u"
      "desc u = (desc s)(j := no_desc)" "dfree u = (dfree s)(j := True)"
    using free_desc_ok [OF Cons.prems(1) j] .
  have d: "distinct js" and h: "\<forall>k \<in> set js. k < NUM \<and> \<not> dfree u k" using Cons.prems(2,3) u(5) by auto
  obtain t where t: "for_each free_desc (map int js) u = Some t" "dfree t = (\<lambda>i. dfree u i \<or> i \<in> set js)"
    using Cons.IH [OF u(2) d h] by blast
  have "dfree t = (\<lambda>i. dfree s i \<or> i \<in> set (j # js))" unfolding t(2) u(5) by auto
  then show ?case using u(1) t(1) by simp
qed simp

definition alloc_result :: "nat \<Rightarrow> nat list \<Rightarrow> 'a vdisk_state_scheme \<Rightarrow> int \<times> int list \<times> 'a vdisk_state_scheme \<Rightarrow> bool" where
  "alloc_result n js s x \<longleftrightarrow>
     (\<exists>ks t. x = (0, map int (js @ ks), t) \<and> length ks = n \<and> distinct ks
        \<and> (\<forall>k \<in> set ks. k < NUM \<and> dfree s k) \<and> dfree t = (\<lambda>i. dfree s i \<and> i \<notin> set ks))
   \<or> (\<exists>idx t. x = (- 1, idx, t) \<and> card {i. i < NUM \<and> dfree s i} < n \<and> dfree t = (\<lambda>i. dfree s i \<or> i \<in> set js))"

lemma alloc_result_step:
  assumes i: "i < NUM" "dfree s i" and r: "alloc_result n (js @ [i]) (s\<lparr>dfree := (dfree s)(i := False)\<rparr>) x"
  shows "alloc_result (Suc n) js s x"
proof -
  let ?s = "s\<lparr>dfree := (dfree s)(i := False)\<rparr>" and ?F = "{i. i < NUM \<and> dfree s i}"
  have F: "{x. x < NUM \<and> dfree ?s x} = ?F - {i}" by auto
  have "card (?F - {i}) = card ?F - 1" "0 < card ?F" using i by (auto simp: card_gt_0_iff)
  then have c: "card {x. x < NUM \<and> dfree ?s x} < n \<Longrightarrow> card ?F < Suc n" unfolding F by linarith
  from r consider (some) ks t where "x = (0, map int ((js @ [i]) @ ks), t)" "length ks = n" "distinct ks"
      "\<forall>k \<in> set ks. k < NUM \<and> dfree ?s k" "dfree t = (\<lambda>j. dfree ?s j \<and> j \<notin> set ks)"
    | (none) idx t where "x = (- 1, idx, t)" "card {x. x < NUM \<and> dfree ?s x} < n" "dfree t = (\<lambda>j. dfree ?s j \<or> j \<in> set (js @ [i]))"
    unfolding alloc_result_def by blast
  then show ?thesis
  proof cases
    case some
    have "x = (0, map int (js @ i # ks), t)" "length (i # ks) = Suc n" "distinct (i # ks)"
      "\<forall>k \<in> set (i # ks). k < NUM \<and> dfree s k" using some(1-4) i by (auto split: if_splits)
    moreover have "dfree t = (\<lambda>j. dfree s j \<and> j \<notin> set (i # ks))" unfolding some(5) by auto
    ultimately show ?thesis unfolding alloc_result_def by blast
  next
    case none
    have "dfree t = (\<lambda>j. dfree s j \<or> j \<in> set js)" unfolding none(3) using i by auto
    then show ?thesis unfolding alloc_result_def using none(1) c [OF none(2)] by blast
  qed
qed

lemma alloc3_loop_result:
  assumes "driving s" and "distinct js" and "\<forall>j \<in> set js. j < NUM \<and> \<not> dfree s j"
  shows "runs (alloc3_loop n (map int js) s) (alloc_result n js s)"
  using assms
proof (induction n arbitrary: s js)
  case 0
  then show ?case by (simp add: alloc_result_def)
next
  case (Suc n)
  let ?F = "{i. i < NUM \<and> dfree s i}"
  show ?case
  proof (cases "?F = {}")
    case True
    then have "find (dfree s) [0..<NUM] = None" by (auto simp: find_None_iff)
    then have a: "alloc_desc s = (- 1, s)" by (simp add: alloc_desc_def)
    obtain t where t: "for_each free_desc (map int js) s = Some t" "dfree t = (\<lambda>i. dfree s i \<or> i \<in> set js)"
      using free_all [OF Suc.prems] by blast
    have "card ?F < Suc n" unfolding True by simp
    then have "alloc_result (Suc n) js s (- 1, map int js @ [- 1], t)" unfolding alloc_result_def using t(2) by blast
    then show ?thesis using a t(1) by simp
  next
    case False
    then obtain i where i: "alloc_desc s = (int i, s\<lparr>dfree := (dfree s)(i := False)\<rparr>)" "i < NUM" "dfree s i"
      by (rule alloc_desc_ok)
    let ?s = "s\<lparr>dfree := (dfree s)(i := False)\<rparr>"
    have d: "driving ?s" using Suc.prems(1) by (subst driving_cong [of _ s]) simp_all
    have "distinct (js @ [i])" "\<forall>j \<in> set (js @ [i]). j < NUM \<and> \<not> dfree ?s j"
      using Suc.prems(2,3) i by auto
    from runs_mono [OF Suc.IH [OF d this] alloc_result_step [OF i(2,3)]]
    show ?thesis using i(1) by simp
  qed
qed

text \<open>C24.  Allocating the descriptors of a request is all or nothing.  With three or more free descriptors
  \<open>alloc3_desc\<close> takes three different ones; with fewer it returns -1 and every descriptor it had taken is
  free again, so a request that has to wait holds nothing.  It never panics.\<close>

theorem alloc3_all_or_nothing:
  assumes "driving s"
  shows "runs (alloc3_desc s) (\<lambda>(r, idx, t).
     if 3 \<le> card {i. i < NUM \<and> dfree s i}
     then r = 0 \<and> (\<exists>ks. idx = map int ks \<and> length ks = 3 \<and> distinct ks \<and> (\<forall>k \<in> set ks. k < NUM \<and> dfree s k)
           \<and> dfree t = (\<lambda>i. dfree s i \<and> i \<notin> set ks))
     else r = - 1 \<and> dfree t = dfree s)"
proof -
  have "runs (alloc3_loop 3 (map int []) s) (alloc_result 3 [] s)" by (rule alloc3_loop_result) (use assms in simp_all)
  then obtain x where x: "alloc3_desc s = Some x" "alloc_result 3 [] s x" unfolding alloc3_desc_def by (elim runsE) simp
  from x(2) consider (some) ks t where "x = (0, map int ks, t)" "length ks = 3" "distinct ks"
      "\<forall>k \<in> set ks. k < NUM \<and> dfree s k" "dfree t = (\<lambda>j. dfree s j \<and> j \<notin> set ks)"
    | (none) idx t where "x = (- 1, idx, t)" "card {i. i < NUM \<and> dfree s i} < 3" "dfree t = dfree s"
    unfolding alloc_result_def by auto
  then show ?thesis
  proof cases
    case some
    have "card (set ks) \<le> card {i. i < NUM \<and> dfree s i}" using some(4) by (intro card_mono) auto
    then have "3 \<le> card {i. i < NUM \<and> dfree s i}" using some(2,3) by (simp add: distinct_card)
    then show ?thesis using x(1) some by auto
  next
    case none
    then show ?thesis using x(1) by simp
  qed
qed

theorem alloc3_all_or_nothing_witness:
  "runs (alloc3_desc (demo_vdisk\<lparr>dfree := (\<lambda>i. i = 2 \<or> i = 5)\<rparr>)) (\<lambda>(r, idx, t). r = - 1 \<and> dfree t = (\<lambda>i. i = 2 \<or> i = 5))"
proof -
  let ?s = "demo_vdisk\<lparr>dfree := (\<lambda>i. i = 2 \<or> i = 5)\<rparr>"
  have d: "driving ?s"
    using demo_ready by (simp add: driving_def demo_vdisk_def sched_ok_def ready_exact_def queues_free_def)
  have "{i. i < NUM \<and> dfree ?s i} = {2, 5}" by (auto simp: NUM_def)
  then have "\<not> 3 \<le> card {i. i < NUM \<and> dfree ?s i}" by simp
  then show ?thesis by (intro runs_mono [OF alloc3_all_or_nothing [OF d]]) auto
qed

end
