(* ===== verification/Ulib.thy ===== *)
theory Ulib
  imports Cstring
begin

text \<open>
  The C library of the user programs (\<^verbatim>\<open>user/ulib.c\<close>, \<^verbatim>\<open>user/printf.c\<close>).  A pointer into a C string that is only
  read is the rest of the string from there, without the terminating NUL; routines that write work
  on byte memory.  Output is the list of the bytes written; reading takes bytes from the remaining input.
\<close>

section \<open>Strings and memory\<close>

abbreviation newline :: char where "newline \<equiv> CHR 0x0A"

partial_function (option) strcpy :: "uint64 \<Rightarrow> uint64 \<Rightarrow> memory \<Rightarrow> memory option" where
  "strcpy s t m =
     (let m = m(s := m t) in if m s \<noteq> 0 then strcpy (s + 1) (t + 1) m else Some m)"

fun strcmp :: "string \<Rightarrow> string \<Rightarrow> int" where
  "strcmp (x # p) (y # q) = (if x = y then strcmp p q else of_char x - of_char y)"
| "strcmp (x # p) [] = of_char x"
| "strcmp [] (y # q) = - of_char y"
| "strcmp [] [] = 0"

definition strlen_user :: "string \<Rightarrow> uint_t" where
  "strlen_user s = of_nat (length s)"

fun memset_user :: "uint64 \<Rightarrow> int \<Rightarrow> nat \<Rightarrow> memory \<Rightarrow> memory" where
  "memset_user dst c 0 m = m"
| "memset_user dst c (Suc n) m = (memset_user dst c n m)(dst + of_nat n := of_int c)"

fun strchr :: "string \<Rightarrow> char \<Rightarrow> string option" where
  "strchr [] c = None"
| "strchr (x # s) c = (if x = CHR 0x00 then None else if x = c then Some (x # s) else strchr s c)"

fun gets_loop :: "nat \<Rightarrow> string \<Rightarrow> string \<times> string" where
  "gets_loop 0 inp = ([], inp)"
| "gets_loop (Suc n) [] = ([], [])"
| "gets_loop (Suc n) (c # inp) =
     (if c = newline \<or> c = CHR 0x0D then ([c], inp)
      else let (line, rest) = gets_loop n inp in (c # line, rest))"

definition gets :: "int \<Rightarrow> string \<Rightarrow> string \<times> string" where
  "gets mx inp = gets_loop (nat (mx - 1)) inp"

definition wrap32 :: "int \<Rightarrow> int" where
  "wrap32 x = sint (of_int x :: 32 word)"

fun atoi_loop :: "int \<Rightarrow> string \<Rightarrow> int" where
  "atoi_loop n [] = n"
| "atoi_loop n (c # s) =
     (if (48 :: int) \<le> of_char c \<and> of_char c \<le> (57 :: int) then atoi_loop (wrap32 (n * 10 + of_char c - 48)) s else n)"

definition atoi :: "string \<Rightarrow> int" where
  "atoi s = atoi_loop 0 s"

definition memmove_user :: "uint64 \<Rightarrow> uint64 \<Rightarrow> int \<Rightarrow> memory \<Rightarrow> memory" where
  "memmove_user vdst vsrc n m =
     (if vsrc > vdst then copy_forward vdst vsrc (nat n) m
      else copy_backward (vdst + of_int n) (vsrc + of_int n) (nat n) m)"

fun memcmp_user :: "(nat \<Rightarrow> 8 word) \<Rightarrow> (nat \<Rightarrow> 8 word) \<Rightarrow> nat \<Rightarrow> int" where
  "memcmp_user p1 p2 0 = 0"
| "memcmp_user p1 p2 (Suc n) =
     (if p1 0 \<noteq> p2 0 then uint (p1 0) - uint (p2 0)
      else memcmp_user (\<lambda>i. p1 (Suc i)) (\<lambda>i. p2 (Suc i)) n)"

definition memcpy_user :: "uint64 \<Rightarrow> uint64 \<Rightarrow> uint_t \<Rightarrow> memory \<Rightarrow> memory" where
  "memcpy_user dst src n m = memmove_user dst src (sint n) m"

section \<open>Formatted output\<close>

text \<open>The table of digits is an argument of the routines: the kernel's copy of them prints lower-case digits.
  The negation of the least 64-bit value in \<open>printint\<close>, which C leaves undefined, wraps around.\<close>

definition digits :: string where "digits = ''0123456789ABCDEF''"

partial_function (option) printint_loop :: "string \<Rightarrow> nat \<Rightarrow> nat \<Rightarrow> nat \<Rightarrow> string \<Rightarrow> string option" where
  "printint_loop digs base x i buf = do {
     check (i < 20);
     let buf = digs ! (x mod base) # buf;
     let x = x div base;
     if x \<noteq> 0 then printint_loop digs base x (i + 1) buf else Some buf }"

definition printint :: "string \<Rightarrow> uint64 \<Rightarrow> nat \<Rightarrow> bool \<Rightarrow> string option" where
  "printint digs xx base sg = do {
     let neg = (sg \<and> sint xx < 0);
     let x = (if neg then - xx else xx);
     buf \<leftarrow> printint_loop digs base (unat x) 0 [];
     if neg then do { check (length buf < 20); Some (CHR ''-'' # buf) } else Some buf }"

fun printptr_loop :: "string \<Rightarrow> nat \<Rightarrow> uint64 \<Rightarrow> string" where
  "printptr_loop digs 0 x = []"
| "printptr_loop digs (Suc n) x = digs ! unat (drop_bit 60 x) # printptr_loop digs n (push_bit 4 x)"

definition printptr :: "string \<Rightarrow> uint64 \<Rightarrow> string" where
  "printptr digs x = ''0x'' @ printptr_loop digs 16 x"

text \<open>The variable arguments: machine words, or pointers to strings (None for the null pointer).\<close>

datatype varg = Word uint64 | Str "string option"

definition va_int :: "uint64 \<Rightarrow> uint64" where "va_int w = scast (ucast w :: 32 word)"
definition va_uint32 :: "uint64 \<Rightarrow> uint64" where "va_uint32 w = ucast (ucast w :: 32 word)"

text \<open>The conversion after a percent sign: the length of its name and what it prints, given the next argument.\<close>

definition conversion :: "string \<Rightarrow> char \<Rightarrow> char option \<Rightarrow> char option \<Rightarrow> (nat \<times> (uint64 \<Rightarrow> string option)) option" where
  "conversion digs c0 c1 c2 =
     (if c0 = CHR ''d'' then Some (1, \<lambda>w. printint digs (va_int w) 10 True)
      else if c0 = CHR ''l'' \<and> c1 = Some CHR ''d'' then Some (2, \<lambda>w. printint digs w 10 True)
      else if c0 = CHR ''l'' \<and> c1 = Some CHR ''l'' \<and> c2 = Some CHR ''d'' then Some (3, \<lambda>w. printint digs w 10 True)
      else if c0 = CHR ''u'' then Some (1, \<lambda>w. printint digs (va_uint32 w) 10 False)
      else if c0 = CHR ''l'' \<and> c1 = Some CHR ''u'' then Some (2, \<lambda>w. printint digs w 10 False)
      else if c0 = CHR ''l'' \<and> c1 = Some CHR ''l'' \<and> c2 = Some CHR ''u'' then Some (3, \<lambda>w. printint digs w 10 False)
      else if c0 = CHR ''x'' then Some (1, \<lambda>w. printint digs (va_uint32 w) 16 False)
      else if c0 = CHR ''l'' \<and> c1 = Some CHR ''x'' then Some (2, \<lambda>w. printint digs w 16 False)
      else if c0 = CHR ''l'' \<and> c1 = Some CHR ''l'' \<and> c2 = Some CHR ''x'' then Some (3, \<lambda>w. printint digs w 16 False)
      else if c0 = CHR ''p'' then Some (1, \<lambda>w. Some (printptr digs w))
      else if c0 = CHR ''c'' then Some (1, \<lambda>w. Some [char_of (unat w)])
      else None)"

definition next_char :: "string \<Rightarrow> char option" where
  "next_char s = (case s of [] \<Rightarrow> None | c # _ \<Rightarrow> Some c)"

function vprintf :: "string \<Rightarrow> string \<Rightarrow> varg list \<Rightarrow> string option" where
  "vprintf digs fmt ap =
     (case fmt of
        [] \<Rightarrow> Some []
      | c # f \<Rightarrow>
          if c \<noteq> CHR ''%'' then do { out \<leftarrow> vprintf digs f ap; Some (c # out) }
          else case f of
            [] \<Rightarrow> Some []
          | c0 # g \<Rightarrow>
              (case conversion digs c0 (next_char g) (next_char (tl g)) of
                 Some (n, show_arg) \<Rightarrow>
                   (case ap of
                      Word w # ap' \<Rightarrow> do {
                        s \<leftarrow> show_arg w;
                        out \<leftarrow> vprintf digs (drop (n - 1) g) ap';
                        Some (s @ out) }
                    | _ \<Rightarrow> None)
               | None \<Rightarrow>
                   if c0 = CHR ''s''
                   then (case ap of
                           Str v # ap' \<Rightarrow> do {
                             out \<leftarrow> vprintf digs g ap';
                             Some ((case v of None \<Rightarrow> ''(null)'' | Some s \<Rightarrow> s) @ out) }
                         | _ \<Rightarrow> None)
                   else if c0 = CHR ''%'' then do { out \<leftarrow> vprintf digs g ap; Some (CHR ''%'' # out) }
                   else do { out \<leftarrow> vprintf digs g ap; Some (CHR ''%'' # c0 # out) }))"
  by pat_completeness auto
termination by (relation "measure (\<lambda>(digs, fmt, ap). length fmt)") auto

declare vprintf.simps [simp del]

section \<open>Comparison and copying\<close>

lemma of_char_inj: "(of_char x :: int) = of_char y \<longleftrightarrow> x = y"
proof
  assume "(of_char x :: int) = of_char y"
  then have "int (of_char x) = int (of_char y)" by simp
  then have "(of_char x :: nat) = of_char y" by simp
  then show "x = y" by simp
qed simp

lemma of_char_pos: "0 \<le> (of_char x :: int)"
  by (metis of_nat_0_le_iff of_nat_of_char)

text \<open>The lexicographic order of strings: at the first difference the end of the string is the least byte.\<close>

definition precedes :: "string \<Rightarrow> string \<Rightarrow> bool" where
  "precedes p q \<longleftrightarrow> (\<exists>u v x y. p = u @ x \<and> q = u @ y # v \<and> (x = [] \<or> (of_char (hd x) :: int) < of_char y))"

lemma precedes_same: "precedes (x # p) (x # q) \<longleftrightarrow> precedes p q"
proof
  assume "precedes (x # p) (x # q)"
  then obtain u v x' y' where h: "x # p = u @ x'" "x # q = u @ y' # v" "x' = [] \<or> (of_char (hd x') :: int) < of_char y'"
    unfolding precedes_def by blast
  show "precedes p q"
  proof (cases u)
    case (Cons z u')
    then have "p = u' @ x'" "q = u' @ y' # v" using h by simp_all
    then show ?thesis unfolding precedes_def using h(3) by blast
  qed (use h in auto)
next
  assume "precedes p q"
  then obtain u v x' y' where h: "p = u @ x'" "q = u @ y' # v" "x' = [] \<or> (of_char (hd x') :: int) < of_char y'"
    unfolding precedes_def by blast
  then have "x # p = (x # u) @ x'" "x # q = (x # u) @ y' # v" by simp_all
  then show "precedes (x # p) (x # q)" unfolding precedes_def using h(3) by blast
qed

lemma precedes_different:
  assumes "x \<noteq> y"
  shows "precedes (x # p) (y # q) \<longleftrightarrow> (of_char x :: int) < of_char y"
proof
  assume "precedes (x # p) (y # q)"
  then obtain u v x' y' where h: "x # p = u @ x'" "y # q = u @ y' # v" "x' = [] \<or> (of_char (hd x') :: int) < of_char y'"
    unfolding precedes_def by blast
  then have "u = []" using assms by (cases u) auto
  then show "(of_char x :: int) < of_char y" using h by auto
next
  assume "(of_char x :: int) < of_char y"
  then show "precedes (x # p) (y # q)" unfolding precedes_def
    by (intro exI [of _ "[]"] exI [of _ q] exI [of _ "x # p"] exI [of _ y]) simp
qed

lemma precedes_Nil: "precedes [] (y # q)" "\<not> precedes p []"
  by (auto simp: precedes_def)

text \<open>C38.  \<open>strcmp\<close> decides equality and order.  It returns 0 exactly for equal strings, and otherwise the sign of
  the result is the order of the first bytes in which they differ, the end of a string being the least byte;
  exchanging the arguments negates the result.\<close>

theorem strcmp_correct:
  assumes "CHR 0x00 \<notin> set p" and "CHR 0x00 \<notin> set q"
  shows "(strcmp p q = 0 \<longleftrightarrow> p = q) \<and> strcmp q p = - strcmp p q \<and> (strcmp p q < 0 \<longleftrightarrow> precedes p q)"
proof -
  have nz: "0 < (of_char c :: int)" if "CHR 0x00 \<noteq> c" for c :: char
    using of_char_inj [of c "CHR 0x00"] of_char_pos [of c] that by (auto simp: order_less_le)
  have "strcmp p q = 0 \<longleftrightarrow> p = q" using assms
    by (induction p q rule: strcmp.induct) (auto simp: of_char_inj dest: less_imp_neq [OF nz])
  moreover have "strcmp q p = - strcmp p q" by (induction p q rule: strcmp.induct) auto
  moreover have "strcmp p q < 0 \<longleftrightarrow> precedes p q" using assms
    by (induction p q rule: strcmp.induct)
      (auto simp: precedes_same precedes_different precedes_Nil nz not_less of_char_pos)
  ultimately show ?thesis by blast
qed

theorem strcmp_correct_witness: "strcmp ''cat'' ''cats'' < 0 \<and> strcmp ''cats'' ''cat'' = - strcmp ''cat'' ''cats''"
  using strcmp_correct [of "''cat''" "''cats''"] by auto

text \<open>Like the kernel's, the user library's \<open>memmove\<close> is an ideal simultaneous copy.\<close>

lemma memmove_user_correct:
  assumes "0 \<le> n" and "unat dst + nat n \<le> 2 ^ 64" and "unat src + nat n \<le> 2 ^ 64"
  shows "memmove_user dst src n m = (\<lambda>x. if unat (x - dst) < nat n then m (src + (x - dst)) else m x)"
proof -
  have w: "(of_int n :: uint64) = of_nat (nat n)" using assms(1) by (metis of_int_of_nat_eq nat_0_le)
  consider (up) "src > dst" | (same) "src = dst" | (down) "unat src < unat dst" by (metis linorder_less_linear word_less_nat_alt)
  then show ?thesis
  proof cases
    case up
    then have "unat dst \<le> unat src" by (simp add: word_less_nat_alt)
    then show ?thesis using up copy_forward_eq [OF assms(2,3)] by (simp add: memmove_user_def)
  next
    case down
    then have "\<not> src > dst" by (simp add: word_less_nat_alt)
    then show ?thesis using copy_backward_eq [OF assms(2,3) down] by (simp add: memmove_user_def w)
  next
    case same
    have "copy_backward d d k m = m" for d k by (induction k arbitrary: d) simp_all
    then show ?thesis using same by (auto simp: memmove_user_def)
  qed
qed

section \<open>Numbers\<close>

function numeral_in :: "string \<Rightarrow> nat \<Rightarrow> nat \<Rightarrow> string" where
  "numeral_in digs base x =
     (if base < 2 \<or> x < base then [digs ! (x mod base)] else numeral_in digs base (x div base) @ [digs ! (x mod base)])"
  by pat_completeness auto
termination by (relation "measure (\<lambda>(digs, base, x). x)") auto

declare numeral_in.simps [simp del]

lemma printint_loop_numeral:
  assumes "2 \<le> base" and "x < base ^ Suc k" and "i + k < 20"
  shows "printint_loop digs base x i buf = Some (numeral_in digs base x @ buf)"
  using assms(2,3)
proof (induction k arbitrary: x i buf)
  case 0
  then have "x div base = 0" "x < base" by simp_all
  then show ?case using 0 by (subst printint_loop.simps, subst numeral_in.simps) (simp add: Let_def)
next
  case (Suc k)
  show ?case
  proof (cases "x < base")
    case True
    then show ?thesis using Suc.prems by (subst printint_loop.simps, subst numeral_in.simps) (simp add: Let_def)
  next
    case False
    have "x div base < base ^ Suc k"
      using Suc.prems(1) assms(1) by (simp add: less_mult_imp_div_less mult.commute)
    then have "printint_loop digs base (x div base) (i + 1) (digs ! (x mod base) # buf)
        = Some (numeral_in digs base (x div base) @ digs ! (x mod base) # buf)"
      using Suc.IH [of "x div base" "i + 1"] Suc.prems(2) by simp
    moreover have "x div base \<noteq> 0" using False assms(1) by (simp add: div_eq_0_iff)
    ultimately show ?thesis
      using False assms(1) Suc.prems(2) by (subst printint_loop.simps, subst numeral_in.simps) (simp add: Let_def)
  qed
qed

lemma length_numeral: "2 \<le> base \<Longrightarrow> x < base ^ Suc k \<Longrightarrow> length (numeral_in digs base x) \<le> Suc k"
proof (induction k arbitrary: x)
  case 0
  then show ?case by (subst numeral_in.simps) simp
next
  case (Suc k)
  then have "x div base < base ^ Suc k" by (simp add: less_mult_imp_div_less mult.commute)
  then show ?case using Suc by (subst numeral_in.simps) simp
qed

lemma printint_nonneg:
  assumes "base = 10 \<or> base = 16" and "\<not> (sg \<and> sint xx < 0)"
  shows "printint digs xx base sg = Some (numeral_in digs base (unat xx))"
proof -
  have "unat xx < 2 ^ 64" using unsigned_less [of xx, where 'a = nat] by simp
  then have "unat xx < base ^ Suc 19" using assms by auto
  then show ?thesis using assms printint_loop_numeral [of base "unat xx" 19 0 digs "[]"] by (auto simp: printint_def Let_def)
qed

lemma printint_numeral:
  assumes "base = 10 \<or> base = 16"
  shows "printint digs xx base sg = Some (if sg \<and> sint xx < 0 then CHR ''-'' # numeral_in digs base (nat (- sint xx))
      else numeral_in digs base (unat xx))"
proof (cases "sg \<and> sint xx < 0")
  case True
  have r: "- (2 ^ 63) \<le> sint xx" "sint xx < 0" using sint_ge [of xx] True by simp_all
  have "uint xx = sint xx mod 2 ^ 64" by (simp add: uint_sint take_bit_eq_mod)
  then have "uint (- xx) = (- sint xx) mod 2 ^ 64" by (simp add: uint_word_ariths mod_minus_eq)
  then have "uint (- xx) = - sint xx" using r by simp
  then have u: "unat (- xx) = nat (- sint xx)" by (simp only: unat_eq_nat_uint)
  have "nat (- sint xx) < 10 ^ 19" "nat (- sint xx) < 16 ^ 19" using r by simp_all
  then have b: "nat (- sint xx) < base ^ Suc 18" using assms by auto
  have "length (numeral_in digs base (nat (- sint xx))) < 20"
    using length_numeral [OF _ b, of digs] assms by auto
  then show ?thesis
    using True u b assms printint_loop_numeral [of base "nat (- sint xx)" 18 0 digs "[]"] by (auto simp: printint_def Let_def)
next
  case False
  then show ?thesis using printint_nonneg [OF assms, of sg xx digs] by auto
qed

text \<open>C36.  Printing a number always returns and stays inside its buffer of 20 bytes: for every 64-bit value, in
  base 10 or 16, signed or unsigned, the output is the numeral of the value with a minus sign where
  the value is negative, the least 64-bit integer included.\<close>

theorem printint_correct:
  assumes "base = 10 \<or> base = 16"
  shows "printint digs xx base sg = Some (if sg \<and> sint xx < 0 then CHR ''-'' # numeral_in digs base (nat (- sint xx))
      else numeral_in digs base (unat xx))"
  using assms by (rule printint_numeral)

theorem printint_correct_witness:
  "printint digits (- 9223372036854775808) 10 True = Some (CHR ''-'' # numeral_in digits 10 9223372036854775808)"
  using printint_correct [of 10 digits "- 9223372036854775808" True] by simp

lemma digit_char: "d < 10 \<Longrightarrow> (of_char (digits ! d) :: int) = 48 + int d"
proof -
  assume "d < 10"
  then have "d \<in> {0, 1, 2, 3, 4, 5, 6, 7, 8, 9}" by auto
  then show ?thesis by (auto simp: digits_def)
qed

lemma atoi_loop_digits:
  "\<forall>c \<in> set s. 48 \<le> (of_char c :: int) \<and> (of_char c :: int) \<le> 57 \<Longrightarrow> atoi_loop n (s @ t) = atoi_loop (atoi_loop n s) t"
  by (induction s arbitrary: n) auto

lemma numeral_digits: "c \<in> set (numeral_in digits 10 x) \<Longrightarrow> 48 \<le> (of_char c :: int) \<and> (of_char c :: int) \<le> 57"
proof (induction x rule: less_induct)
  case (less x)
  have d: "x mod 10 < 10" by simp
  show ?case
    using less.prems less.IH [of "x div 10"] digit_char [OF d]
    by (subst (asm) numeral_in.simps) (auto split: if_splits)
qed

lemma wrap32_small: "0 \<le> x \<Longrightarrow> x < 2 ^ 31 \<Longrightarrow> wrap32 x = x"
  by (simp add: wrap32_def signed_of_int signed_take_bit_int_eq_self)

lemma atoi_numeral: "x < 2 ^ 31 \<Longrightarrow> atoi_loop 0 (numeral_in digits 10 x) = int x"
proof (induction x rule: less_induct)
  case (less x)
  have d: "(of_char (digits ! (x mod 10)) :: int) = 48 + int (x mod 10)" by (rule digit_char) simp
  have w: "wrap32 (int x) = int x" using less.prems by (intro wrap32_small) simp_all
  show ?case
  proof (cases "x < 10")
    case True
    then show ?thesis using d w by (subst numeral_in.simps) simp
  next
    case False
    then have ih: "atoi_loop 0 (numeral_in digits 10 (x div 10)) = int (x div 10)" using less by simp
    have "int (x div 10) * 10 + int (x mod 10) = int x" by (metis mult.commute of_nat_add of_nat_mult of_nat_numeral mult_div_mod_eq)
    then show ?thesis
      using False d w ih atoi_loop_digits [of "numeral_in digits 10 (x div 10)" 0] numeral_digits
      by (subst numeral_in.simps) simp
  qed
qed

text \<open>C37.  \<open>atoi\<close> reads back what \<open>%d\<close> prints: the decimal numeral of every non-negative \<^verbatim>\<open>int\<close>, also when other text
  that does not start with a digit follows it.\<close>

theorem atoi_reads_printint:
  assumes "x < 2 ^ 31" and "t = [] \<or> \<not> (48 \<le> (of_char (hd t) :: int) \<and> (of_char (hd t) :: int) \<le> 57)"
  shows "runs (printint digits (of_nat x) 10 True) (\<lambda>s. atoi (s @ t) = int x)"
proof -
  have s: "sint (of_nat x :: uint64) = int x"
    using assms(1) by (simp add: signed_of_nat signed_take_bit_int_eq_self)
  have u: "unat (of_nat x :: uint64) = x" using assms(1) by (simp add: unat_of_nat take_bit_nat_eq_self_iff)
  have "atoi (numeral_in digits 10 x @ t) = atoi_loop (int x) t"
    using atoi_loop_digits [of "numeral_in digits 10 x" 0 t] numeral_digits atoi_numeral [OF assms(1)] by (simp add: atoi_def)
  also have "\<dots> = int x" using assms(2) by (cases t) auto
  finally show ?thesis using printint_nonneg [of 10 True "of_nat x" digits] s u by simp
qed

theorem atoi_reads_printint_witness:
  "runs (printint digits (of_nat 2047) 10 True) (\<lambda>s. atoi (s @ '' files'') = 2047)"
  using atoi_reads_printint [of 2047 "'' files''"] by simp

end
