(* ===== verification/Kprintf.thy ===== *)
theory Kprintf
  imports Console Ulib
begin

text \<open>
  Console messages of the kernel (\<^verbatim>\<open>kernel/printf.c\<close>).  The lock of printf is \<open>PrLock\<close>, not taken while the kernel is
  panicking.  The loop that produces the digits of a number and the reading of arguments are the same code as in the user
  library and are taken from \<open>Ulib\<close>.
\<close>

section \<open>The code\<close>

definition kdigits :: string where "kdigits = ''0123456789abcdef''"

definition putchars :: "string \<Rightarrow> 'a cons_state_scheme \<Rightarrow> 'a cons_state_scheme option" where
  "putchars buf s = for_each (\<lambda>c. consputc (of_char c)) buf s"

definition kprintint :: "uint64 \<Rightarrow> nat \<Rightarrow> bool \<Rightarrow> 'a cons_state_scheme \<Rightarrow> 'a cons_state_scheme option" where
  "kprintint xx base sign s = do {
     let neg = (sign \<and> sint xx < 0);
     let x = (if neg then - xx else xx);
     buf \<leftarrow> printint_loop kdigits base (unat x) 0 [];
     buf \<leftarrow> (if neg then do { check (length buf < 20); Some (CHR ''-'' # buf) } else Some buf);
     putchars buf s }"

fun kprintptr_loop :: "nat \<Rightarrow> uint64 \<Rightarrow> 'a cons_state_scheme \<Rightarrow> 'a cons_state_scheme option" where
  "kprintptr_loop 0 x s = Some s"
| "kprintptr_loop (Suc n) x s = do {
     s \<leftarrow> consputc (of_char (kdigits ! unat (drop_bit 60 x))) s;
     kprintptr_loop n (push_bit 4 x) s }"

definition kprintptr :: "uint64 \<Rightarrow> 'a cons_state_scheme \<Rightarrow> 'a cons_state_scheme option" where
  "kprintptr x s = do {
     s \<leftarrow> consputc (of_char (CHR ''0'')) s;
     s \<leftarrow> consputc (of_char (CHR ''x'')) s;
     kprintptr_loop 16 x s }"

definition kconversion :: "char \<Rightarrow> char option \<Rightarrow> char option
    \<Rightarrow> (nat \<times> (uint64 \<Rightarrow> 'a cons_state_scheme \<Rightarrow> 'a cons_state_scheme option)) option" where
  "kconversion c0 c1 c2 =
     (if c0 = CHR ''d'' then Some (1, \<lambda>w. kprintint (va_int w) 10 True)
      else if c0 = CHR ''l'' \<and> c1 = Some CHR ''d'' then Some (2, \<lambda>w. kprintint w 10 True)
      else if c0 = CHR ''l'' \<and> c1 = Some CHR ''l'' \<and> c2 = Some CHR ''d'' then Some (3, \<lambda>w. kprintint w 10 True)
      else if c0 = CHR ''u'' then Some (1, \<lambda>w. kprintint (va_uint32 w) 10 False)
      else if c0 = CHR ''l'' \<and> c1 = Some CHR ''u'' then Some (2, \<lambda>w. kprintint w 10 False)
      else if c0 = CHR ''l'' \<and> c1 = Some CHR ''l'' \<and> c2 = Some CHR ''u'' then Some (3, \<lambda>w. kprintint w 10 False)
      else if c0 = CHR ''x'' then Some (1, \<lambda>w. kprintint (va_uint32 w) 16 False)
      else if c0 = CHR ''l'' \<and> c1 = Some CHR ''x'' then Some (2, \<lambda>w. kprintint w 16 False)
      else if c0 = CHR ''l'' \<and> c1 = Some CHR ''l'' \<and> c2 = Some CHR ''x'' then Some (3, \<lambda>w. kprintint w 16 False)
      else if c0 = CHR ''p'' then Some (1, kprintptr)
      else if c0 = CHR ''c'' then Some (1, \<lambda>w. consputc (sint (ucast w :: 32 word)))
      else None)"

function kprintf_loop :: "string \<Rightarrow> varg list \<Rightarrow> 'a cons_state_scheme \<Rightarrow> 'a cons_state_scheme option" where
  "kprintf_loop fmt ap s =
     (case fmt of
        [] \<Rightarrow> Some s
      | cx # f \<Rightarrow>
          if cx \<noteq> CHR ''%'' then do { s \<leftarrow> consputc (of_char cx) s; kprintf_loop f ap s }
          else case f of
            [] \<Rightarrow> Some s
          | c0 # g \<Rightarrow>
              (case kconversion c0 (next_char g) (next_char (tl g)) of
                 Some (n, print_arg) \<Rightarrow>
                   (case ap of
                      Word w # ap' \<Rightarrow> do {
                        s \<leftarrow> print_arg w s;
                        kprintf_loop (drop (n - 1) g) ap' s }
                    | _ \<Rightarrow> None)
               | None \<Rightarrow>
                   if c0 = CHR ''s''
                   then (case ap of
                           Str v # ap' \<Rightarrow> do {
                             s \<leftarrow> putchars (case v of None \<Rightarrow> ''(null)'' | Some t \<Rightarrow> t) s;
                             kprintf_loop g ap' s }
                         | _ \<Rightarrow> None)
                   else if c0 = CHR ''%''
                   then do { s \<leftarrow> consputc (of_char (CHR ''%'')) s; kprintf_loop g ap s }
                   else do {
                     s \<leftarrow> consputc (of_char (CHR ''%'')) s;
                     s \<leftarrow> consputc (of_char c0) s;
                     kprintf_loop g ap s }))"
  by pat_completeness auto
termination by (relation "measure (\<lambda>(fmt, ap, s). length fmt)") auto

declare kprintf_loop.simps [simp del]

definition kprintf :: "string \<Rightarrow> varg list \<Rightarrow> 'a cons_state_scheme \<Rightarrow> (int \<times> 'a cons_state_scheme) option" where
  "kprintf fmt ap s = do {
     s \<leftarrow> (if \<not> panicking s then acq PrLock s else Some s);
     s \<leftarrow> kprintf_loop fmt ap s;
     s \<leftarrow> (if \<not> panicking s then rel PrLock s else Some s);
     Some (0, s) }"

text \<open>\<open>panic\<close> up to the state in which it spins.\<close>

definition kpanic :: "string \<Rightarrow> 'a cons_state_scheme \<Rightarrow> 'a cons_state_scheme option" where
  "kpanic msg s = do {
     let s = s\<lparr>panicking := True\<rparr>;
     (_, s) \<leftarrow> kprintf ''panic: '' [] s;
     (_, s) \<leftarrow> kprintf (''%s'' @ [newline]) [Str (Some msg)] s;
     Some (s\<lparr>panicked := True\<rparr>) }"

section \<open>What appears on the console\<close>

definition shown :: "string \<Rightarrow> 'a cons_state_scheme \<Rightarrow> 'a cons_state_scheme" where
  "shown out s = s\<lparr>uart_out := uart_out s @ map of_char out\<rparr>"

lemma shown_simps [simp]:
  "shown [] s = s" "shown y (shown x s) = shown (x @ y) s" "panicking (shown x s) = panicking s" "held (shown x s) = held s"
  "panicked (shown x s) = panicked s"
  by (simp_all add: shown_def)

lemma consputc_char: "\<not> panicked s \<Longrightarrow> consputc (of_char c) s = Some (shown [c] s)"
proof -
  assume p: "\<not> panicked s"
  have "(of_char c :: nat) < 256" by simp
  moreover have "(of_char c :: int) = int (of_char c)" by (simp only: of_nat_of_char)
  ultimately have "(of_char c :: int) \<noteq> BACKSPACE" unfolding BACKSPACE_def by linarith
  moreover have "(of_int (of_char c) :: uint8) = of_char c" by (metis of_int_of_nat_eq of_nat_of_char)
  ultimately show ?thesis using p by (simp add: consputc_eq echoed_def echo_def shown_def)
qed

lemma putchars_shown: "\<not> panicked s \<Longrightarrow> putchars buf s = Some (shown buf s)"
  unfolding putchars_def by (induction buf arbitrary: s) (simp_all add: consputc_char)

lemma kprintint_shown:
  "\<not> panicked s \<Longrightarrow> kprintint xx base sign s = map_option (\<lambda>out. shown out s) (printint kdigits xx base sign)"
  by (auto simp: kprintint_def printint_def Let_def putchars_shown check_def split: bind_splits)

lemma kprintptr_loop_shown: "\<not> panicked s \<Longrightarrow> kprintptr_loop n x s = Some (shown (printptr_loop kdigits n x) s)"
  by (induction n arbitrary: x s) (simp_all add: consputc_char)

lemma kprintptr_shown: "\<not> panicked s \<Longrightarrow> kprintptr x s = Some (shown (printptr kdigits x) s)"
  by (simp add: kprintptr_def printptr_def consputc_char kprintptr_loop_shown del: of_char_Char)

lemma consputc_arg:
  assumes "(ucast w :: 32 word) \<noteq> 0x100" and "\<not> panicked s"
  shows "consputc (sint (ucast w :: 32 word)) s = Some (shown [char_of (unat w)] s)"
proof -
  have "sint (ucast w :: 32 word) \<noteq> BACKSPACE"
  proof
    assume "sint (ucast w :: 32 word) = BACKSPACE"
    then have "(of_int (sint (ucast w :: 32 word)) :: 32 word) = 0x100" by (simp add: BACKSPACE_def)
    then show False using assms by simp
  qed
  moreover have "(of_int (sint (ucast w :: 32 word)) :: uint8) = of_char (char_of (unat w))"
  proof -
    have "(of_int (sint (ucast w :: 32 word)) :: uint8) = ucast w"
      by (rule bit_word_eqI) (simp add: bit_simps)
    also have "\<dots> = of_nat (unat w mod 256)"
      by (simp add: word_unat_eq_iff unsigned_ucast_eq unat_of_nat take_bit_eq_mod)
    also have "\<dots> = of_char (char_of (unat w))" by (metis of_char_of of_nat_of_char)
    finally show ?thesis .
  qed
  ultimately show ?thesis using assms(2) by (simp add: consputc_eq echoed_def echo_def shown_def)
qed

lemma kconversion_None: "conversion kdigits c0 c1 c2 = None \<Longrightarrow> kconversion c0 c1 c2 = None"
  unfolding conversion_def kconversion_def by (simp split: if_splits)

lemma kconversion_Some:
  assumes "conversion kdigits c0 c1 c2 = Some (n, f)"
  obtains g where "kconversion c0 c1 c2 = Some (n, g)"
    "\<And>w s. (c0 = CHR ''c'' \<longrightarrow> (ucast w :: 32 word) \<noteq> 0x100) \<Longrightarrow> \<not> panicked s \<Longrightarrow> g w s = map_option (\<lambda>out. shown out s) (f w)"
  using assms unfolding conversion_def kconversion_def
  by (simp add: kprintint_shown kprintptr_shown consputc_arg split: if_splits) fastforce+

text \<open>The arguments that are printed by \<open>%c\<close>.\<close>

function char_args :: "string \<Rightarrow> varg list \<Rightarrow> uint64 list" where
  "char_args fmt ap =
     (case fmt of
        [] \<Rightarrow> []
      | cx # f \<Rightarrow>
          if cx \<noteq> CHR ''%'' then char_args f ap
          else case f of
            [] \<Rightarrow> []
          | c0 # g \<Rightarrow>
              (case conversion kdigits c0 (next_char g) (next_char (tl g)) of
                 Some (n, _) \<Rightarrow>
                   (case ap of
                      Word w # ap' \<Rightarrow> (if c0 = CHR ''c'' then [w] else []) @ char_args (drop (n - 1) g) ap'
                    | _ \<Rightarrow> [])
               | None \<Rightarrow> char_args g (if c0 = CHR ''s'' then tl ap else ap)))"
  by pat_completeness auto
termination by (relation "measure (\<lambda>(fmt, ap). length fmt)") auto

declare char_args.simps [simp del]

definition no_backspace :: "string \<Rightarrow> varg list \<Rightarrow> bool" where
  "no_backspace fmt ap \<longleftrightarrow> (\<forall>w \<in> set (char_args fmt ap). (ucast w :: 32 word) \<noteq> 0x100)"

lemma kprintf_directive:
  fixes s :: "'a cons_state_scheme"
  assumes IH: "\<And>f' ap' out' (s' :: 'a cons_state_scheme). length f' \<le> length g \<Longrightarrow> vprintf kdigits f' ap' = Some out' \<Longrightarrow> no_backspace f' ap'
      \<Longrightarrow> \<not> panicked s' \<Longrightarrow> kprintf_loop f' ap' s' = Some (shown out' s')"
    and v: "vprintf kdigits (CHR ''%'' # c0 # g) ap = Some out" and b: "no_backspace (CHR ''%'' # c0 # g) ap"
    and p: "\<not> panicked s"
  shows "kprintf_loop (CHR ''%'' # c0 # g) ap s = Some (shown out s)"
proof (cases "conversion kdigits c0 (next_char g) (next_char (tl g))")
  case None
  note K = kconversion_None [OF None]
  have b': "no_backspace g (if c0 = CHR ''s'' then tl ap else ap)"
    using b None unfolding no_backspace_def by (subst (asm) char_args.simps) simp
  show ?thesis
  proof (cases "c0 = CHR ''s''")
    case True
    obtain t ap' where ap: "ap = Str t # ap'"
      using v None True by (subst (asm) vprintf.simps) (auto split: list.splits varg.splits)
    then show ?thesis
      using v None True IH [of g ap'] b' p
      by (subst (asm) vprintf.simps, subst kprintf_loop.simps) (auto simp: K [unfolded True] putchars_shown bind_eq_Some_conv)
  next
    case False
    then show ?thesis
      using v None IH [of g ap] b' p
      by (subst (asm) vprintf.simps, subst kprintf_loop.simps)
        (auto simp: K consputc_char bind_eq_Some_conv simp del: of_char_Char split: if_splits)
  qed
next
  case (Some nf)
  obtain n f where nf: "nf = (n, f)" by (cases nf)
  obtain g' :: "uint64 \<Rightarrow> 'a cons_state_scheme \<Rightarrow> 'a cons_state_scheme option" where g': "kconversion c0 (next_char g) (next_char (tl g)) = Some (n, g')"
      "\<And>w s. (c0 = CHR ''c'' \<longrightarrow> (ucast w :: 32 word) \<noteq> 0x100) \<Longrightarrow> \<not> panicked s \<Longrightarrow> g' w s = map_option (\<lambda>out. shown out s) (f w)"
    using Some nf kconversion_Some by metis
  obtain w ap' where ap: "ap = Word w # ap'"
    using v Some nf by (subst (asm) vprintf.simps) (auto split: list.splits varg.splits)
  have b': "c0 = CHR ''c'' \<longrightarrow> (ucast w :: 32 word) \<noteq> 0x100" "no_backspace (drop (n - 1) g) ap'"
    using b Some nf ap unfolding no_backspace_def by (subst (asm) char_args.simps, auto)+
  obtain o1 o2 where o: "f w = Some o1" "vprintf kdigits (drop (n - 1) g) ap' = Some o2" "out = o1 @ o2"
    using v Some nf ap by (subst (asm) vprintf.simps) (auto simp: bind_eq_Some_conv)
  then show ?thesis
    using g' b' ap p IH [of "drop (n - 1) g" ap' o2] by (subst kprintf_loop.simps) simp
qed

lemma kprintf_loop_shown:
  "vprintf kdigits fmt ap = Some out \<Longrightarrow> no_backspace fmt ap \<Longrightarrow> \<not> panicked s \<Longrightarrow> kprintf_loop fmt ap s = Some (shown out s)"
proof (induction "length fmt" arbitrary: fmt ap s out rule: less_induct)
  case less
  note eqv = less.prems(1) [unfolded vprintf.simps [of kdigits fmt ap]]
  show ?case
  proof (cases fmt)
    case Nil
    then show ?thesis using eqv by (subst kprintf_loop.simps) simp
  next
    case (Cons c f)
    show ?thesis
    proof (cases "c = CHR ''%''")
      case False
      then obtain o1 where o1: "vprintf kdigits f ap = Some o1" "out = c # o1" using eqv Cons by (auto simp: bind_eq_Some_conv)
      have "no_backspace f ap" using less.prems(2) Cons False unfolding no_backspace_def by (subst (asm) char_args.simps) simp
      then show ?thesis
        using o1 less.hyps [of f ap o1] less.prems(3) Cons False by (subst kprintf_loop.simps) (simp add: consputc_char)
    next
      case True
      show ?thesis
      proof (cases f)
        case Nil
        then show ?thesis using eqv Cons True by (subst kprintf_loop.simps) simp
      next
        case f: (Cons c0 g)
        show ?thesis
          unfolding Cons f True
          by (rule kprintf_directive) (use less Cons f True in auto)
      qed
    qed
  qed
qed

text \<open>C39.  The kernel's printf.  While the kernel has not panicked, whenever the format and the arguments fit together, printf
  returns 0 with its lock free again, and the characters that appear on the console are those that the user library's
  formatter gives for the same format and arguments, with lower-case digits.  The only exception is an argument of \<open>%c\<close>
  whose low 32 bits are 0x100, the code that consputc takes for a backspace.\<close>

theorem kprintf_correct:
  assumes "vprintf kdigits fmt ap = Some out" and "\<forall>w \<in> set (char_args fmt ap). (ucast w :: 32 word) \<noteq> 0x100"
    and "\<not> panicked s" and "PrLock \<notin> held s \<or> panicking s"
  shows "kprintf fmt ap s = Some (0, s\<lparr>uart_out := uart_out s @ map of_char out\<rparr>)"
proof -
  have nb: "no_backspace fmt ap" using assms(2) by (simp add: no_backspace_def)
  show ?thesis
  proof (cases "panicking s")
    case True
    then show ?thesis using kprintf_loop_shown [OF assms(1) nb assms(3)] by (simp add: kprintf_def) (simp add: shown_def)
  next
    case False
    then show ?thesis
      using assms(3,4) kprintf_loop_shown [OF assms(1) nb, of "s\<lparr>held := insert PrLock (held s)\<rparr>"]
      by (simp add: kprintf_def acq_free rel_held') (simp add: shown_def)
  qed
qed

theorem kprintf_correct_witness:
  "runs (kprintf ''pid %d: %x%c %s'' [Word 256, Word 0xbeef, Word 33, Str None] demo_cons)
     (\<lambda>(r, t). r = 0 \<and> uart_out t = map of_char ''pid 256: beef! (null)'')"
proof -
  let ?fmt = "''pid %d: %x%c %s''" and ?ap = "[Word 256, Word 0xbeef, Word 33, Str None]"
  have n: "numeral_in kdigits 10 256 = ''256''" "numeral_in kdigits 16 48879 = ''beef''"
    by (simp_all add: numeral_in.simps kdigits_def)
  have c: "char_of (33 :: nat) = CHR ''!''" by (simp add: char_of_def bit_0)
  have "vprintf kdigits ?fmt ?ap = Some ''pid 256: beef! (null)''"
    by (simp add: vprintf.simps conversion_def next_char_def va_int_def va_uint32_def n c printint_numeral)
  moreover have "char_args ?fmt ?ap = [33]" by (simp add: char_args.simps conversion_def next_char_def)
  then have "\<forall>w \<in> set (char_args ?fmt ?ap). (ucast w :: 32 word) \<noteq> 0x100" by simp
  moreover have "\<not> panicked demo_cons" "PrLock \<notin> held demo_cons \<or> panicking demo_cons" by (simp_all add: demo_cons_def)
  ultimately have "kprintf ?fmt ?ap demo_cons = Some (0, demo_cons\<lparr>uart_out := uart_out demo_cons @ map of_char ''pid 256: beef! (null)''\<rparr>)"
    by (rule kprintf_correct)
  then show ?thesis by (simp add: demo_cons_def)
qed

end
