(* ===== verification/Grep.thy ===== *)
theory Grep
  imports Ulib
begin

text \<open>
  The \<^verbatim>\<open>grep\<close> program (\<^verbatim>\<open>user/grep.c\<close>).  A pointer into a C string is the rest of the string from there; the
  end of the list is the terminating NUL.  Reading from the file is a parameter: the bytes up to the
  end of the file or the first read error and, for the i-th call, a bound on the number of bytes
  that the call returns.
\<close>

section \<open>The matcher\<close>

function (sequential) matchhere :: "string \<Rightarrow> string \<Rightarrow> bool" and matchstar :: "char \<Rightarrow> string \<Rightarrow> string \<Rightarrow> bool" where
  "matchhere re text =
     (case re of
        [] \<Rightarrow> True
      | c # re' \<Rightarrow>
          if re' \<noteq> [] \<and> hd re' = CHR ''*'' then matchstar c (tl re') text
          else if c = CHR ''$'' \<and> re' = [] then text = []
          else case text of
                 [] \<Rightarrow> False
               | x # text' \<Rightarrow> (c = CHR ''.'' \<or> c = x) \<and> matchhere re' text')"
| "matchstar c re text =
     (matchhere re text \<or>
      (case text of [] \<Rightarrow> False | x # text' \<Rightarrow> (x = c \<or> c = CHR ''.'') \<and> matchstar c re text'))"
  by pat_completeness auto
termination
  by (relation "measures [\<lambda>x. case x of Inl (re, t) \<Rightarrow> length re | Inr (c, re, t) \<Rightarrow> length re,
       \<lambda>x. case x of Inl (re, t) \<Rightarrow> length t | Inr (c, re, t) \<Rightarrow> length t, \<lambda>x. case x of Inl _ \<Rightarrow> 0 | Inr _ \<Rightarrow> 1]")
    (auto simp: neq_Nil_conv)

declare matchhere.simps [simp del] matchstar.simps [simp del]

fun match_from :: "string \<Rightarrow> string \<Rightarrow> bool" where
  "match_from re text = (matchhere re text \<or> (case text of [] \<Rightarrow> False | x # text' \<Rightarrow> match_from re text'))"

declare match_from.simps [simp del]

definition match :: "string \<Rightarrow> string \<Rightarrow> bool" where
  "match re text =
     (case re of c # re' \<Rightarrow> if c = CHR ''^'' then matchhere re' text else match_from re text | [] \<Rightarrow> match_from re text)"

section \<open>Filtering lines\<close>

lemma strchr_length: "strchr s c = Some q \<Longrightarrow> length q \<le> length s \<and> q \<noteq> []"
  by (induction s) (auto split: if_splits)

function grep_lines :: "string \<Rightarrow> string \<Rightarrow> string \<times> string" where
  "grep_lines pattern p =
     (case strchr p newline of
        None \<Rightarrow> ([], p)
      | Some q \<Rightarrow>
          let line = take (length p - length q) p;
              (out, r) = grep_lines pattern (tl q)
          in ((if match pattern line then line @ [newline] else []) @ out, r))"
  by pat_completeness auto
termination
proof (relation "measure (\<lambda>(pattern, p). length p)")
  fix pattern p q x assume "strchr p newline = Some q"
  from strchr_length [OF this] show "((pattern, tl q), pattern, p) \<in> measure (\<lambda>(pattern, p). length p)"
    by (cases q) auto
qed simp

declare grep_lines.simps [simp del]

definition GREP_BUF :: nat where "GREP_BUF = 1024"

function grep :: "string \<Rightarrow> (nat \<Rightarrow> nat) \<Rightarrow> nat \<Rightarrow> string \<Rightarrow> string \<Rightarrow> string" where
  "grep pattern rd i buf inp =
     (let n = min (max 1 (rd i)) (min (GREP_BUF - length buf - 1) (length inp)) in
      if n > 0
      then let (out, p) = grep_lines pattern (buf @ take n inp)
           in out @ grep pattern rd (i + 1) p (drop n inp)
      else [])"
  by pat_completeness auto
termination by (relation "measure (\<lambda>(pattern, rd, i, buf, inp). length inp)") auto

declare grep.simps [simp del]

section \<open>The language of a pattern\<close>

text \<open>A pattern is a sequence of single characters, starred characters and the end anchor; the
  point matches any character.  \<open>means ps s rest\<close>: \<open>ps\<close> matches \<open>s\<close> in front of \<open>rest\<close>.\<close>

datatype item = One char | Star char | End

function items :: "string \<Rightarrow> item list" where
  "items re =
     (case re of
        [] \<Rightarrow> []
      | c # r \<Rightarrow> if r \<noteq> [] \<and> hd r = CHR ''*'' then Star c # items (tl r)
                 else if c = CHR ''$'' \<and> r = [] then [End] else One c # items r)"
  by pat_completeness auto
termination by (relation "measure length") auto

declare items.simps [simp del]

definition fits :: "char \<Rightarrow> char \<Rightarrow> bool" where
  "fits c x \<longleftrightarrow> c = CHR ''.'' \<or> c = x"

inductive means :: "item list \<Rightarrow> string \<Rightarrow> string \<Rightarrow> bool" where
  nothing: "means [] [] rest"
| one: "fits c x \<Longrightarrow> means ps s rest \<Longrightarrow> means (One c # ps) (x # s) rest"
| star: "\<forall>x \<in> set xs. fits c x \<Longrightarrow> means ps s rest \<Longrightarrow> means (Star c # ps) (xs @ s) rest"
| at_end: "means ps [] [] \<Longrightarrow> means (End # ps) [] []"

inductive_simps means_Nil: "means [] s rest"
inductive_simps means_One: "means (One c # ps) s rest"
inductive_simps means_Star: "means (Star c # ps) s rest"
inductive_simps means_End: "means (End # ps) s rest"

definition at_start :: "item list \<Rightarrow> string \<Rightarrow> bool" where
  "at_start ps text \<longleftrightarrow> (\<exists>s rest. text = s @ rest \<and> means ps s rest)"

lemma at_start_Nil: "at_start [] text"
  by (auto simp: at_start_def means_Nil)

lemma at_start_End: "at_start [End] text \<longleftrightarrow> text = []"
  by (auto simp: at_start_def means_End means_Nil)

lemma at_start_One: "at_start (One c # ps) text \<longleftrightarrow> (case text of [] \<Rightarrow> False | x # t \<Rightarrow> fits c x \<and> at_start ps t)"
proof (cases "text")
  case (Cons x t)
  have "at_start (One c # ps) (x # t)" if a: "fits c x" "at_start ps t"
  proof -
    obtain s rest where s: "t = s @ rest" "means ps s rest" using a(2) by (auto simp: at_start_def)
    have "x # t = (x # s) @ rest" "means (One c # ps) (x # s) rest" using s a(1) by (auto intro: means.one)
    then show ?thesis unfolding at_start_def by blast
  qed
  moreover have "fits c x \<and> at_start ps t" if b: "at_start (One c # ps) (x # t)"
  proof -
    obtain s rest where "x # t = (x # s) @ rest" "fits c x" "means ps s rest"
      using b by (auto simp: at_start_def means_One)
    then show ?thesis by (auto simp: at_start_def)
  qed
  ultimately show ?thesis using Cons by auto
qed (simp add: at_start_def means_One)

lemma at_start_Star:
  "at_start (Star c # ps) text \<longleftrightarrow> at_start ps text
     \<or> (case text of [] \<Rightarrow> False | x # t \<Rightarrow> fits c x \<and> at_start (Star c # ps) t)" (is "?L \<longleftrightarrow> ?R")
proof
  assume ?L
  then obtain xs s rest where t: "text = (xs @ s) @ rest" "\<forall>x \<in> set xs. fits c x" "means ps s rest"
    by (auto simp: at_start_def means_Star)
  show ?R
  proof (cases xs)
    case Nil
    then show ?thesis using t by (auto simp: at_start_def)
  next
    case (Cons x ys)
    then have "means (Star c # ps) (ys @ s) rest" using t means.star by auto
    then show ?thesis using t Cons by (auto simp: at_start_def)
  qed
next
  assume ?R
  then show ?L
  proof
    assume "at_start ps text"
    then obtain s rest where "text = s @ rest" "means ps s rest" by (auto simp: at_start_def)
    then show ?L using means.star [of "[]" c ps s rest] by (auto simp: at_start_def)
  next
    assume "case text of [] \<Rightarrow> False | x # t \<Rightarrow> fits c x \<and> at_start (Star c # ps) t"
    then obtain x t xs s rest where x: "text = x # t" "fits c x" "t = (xs @ s) @ rest" "\<forall>x \<in> set xs. fits c x" "means ps s rest"
      by (auto simp: at_start_def means_Star split: list.splits)
    then have "means (Star c # ps) ((x # xs) @ s) rest" by (intro means.star) auto
    moreover have "text = ((x # xs) @ s) @ rest" using x by simp
    ultimately show ?L unfolding at_start_def by blast
  qed
qed

lemma matchhere_at_start:
  "matchhere re text \<longleftrightarrow> at_start (items re) text"
  "matchstar c re text \<longleftrightarrow> at_start (Star c # items re) text"
proof (induction re "text" and c re "text" rule: matchhere_matchstar.induct)
  case (1 re t)
  then show ?case
    by (subst matchhere.simps, subst items.simps)
      (auto simp: at_start_Nil at_start_End at_start_One fits_def split: list.splits)
next
  case (2 c re t)
  then show ?case
    by (subst matchstar.simps, subst at_start_Star) (auto simp: fits_def split: list.splits)
qed

lemma match_from_at: "match_from re text \<longleftrightarrow> (\<exists>pre t. text = pre @ t \<and> at_start (items re) t)"
proof (induction "text")
  case Nil
  then show ?case by (simp add: match_from.simps matchhere_at_start)
next
  case (Cons x text')
  have "(\<exists>pre t. x # text' = pre @ t \<and> at_start (items re) t)
      \<longleftrightarrow> at_start (items re) (x # text') \<or> (\<exists>pre t. text' = pre @ t \<and> at_start (items re) t)"
    by (auto simp: Cons_eq_append_conv)
  then show ?case using Cons by (subst match_from.simps) (simp add: matchhere_at_start)
qed

text \<open>C34.  The matcher of grep finds exactly the texts that its patterns describe: with a leading caret the
  rest of the pattern has to match at the start of the line, otherwise anywhere in it.\<close>

theorem match_correct:
  "match re text \<longleftrightarrow>
     (if re \<noteq> [] \<and> hd re = CHR ''^'' then \<exists>s rest. text = s @ rest \<and> means (items (tl re)) s rest
      else \<exists>pre s rest. text = pre @ s @ rest \<and> means (items re) s rest)"
proof (cases re)
  case Nil
  then show ?thesis by (auto simp: match_def match_from_at at_start_def)
next
  case (Cons c r)
  then show ?thesis by (auto simp: match_def match_from_at matchhere_at_start at_start_def)
qed

section \<open>What grep prints\<close>

function complete_lines :: "string \<Rightarrow> string list" where
  "complete_lines s =
     (case dropWhile (\<lambda>x. x \<noteq> newline) s of [] \<Rightarrow> [] | x # r \<Rightarrow> takeWhile (\<lambda>x. x \<noteq> newline) s # complete_lines r)"
  by pat_completeness auto
termination
proof (relation "measure length")
  fix s x r assume "dropWhile (\<lambda>x. x \<noteq> newline) s = x # r"
  then have "length (x # r) \<le> length s" using length_dropWhile_le [of "\<lambda>x. x \<noteq> newline" s] by simp
  then show "(r, s) \<in> measure length" by simp
qed simp

declare complete_lines.simps [simp del]

definition last_part :: "string \<Rightarrow> string" where
  "last_part s = rev (takeWhile (\<lambda>x. x \<noteq> newline) (rev s))"

lemma line_cases:
  obtains (none) "newline \<notin> set s" | (line) l r where "s = l @ newline # r" and "newline \<notin> set l"
  using split_list_first [of newline s] by blast

lemma complete_lines_none: "newline \<notin> set s \<Longrightarrow> complete_lines s = []"
proof -
  assume "newline \<notin> set s"
  then have *: "dropWhile (\<lambda>x. x \<noteq> newline) s = []" unfolding dropWhile_eq_Nil_conv by blast
  show ?thesis by (subst complete_lines.simps, subst *) simp
qed

lemma complete_lines_line: "newline \<notin> set l \<Longrightarrow> complete_lines (l @ newline # r) = l # complete_lines r"
proof -
  assume "newline \<notin> set l"
  then have "dropWhile (\<lambda>x. x \<noteq> newline) (l @ newline # r) = newline # r"
    "takeWhile (\<lambda>x. x \<noteq> newline) (l @ newline # r) = l" by (induction l) auto
  then show ?thesis by (subst complete_lines.simps) simp
qed

lemma last_part_none: "newline \<notin> set s \<Longrightarrow> last_part s = s"
proof -
  assume "newline \<notin> set s"
  then have *: "takeWhile (\<lambda>x. x \<noteq> newline) (rev s) = rev s" unfolding takeWhile_eq_all_conv set_rev by blast
  show ?thesis unfolding last_part_def * by simp
qed

lemma last_part_line: "last_part (l @ newline # r) = last_part r"
  by (simp add: last_part_def takeWhile_tail)

lemma last_part_subset: "set (last_part s) \<subseteq> set s"
  unfolding last_part_def using set_takeWhileD by fastforce

lemma last_part_set: "newline \<notin> set (last_part s)"
  unfolding last_part_def by (auto dest: set_takeWhileD)

lemma strchr_none: "c \<notin> set s \<Longrightarrow> strchr s c = None"
  by (induction s) auto

lemma strchr_line: "c \<notin> set l \<Longrightarrow> CHR 0x00 \<notin> set l \<Longrightarrow> c \<noteq> CHR 0x00 \<Longrightarrow> strchr (l @ c # r) c = Some (c # r)"
  by (induction l) auto

definition wanted :: "string \<Rightarrow> string list \<Rightarrow> string" where
  "wanted pattern ls = concat (map (\<lambda>l. if match pattern l then l @ [newline] else []) ls)"

lemma grep_lines_correct: "CHR 0x00 \<notin> set s \<Longrightarrow> grep_lines pattern s = (wanted pattern (complete_lines s), last_part s)"
proof (induction "length s" arbitrary: s rule: less_induct)
  case less
  show ?case
  proof (cases s rule: line_cases)
    case none
    then show ?thesis
      by (subst grep_lines.simps) (simp add: strchr_none complete_lines_none last_part_none wanted_def)
  next
    case (line l r)
    have "grep_lines pattern r = (wanted pattern (complete_lines r), last_part r)" using less line by simp
    moreover have "strchr s newline = Some (newline # r)" using strchr_line [of newline l r] less.prems line by simp
    ultimately show ?thesis
      using line by (subst grep_lines.simps) (simp add: complete_lines_line last_part_line wanted_def)
  qed
qed

lemma complete_lines_append: "complete_lines (s @ t) = complete_lines s @ complete_lines (last_part s @ t)"
proof (induction "length s" arbitrary: s rule: less_induct)
  case less
  show ?case
  proof (cases s rule: line_cases)
    case none
    then show ?thesis by (simp add: complete_lines_none last_part_none)
  next
    case (line l r)
    then have "complete_lines (r @ t) = complete_lines r @ complete_lines (last_part r @ t)" using less by simp
    then show ?thesis using line by (simp add: complete_lines_line last_part_line)
  qed
qed

lemma complete_line_fits: "l \<in> set (complete_lines s) \<Longrightarrow> length l < length s"
proof (induction "length s" arbitrary: s rule: less_induct)
  case less
  show ?case
  proof (cases s rule: line_cases)
    case none
    then show ?thesis using less.prems by (simp add: complete_lines_none)
  next
    case (line k r)
    then have "l = k \<or> l \<in> set (complete_lines r)" using less.prems by (simp add: complete_lines_line)
    moreover have "length l < length r" if "l \<in> set (complete_lines r)" using less.hyps [OF _ that] line by simp
    ultimately show ?thesis using line by auto
  qed
qed

lemma full_buffer:
  assumes "newline \<notin> set buf" and "GREP_BUF - length buf - 1 = 0"
  shows "takeWhile (\<lambda>l. length l + 1 < GREP_BUF) (complete_lines (buf @ inp)) = []"
proof (cases inp rule: line_cases)
  case none
  then have "complete_lines (buf @ inp) = []" using assms(1) by (intro complete_lines_none) auto
  then show ?thesis by simp
next
  case (line l r)
  then have "complete_lines (buf @ inp) = (buf @ l) # complete_lines r"
    using complete_lines_line [of "buf @ l" r] assms(1) by simp
  then show ?thesis using assms(2) by simp
qed

text \<open>The output on any text: the matching ones among the lines before the first that does not fit.\<close>

lemma grep_output:
  assumes "newline \<notin> set buf" and "length buf < GREP_BUF" and "CHR 0x00 \<notin> set (buf @ inp)"
  shows "grep pattern rd i buf inp = wanted pattern (takeWhile (\<lambda>l. length l + 1 < GREP_BUF) (complete_lines (buf @ inp)))"
  using assms
proof (induction "length inp" arbitrary: buf inp i rule: less_induct)
  case less
  let ?short = "\<lambda>l :: string. length l + 1 < GREP_BUF"
  define n where "n = min (max 1 (rd i)) (min (GREP_BUF - length buf - 1) (length inp))"
  have step: "grep pattern rd i buf inp =
      (if n > 0 then let (out, p) = grep_lines pattern (buf @ take n inp) in out @ grep pattern rd (i + 1) p (drop n inp)
       else [])"
    by (subst grep.simps) (simp only: Let_def n_def)
  show ?case
  proof (cases "n = 0")
    case True
    then have "inp = [] \<or> GREP_BUF - length buf - 1 = 0" by (auto simp: n_def min_def split: if_splits)
    then have "takeWhile ?short (complete_lines (buf @ inp)) = []"
      using full_buffer [OF less.prems(1)] complete_lines_none [OF less.prems(1)] by auto
    then show ?thesis using True by (simp add: step wanted_def)
  next
    case False
    let ?b = "buf @ take n inp"
    have n: "n \<le> length inp" "n \<le> GREP_BUF - length buf - 1" by (simp_all add: n_def)
    then have lb: "length ?b < GREP_BUF" using less.prems(2) by simp
    have split: "complete_lines (buf @ inp) = complete_lines ?b @ complete_lines (last_part ?b @ drop n inp)"
      using complete_lines_append [of ?b "drop n inp"] by simp
    have "?short l" if "l \<in> set (complete_lines ?b)" for l using complete_line_fits [OF that] lb by linarith
    then have tw: "takeWhile ?short (complete_lines (buf @ inp))
        = complete_lines ?b @ takeWhile ?short (complete_lines (last_part ?b @ drop n inp))"
      unfolding split by (simp add: takeWhile_append2)
    have "length (last_part ?b) \<le> length ?b"
      unfolding last_part_def using length_takeWhile_le [of "\<lambda>x. x \<noteq> newline" "rev ?b"] by simp
    then have small: "length (last_part ?b) < GREP_BUF" using lb by linarith
    have dec: "length (drop n inp) < length inp" using False n by simp
    have nul: "CHR 0x00 \<notin> set ?b" using less.prems(3) by (auto dest: in_set_takeD)
    have "CHR 0x00 \<notin> set (last_part ?b @ drop n inp)"
      using nul less.prems(3) last_part_subset [of ?b] by (auto dest: in_set_dropD)
    from less.hyps [OF dec last_part_set small this] show ?thesis
      unfolding tw step using False by (simp only: grep_lines_correct [OF nul]) (simp add: wanted_def)
  qed
qed

text \<open>C35.  grep prints the lines that match, in order.  However the input arrives in pieces, when no line is
  longer than the buffer allows and the input is text without NUL bytes, the output is the concatenation of the matching lines of the
  input; the pieces of lines left in the buffer between reads are never lost or duplicated.\<close>

theorem grep_prints_matching_lines:
  assumes "\<forall>l \<in> set (complete_lines (buf @ inp)). length l + 1 < GREP_BUF" and "newline \<notin> set buf"
    and "length buf < GREP_BUF" and "CHR 0x00 \<notin> set (buf @ inp)"
  shows "grep pattern rd i buf inp = wanted pattern (complete_lines (buf @ inp))"
proof -
  have all: "takeWhile (\<lambda>l. length l + 1 < GREP_BUF) (complete_lines (buf @ inp)) = complete_lines (buf @ inp)"
    using assms(1) by (simp add: takeWhile_eq_all_conv)
  show ?thesis unfolding grep_output [OF assms(2-4)] all ..
qed

theorem grep_prints_matching_lines_witness:
  "grep ''^a*b$'' (\<lambda>i. i + 2) 0 [] (''aab'' @ [newline] @ ''abc'' @ [newline] @ ''b'' @ [newline])
    = ''aab'' @ [newline] @ ''b'' @ [newline]"
proof -
  let ?inp = "''aab'' @ [newline] @ ''abc'' @ [newline] @ ''b'' @ [newline]"
  have l: "complete_lines ?inp = [''aab'', ''abc'', ''b'']"
    using complete_lines_line [of "''aab''" "''abc'' @ [newline] @ ''b'' @ [newline]"]
      complete_lines_line [of "''abc''" "''b'' @ [newline]"] complete_lines_line [of "''b''" "[]"] complete_lines_none [of "[]"]
    by simp
  have "grep ''^a*b$'' (\<lambda>i. i + 2) 0 [] ?inp = wanted ''^a*b$'' (complete_lines ([] @ ?inp))"
    by (rule grep_prints_matching_lines) (simp_all add: l [simplified] GREP_BUF_def)
  also have "\<dots> = ''aab'' @ [newline] @ ''b'' @ [newline]"
    by (simp add: l [simplified] wanted_def match_def matchhere.simps matchstar.simps)
  finally show ?thesis .
qed

text \<open>C40.  A line that does not fit ends the output.  When the input contains a line of \<open>GREP_BUF - 1\<close> bytes or more, grep
  prints the matching ones among the lines before it and stops there: the long line and everything after it are
  ignored, matching lines included, however the input arrives in pieces.\<close>

theorem grep_stops_at_long_line:
  assumes "complete_lines inp = ls @ l # rest" and "\<forall>k \<in> set ls. length k + 1 < GREP_BUF" and "GREP_BUF \<le> length l + 1"
    and "CHR 0x00 \<notin> set inp"
  shows "grep pattern rd i [] inp = wanted pattern ls"
proof -
  have "takeWhile (\<lambda>l. length l + 1 < GREP_BUF) (complete_lines inp) = ls"
    using assms(1-3) by (simp add: takeWhile_append2)
  then show ?thesis using grep_output [of "[]" inp pattern rd i] assms(4) by (simp add: GREP_BUF_def)
qed

theorem grep_stops_at_long_line_witness:
  "grep ''^b'' (\<lambda>_. 512) 0 [] (''b'' @ [newline] @ replicate 1023 CHR ''b'' @ [newline] @ ''b'' @ [newline]) = ''b'' @ [newline]"
proof -
  let ?inp = "''b'' @ [newline] @ replicate 1023 CHR ''b'' @ [newline] @ ''b'' @ [newline]"
  have "newline \<notin> set ''b''" "newline \<notin> set (replicate 1023 CHR ''b'')" "CHR 0x00 \<notin> set ?inp" by simp_all
  then have l: "complete_lines ?inp = [''b''] @ replicate 1023 CHR ''b'' # [''b'']"
    using complete_lines_line [of "''b''" "replicate 1023 CHR ''b'' @ [newline] @ ''b'' @ [newline]"]
      complete_lines_line [of "replicate 1023 CHR ''b''" "''b'' @ [newline]"] complete_lines_line [of "''b''" "[]"]
      complete_lines_none [of "[]"]
    by simp
  have "grep ''^b'' (\<lambda>_. 512) 0 [] ?inp = wanted ''^b'' [''b'']"
    by (rule grep_stops_at_long_line [OF l]) (use \<open>CHR 0x00 \<notin> set ?inp\<close> in \<open>simp_all add: GREP_BUF_def\<close>)
  then show ?thesis by (simp add: wanted_def match_def matchhere.simps matchstar.simps)
qed

end
