(* ===== verification/Sh.thy ===== *)
theory Sh
  imports Ulib "HOL-Library.Sublist"
begin

text \<open>
  The command parser of the shell (\<^verbatim>\<open>user/sh.c\<close>).  A pointer into the line is the rest of the line from
  there, so the end of the line \<open>es\<close> is the empty list; a word is the pair of the pointers to its
  first character and behind its last one.  Commands are trees whose leaves are such words.  A parsing
  function returns its result with the advanced pointer, or \<open>Panicked\<close> with the message with which the shell
  exits; memory allocation is taken to succeed.  \<open>parseline\<close> and \<open>parsepipe\<close> are recursive through \<open>parseblock\<close>; they
  carry a bound on the depth, \<open>Stuck\<close> is running out of it, and \<open>parsecmd\<close> gives one more than the length of
  the line, which is shown to be enough for every line.
\<close>

section \<open>Commands\<close>

definition MAXARGS :: nat where "MAXARGS = 10"

datatype 'w cmd =
    EXEC "'w list"
  | REDIR "'w cmd" 'w int int
  | PIPE "'w cmd" "'w cmd"
  | LIST "'w cmd" "'w cmd"
  | BACK "'w cmd"

type_synonym word_ptrs = "string \<times> string"

datatype 'a result = Panicked string | Stuck | Ret 'a

definition andthen :: "'a result \<Rightarrow> ('a \<Rightarrow> 'b result) \<Rightarrow> 'b result" where
  "andthen r f = (case r of Panicked m \<Rightarrow> Panicked m | Stuck \<Rightarrow> Stuck | Ret x \<Rightarrow> f x)"

text \<open>\<open>cmd->argv[argc] = q; cmd->eargv[argc] = eq\<close>, where \<open>cmd\<close> points to the node inside the redirections
  that have been put around it.\<close>

fun store_arg :: "'w \<Rightarrow> 'w cmd \<Rightarrow> 'w cmd" where
  "store_arg w (EXEC args) = EXEC (args @ [w])"
| "store_arg w (REDIR c f mode fd) = REDIR (store_arg w c) f mode fd"
| "store_arg w c = c"

section \<open>Tokens\<close>

definition whitespace :: string where
  "whitespace = [CHR '' '', CHR 0x09, CHR 0x0D, CHR 0x0A, CHR 0x0B]"

definition symbols :: string where
  "symbols = ''<|>&;()''"

fun skip :: "string \<Rightarrow> string" where
  "skip [] = []"
| "skip (c # s) = (if strchr whitespace c \<noteq> None then skip s else c # s)"

fun end_of_word :: "string \<Rightarrow> string" where
  "end_of_word [] = []"
| "end_of_word (c # s) =
     (if strchr whitespace c = None \<and> strchr symbols c = None then end_of_word s else c # s)"

definition gettoken :: "string \<Rightarrow> char \<times> string \<times> string \<times> string" where
  "gettoken ps =
     (let q = skip ps;
          (ret, eq) =
            (case q of
               [] \<Rightarrow> (CHR 0x00, q)
             | c # s \<Rightarrow>
                 if c \<in> set ''|();&<'' then (c, s)
                 else if c = CHR ''>'' then
                   (case s of
                      [] \<Rightarrow> (c, s)
                    | c' # s' \<Rightarrow> if c' = CHR ''>'' then (CHR ''+'', s') else (c, s))
                 else (CHR ''a'', end_of_word q))
      in (ret, q, eq, skip eq))"

definition peek :: "string \<Rightarrow> string \<Rightarrow> bool \<times> string" where
  "peek toks ps =
     (let s = skip ps in (case s of [] \<Rightarrow> False | c # _ \<Rightarrow> strchr toks c \<noteq> None, s))"

lemma skip_length: "length (skip s) \<le> length s"
  by (induction s) auto

lemma end_of_word_length: "length (end_of_word s) \<le> length s"
  by (induction s) auto

lemma skip_nonspace: "skip s = c # t \<Longrightarrow> strchr whitespace c = None"
  by (induction s) (auto split: if_splits)

lemma in_strchr: "CHR 0x00 \<notin> set s \<Longrightarrow> strchr s c = None \<longleftrightarrow> c \<notin> set s"
  by (induction s) auto

lemma strchr_symbols: "strchr symbols c = None \<longleftrightarrow> c \<notin> set ''|();&<'' \<and> c \<noteq> CHR ''>''"
  by (subst in_strchr) (auto simp: symbols_def)

lemma gettoken_cases:
  assumes "gettoken ps = (ret, q, eq, s)"
  obtains (none) "skip ps = []" "ret = CHR 0x00" "q = []" "eq = []" "s = []"
  | (sym) c t where "skip ps = c # t" "ret = c" "c \<in> set ''|();&<>''" "q = c # t" "eq = t" "s = skip t"
  | (append) t where "skip ps = CHR ''>'' # CHR ''>'' # t" "ret = CHR ''+''" "q = skip ps" "eq = t" "s = skip t"
  | (ordinary) c t where "skip ps = c # t" "ret = CHR ''a''" "strchr whitespace c = None" "strchr symbols c = None"
      "q = c # t" "eq = end_of_word t" "s = skip eq"
proof (cases "skip ps")
  case Nil
  then show ?thesis using assms none by (simp add: gettoken_def)
next
  case (Cons c t)
  note w = skip_nonspace [OF Cons]
  have sym': ?thesis if "gettoken ps = (c, c # t, t, skip t)" "c \<in> set ''|();&<>''"
  proof -
    have e: "ret = c" "q = c # t" "eq = t" "s = skip t" using assms that(1) by auto
    show ?thesis by (rule sym [OF Cons e(1) that(2) e(2-4)])
  qed
  consider "c \<in> set ''|();&<''" | "c = CHR ''>''" | "strchr symbols c = None" using strchr_symbols [of c] by argo
  then show ?thesis
  proof cases
    case 1
    then have "c \<in> set ''|();&<>''" by auto
    moreover have "gettoken ps = (c, c # t, t, skip t)" unfolding gettoken_def Cons Let_def using 1 by (simp only: list.case if_True prod.case)
    ultimately show ?thesis by (intro sym')
  next
    case 2
    show ?thesis
    proof (cases "\<exists>t'. t = CHR ''>'' # t'")
      case True
      then obtain t' where t': "t = CHR ''>'' # t'" by blast
      then have "gettoken ps = (CHR ''+'', skip ps, t', skip t')" using Cons 2 by (simp add: gettoken_def)
      then show ?thesis using assms Cons 2 t' append [of t'] by simp
    next
      case False
      then have "gettoken ps = (c, c # t, t, skip t)" using Cons 2 by (cases t) (auto simp: gettoken_def)
      then show ?thesis using 2 by (intro sym') simp_all
    qed
  next
    case 3
    then have n: "c \<notin> set ''|();&<'' \<and> c \<noteq> CHR ''>''" unfolding strchr_symbols .
    have "gettoken ps = (CHR ''a'', c # t, end_of_word (c # t), skip (end_of_word (c # t)))"
      unfolding gettoken_def Cons Let_def by (simp only: list.case n if_False prod.case)
    moreover have "end_of_word (c # t) = end_of_word t" using w 3 by simp
    ultimately have e: "ret = CHR ''a''" "q = c # t" "eq = end_of_word t" "s = skip eq" using assms by auto
    show ?thesis by (rule ordinary [OF Cons e(1) w 3 e(2-4)])
  qed
qed

lemma gettoken_length:
  assumes "gettoken ps = (ret, q, eq, s)"
  shows "length s \<le> length ps" and "ret \<noteq> CHR 0x00 \<Longrightarrow> length s < length ps"
proof -
  have l: "length (skip ps) \<le> length ps" by (rule skip_length)
  have m: "length (skip eq) \<le> length eq" by (rule skip_length)
  have "length s \<le> length ps \<and> (ret \<noteq> CHR 0x00 \<longrightarrow> length s < length ps)"
  proof (cases rule: gettoken_cases [OF assms])
    case 1
    then show ?thesis by simp
  next
    case (2 c t)
    then show ?thesis using l m by simp
  next
    case (3 t)
    then show ?thesis using l m by simp
  next
    case (4 c t)
    then show ?thesis using l m end_of_word_length [of t] by simp
  qed
  then show "length s \<le> length ps" "ret \<noteq> CHR 0x00 \<Longrightarrow> length s < length ps" by auto
qed

lemma peek_True:
  assumes "peek toks ps = (True, s)"
  obtains c t where "s = c # t" "skip ps = s" "strchr toks c \<noteq> None"
  using assms by (auto simp: peek_def Let_def split: list.splits)

lemma skip_skip [simp]: "skip (skip s) = skip s"
  by (induction s) auto

lemma one_token:
  assumes "peek toks ps = (True, s)" and "gettoken s = (ret, q, eq, s')"
  shows "length s' < length ps"
proof -
  obtain c t where c: "s = c # t" "skip ps = s" using assms(1) by (rule peek_True)
  then have "skip s = s" using skip_skip [of ps] by simp
  then have "ret = CHR 0x00 \<Longrightarrow> False" using assms(2) c skip_nonspace [of ps c t]
    by (cases rule: gettoken_cases [OF assms(2)]) auto
  then have "length s' < length s" using gettoken_length(2) [OF assms(2)] by blast
  then show ?thesis using c skip_length [of ps] by simp
qed

lemma two_tokens:
  assumes "peek toks ps = (True, s)" and "gettoken s = (ret, q, eq, s')" and "gettoken s' = (ret', q', eq', s'')"
  shows "length s'' < length ps"
  using one_token [OF assms(1,2)] gettoken_length(1) [OF assms(3)] by simp

section \<open>The parser\<close>

text \<open>The mode bits are those of \<^verbatim>\<open>fcntl.h\<close>: \<open>O_RDONLY\<close> is 0, \<open>O_WRONLY | O_CREATE | O_TRUNC\<close> is 0x601,
  \<open>O_WRONLY | O_CREATE\<close> is 0x201.\<close>

function parseredirs :: "word_ptrs cmd \<Rightarrow> string \<Rightarrow> (word_ptrs cmd \<times> string) result" where
  "parseredirs cmd ps =
     (let (more, ps) = peek ''<>'' ps in
      if more
      then let (tok, _, _, ps) = gettoken ps;
               (ret, q, eq, ps) = gettoken ps in
           if ret \<noteq> CHR ''a'' then Panicked ''missing file for redirection''
           else if tok = CHR ''<'' then parseredirs (REDIR cmd (q, eq) 0 0) ps
           else if tok = CHR ''>'' then parseredirs (REDIR cmd (q, eq) 0x601 1) ps
           else if tok = CHR ''+'' then parseredirs (REDIR cmd (q, eq) 0x201 1) ps
           else parseredirs cmd ps
      else Ret (cmd, ps))"
  by pat_completeness auto
termination
proof (relation "measure (\<lambda>(cmd, ps). length ps)")
qed (auto intro: two_tokens [OF sym sym sym])

declare parseredirs.simps [simp del]

function parseargs :: "nat \<Rightarrow> word_ptrs cmd \<Rightarrow> string \<Rightarrow> (word_ptrs cmd \<times> string) result" where
  "parseargs argc ret ps =
     (let (stop, ps) = peek ''|)&;'' ps in
      if stop then Ret (ret, ps)
      else let (tok, q, eq, ps) = gettoken ps in
           if tok = CHR 0x00 then Ret (ret, ps)
           else if tok \<noteq> CHR ''a'' then Panicked ''syntax''
           else let ret = store_arg (q, eq) ret; argc = argc + 1 in
                if argc \<ge> MAXARGS then Panicked ''too many args''
                else andthen (parseredirs ret ps) (\<lambda>(ret, ps). parseargs argc ret ps))"
  by pat_completeness auto
termination by (relation "measure (\<lambda>(argc, ret, ps). MAXARGS - argc)") auto

declare parseargs.simps [simp del]

definition parseblock :: "(string \<Rightarrow> (word_ptrs cmd \<times> string) result) \<Rightarrow> string \<Rightarrow> (word_ptrs cmd \<times> string) result" where
  "parseblock parseline ps =
     (let (opened, ps) = peek ''('' ps in
      if \<not> opened then Panicked ''parseblock''
      else let (_, _, _, ps) = gettoken ps in
           andthen (parseline ps) (\<lambda>(cmd, ps).
             let (closed, ps) = peek '')'' ps in
             if \<not> closed then Panicked ''syntax - missing )''
             else let (_, _, _, ps) = gettoken ps in parseredirs cmd ps))"

definition parseexec :: "(string \<Rightarrow> (word_ptrs cmd \<times> string) result) \<Rightarrow> string \<Rightarrow> (word_ptrs cmd \<times> string) result" where
  "parseexec parseline ps =
     (let (opened, ps) = peek ''('' ps in
      if opened then parseblock parseline ps
      else andthen (parseredirs (EXEC []) ps) (\<lambda>(ret, ps). parseargs 0 ret ps))"

fun parsepipe :: "(string \<Rightarrow> (word_ptrs cmd \<times> string) result) \<Rightarrow> nat \<Rightarrow> string \<Rightarrow> (word_ptrs cmd \<times> string) result" where
  "parsepipe parseline 0 ps = Stuck"
| "parsepipe parseline (Suc n) ps =
     andthen (parseexec parseline ps) (\<lambda>(cmd, ps).
       let (more, ps) = peek ''|'' ps in
       if more
       then let (_, _, _, ps) = gettoken ps in
            andthen (parsepipe parseline n ps) (\<lambda>(right, ps). Ret (PIPE cmd right, ps))
       else Ret (cmd, ps))"

function parseback :: "word_ptrs cmd \<Rightarrow> string \<Rightarrow> word_ptrs cmd \<times> string" where
  "parseback cmd ps =
     (let (more, ps) = peek ''&'' ps in
      if more then let (_, _, _, ps) = gettoken ps in parseback (BACK cmd) ps else (cmd, ps))"
  by pat_completeness auto
termination
proof (relation "measure (\<lambda>(cmd, ps). length ps)")
qed (auto intro: one_token [OF sym sym])

declare parseback.simps [simp del]

fun parseline :: "nat \<Rightarrow> string \<Rightarrow> (word_ptrs cmd \<times> string) result" where
  "parseline 0 ps = Stuck"
| "parseline (Suc n) ps =
     andthen (parsepipe (parseline n) (Suc n) ps) (\<lambda>(cmd, ps).
       let (cmd, ps) = parseback cmd ps;
           (more, ps) = peek '';'' ps in
       if more
       then let (_, _, _, ps) = gettoken ps in
            andthen (parseline n ps) (\<lambda>(right, ps). Ret (LIST cmd right, ps))
       else Ret (cmd, ps))"

text \<open>The line buffer with its terminating NUL.  A pointer \<open>p\<close> into the line \<open>s\<close> is the index \<open>length s - length p\<close>.\<close>

primrec nulterminate :: "string \<Rightarrow> word_ptrs cmd \<Rightarrow> string \<Rightarrow> string" where
  "nulterminate s (EXEC args) m = fold (\<lambda>(q, eq) m. m[length s - length eq := CHR 0x00]) args m"
| "nulterminate s (REDIR c f mode fd) m = (nulterminate s c m)[length s - length (snd f) := CHR 0x00]"
| "nulterminate s (PIPE l r) m = nulterminate s r (nulterminate s l m)"
| "nulterminate s (LIST l r) m = nulterminate s r (nulterminate s l m)"
| "nulterminate s (BACK c) m = nulterminate s c m"

definition parsecmd :: "string \<Rightarrow> (word_ptrs cmd \<times> string) result" where
  "parsecmd s =
     andthen (parseline (Suc (length s)) s) (\<lambda>(cmd, ps).
       let (_, ps) = peek '''' ps in
       if ps \<noteq> [] then Panicked ''syntax''
       else Ret (cmd, nulterminate s cmd (s @ [CHR 0x00])))"

section \<open>What the parser returns\<close>

definition ordinary_char :: "char \<Rightarrow> bool" where
  "ordinary_char c \<longleftrightarrow> c \<noteq> CHR 0x00 \<and> strchr whitespace c = None \<and> strchr symbols c = None"

text \<open>The two pointers of a word enclose a maximal non-empty run of ordinary characters of the line.\<close>

definition word_ok :: "string \<Rightarrow> word_ptrs \<Rightarrow> bool" where
  "word_ok s w \<longleftrightarrow> (\<exists>u v. fst w = v @ snd w \<and> s = u @ fst w \<and> v \<noteq> [] \<and> (\<forall>c \<in> set v. ordinary_char c)
     \<and> (snd w = [] \<or> \<not> ordinary_char (hd (snd w))))"

primrec args_ok :: "'w cmd \<Rightarrow> bool" where
  "args_ok (EXEC args) = (length args < MAXARGS)"
| "args_ok (REDIR c f mode fd) = args_ok c"
| "args_ok (PIPE l r) = (args_ok l \<and> args_ok r)"
| "args_ok (LIST l r) = (args_ok l \<and> args_ok r)"
| "args_ok (BACK c) = args_ok c"

definition cmd_ok :: "string \<Rightarrow> word_ptrs cmd \<Rightarrow> bool" where
  "cmd_ok s c \<longleftrightarrow> args_ok c \<and> (\<forall>w \<in> set_cmd c. word_ok s w)"

definition messages :: "string set" where
  "messages = {''missing file for redirection'', ''syntax'', ''too many args'', ''parseblock'', ''syntax - missing )''}"

definition returns :: "'a result \<Rightarrow> ('a \<Rightarrow> bool) \<Rightarrow> bool" where
  "returns r P \<longleftrightarrow> (case r of Panicked m \<Rightarrow> m \<in> messages | Stuck \<Rightarrow> False | Ret x \<Rightarrow> P x)"

lemma returns_simps [simp]:
  "returns (Ret x) P \<longleftrightarrow> P x" "returns (Panicked m) P \<longleftrightarrow> m \<in> messages" "\<not> returns Stuck P"
  by (simp_all add: returns_def)

lemma returns_andthen: "returns r P \<Longrightarrow> (\<And>x. P x \<Longrightarrow> returns (f x) Q) \<Longrightarrow> returns (andthen r f) Q"
  by (cases r) (simp_all add: andthen_def)

lemma returns_mono: "returns r P \<Longrightarrow> (\<And>x. P x \<Longrightarrow> Q x) \<Longrightarrow> returns r Q"
  by (cases r) simp_all

lemma messages_simps [simp]:
  "''missing file for redirection'' \<in> messages" "''syntax'' \<in> messages" "''too many args'' \<in> messages"
  "''parseblock'' \<in> messages" "''syntax - missing )'' \<in> messages"
  by (simp_all add: messages_def)

lemma skip_suffix: "\<exists>u. s = u @ skip s"
  by (induction s) (auto, metis append_Cons)

lemma end_of_word_split: "\<exists>u. s = u @ end_of_word s \<and> (\<forall>c \<in> set u. strchr whitespace c = None \<and> strchr symbols c = None)
    \<and> (end_of_word s = [] \<or> \<not> ordinary_char (hd (end_of_word s)))"
proof (induction s)
  case (Cons c s)
  then obtain u where u: "s = u @ end_of_word s" "\<forall>c \<in> set u. strchr whitespace c = None \<and> strchr symbols c = None"
    "end_of_word s = [] \<or> \<not> ordinary_char (hd (end_of_word s))" by blast
  show ?case
  proof (cases "strchr whitespace c = None \<and> strchr symbols c = None")
    case True
    then have "c # s = (c # u) @ end_of_word (c # s)" using u(1) by simp
    then show ?thesis using True u by (intro exI [of _ "c # u"]) auto
  next
    case False
    then have "end_of_word (c # s) = c # s" "\<not> ordinary_char c" by (auto simp: ordinary_char_def)
    then show ?thesis by auto
  qed
qed simp

lemma peek_rest: "peek toks ps = (b, s) \<Longrightarrow> suffix s ps"
  using skip_suffix by (auto simp: peek_def Let_def suffix_def)

lemma word_ok_suffix: "word_ok s w \<Longrightarrow> suffix s t \<Longrightarrow> word_ok t w"
  unfolding word_ok_def suffix_def by (metis append.assoc)

lemma cmd_ok_suffix: "cmd_ok s c \<Longrightarrow> suffix s t \<Longrightarrow> cmd_ok t c"
  unfolding cmd_ok_def using word_ok_suffix by blast

lemma gettoken_rest:
  assumes "gettoken ps = (ret, q, eq, s)"
  shows "suffix s ps"
proof -
  have "\<exists>u. q = u @ eq"
  proof (cases rule: gettoken_cases [OF assms])
    case (4 c t)
    obtain u where "t = u @ end_of_word t" using end_of_word_split [of t] by blast
    then have "q = (c # u) @ eq" using 4 by simp
    then show ?thesis by blast
  qed simp_all
  then have "suffix eq q" by (simp add: suffix_def)
  moreover have "q = skip ps" "s = skip eq" by (cases rule: gettoken_cases [OF assms]; simp)+
  moreover have "suffix (skip x) x" for x using skip_suffix [of x] by (simp add: suffix_def)
  ultimately show ?thesis by (metis suffix_order.trans)
qed

lemma gettoken_word:
  assumes "gettoken ps = (CHR ''a'', q, eq, s)" and "CHR 0x00 \<notin> set ps"
  shows "word_ok ps (q, eq)"
proof -
  have "\<exists>c t. skip ps = c # t \<and> strchr whitespace c = None \<and> strchr symbols c = None \<and> q = c # t \<and> eq = end_of_word t"
  proof (cases rule: gettoken_cases [OF assms(1)])
    case (2 c t)
    from 2(3) have False unfolding 2(2) [symmetric] by simp
    then show ?thesis ..
  qed simp_all
  then obtain c t where t: "skip ps = c # t" "strchr whitespace c = None" "strchr symbols c = None" "q = c # t" "eq = end_of_word t"
    by blast
  obtain u where u: "t = u @ end_of_word t" "\<forall>c \<in> set u. strchr whitespace c = None \<and> strchr symbols c = None"
    "end_of_word t = [] \<or> \<not> ordinary_char (hd (end_of_word t))" using end_of_word_split by blast
  obtain p where p: "ps = p @ q" using skip_suffix [of ps] t(1,4) by auto
  have "q = (c # u) @ eq" using t u(1) by simp
  moreover have "\<forall>x \<in> set (c # u). ordinary_char x" using u(2) t(2,3) assms(2) p calculation by (auto simp: ordinary_char_def)
  ultimately show ?thesis
    unfolding word_ok_def using p u(3) t(5) by (intro exI [of _ p] exI [of _ "c # u"]) simp
qed

fun simple_args :: "'w cmd \<Rightarrow> nat option" where
  "simple_args (EXEC args) = Some (length args)"
| "simple_args (REDIR c f mode fd) = simple_args c"
| "simple_args c = None"

lemma store_arg_args: "simple_args c = Some n \<Longrightarrow> simple_args (store_arg w c) = Some (Suc n)"
  by (induction w c rule: store_arg.induct) simp_all

lemma store_arg_ok: "simple_args c = Some n \<Longrightarrow> Suc n < MAXARGS \<Longrightarrow> cmd_ok t c \<Longrightarrow> word_ok t w \<Longrightarrow> cmd_ok t (store_arg w c)"
  by (induction w c rule: store_arg.induct) (simp_all add: cmd_ok_def ball_Un)

definition parses :: "string \<Rightarrow> string \<Rightarrow> (word_ptrs cmd \<times> string) result \<Rightarrow> bool" where
  "parses t s r \<longleftrightarrow> returns r (\<lambda>(c, s'). cmd_ok t c \<and> suffix s' s)"

lemma parses_suffix: "parses t s' r \<Longrightarrow> suffix s' s \<Longrightarrow> parses t s r"
  unfolding parses_def by (cases r) (auto simp: suffix_def)

lemma no_nul_suffix: "suffix s t \<Longrightarrow> CHR 0x00 \<notin> set t \<Longrightarrow> CHR 0x00 \<notin> set s"
  by (auto dest: set_mono_suffix)

lemma parseredirs_ok:
  assumes "CHR 0x00 \<notin> set t" and "suffix s t" and "cmd_ok t c"
  shows "returns (parseredirs c s) (\<lambda>(c', s'). cmd_ok t c' \<and> suffix s' s \<and> simple_args c' = simple_args c)"
  using assms(2,3)
proof (induction "length s" arbitrary: c s rule: less_induct)
  case less
  obtain more s1 where p: "peek ''<>'' s = (more, s1)" by (cases "peek ''<>'' s")
  obtain tok q1 eq1 s2 where g: "gettoken s1 = (tok, q1, eq1, s2)" by (cases "gettoken s1")
  obtain ret q eq s3 where h: "gettoken s2 = (ret, q, eq, s3)" by (cases "gettoken s2")
  note eqn = parseredirs.simps [of c s, unfolded p Let_def prod.case g h]
  note sf1 = peek_rest [OF p]
  show ?case
  proof (cases "more \<and> ret = CHR ''a''")
    case False
    then consider "\<not> more" | "more" "ret \<noteq> CHR ''a''" by metis
    then show ?thesis using less.prems(2) sf1 by cases (subst eqn, simp)+
  next
    case True
    then have l: "length s3 < length s" using two_tokens [OF _ g h] p by simp
    have sf: "suffix s2 s" "suffix s3 s"
      using gettoken_rest [OF g] gettoken_rest [OF h] sf1 suffix_order.trans by blast+
    then have st: "suffix s2 t" "suffix s3 t" using less.prems(1) suffix_order.trans by blast+
    have "gettoken s2 = (CHR ''a'', q, eq, s3)" using h True by simp
    then have "word_ok s2 (q, eq)" using no_nul_suffix [OF st(1) assms(1)] by (rule gettoken_word)
    then have w: "word_ok t (q, eq)" using st(1) by (rule word_ok_suffix)
    have ih: "returns (parseredirs c' s3) (\<lambda>(c'', s'). cmd_ok t c'' \<and> suffix s' s \<and> simple_args c'' = simple_args c)"
      if "cmd_ok t c'" "simple_args c' = simple_args c" for c'
      using less.hyps [OF l st(2) that(1)] that(2) sf(2) by (auto elim!: returns_mono simp: suffix_def)
    have "cmd_ok t (REDIR c (q, eq) mode fd)" for mode fd using less.prems(2) w by (simp add: cmd_ok_def)
    then have "returns (parseredirs (REDIR c (q, eq) mode fd) s3)
        (\<lambda>(c'', s'). cmd_ok t c'' \<and> suffix s' s \<and> simple_args c'' = simple_args c)" for mode fd
      by (rule ih) simp
    then show ?thesis using True ih [OF less.prems(2)] by (subst eqn) simp
  qed
qed

lemma parseargs_ok:
  assumes "CHR 0x00 \<notin> set t" and "suffix s t" and "cmd_ok t c" and "simple_args c = Some argc"
  shows "parses t s (parseargs argc c s)"
  using assms(2-4)
proof (induction "MAXARGS - argc" arbitrary: c s argc rule: less_induct)
  case less
  obtain more s1 where p: "peek ''|)&;'' s = (more, s1)" by (cases "peek ''|)&;'' s")
  obtain tok q eq s2 where g: "gettoken s1 = (tok, q, eq, s2)" by (cases "gettoken s1")
  note eqn = parseargs.simps [of argc c s, unfolded p Let_def prod.case g]
  have sf: "suffix s1 s" "suffix s2 s" using peek_rest [OF p] gettoken_rest [OF g] suffix_order.trans by blast+
  then have st: "suffix s1 t" "suffix s2 t" using less.prems(1) suffix_order.trans by blast+
  show ?case
  proof (cases "\<not> more \<and> tok = CHR ''a'' \<and> argc + 1 < MAXARGS")
    case False
    then consider "more" | "\<not> more" "tok \<noteq> CHR ''a''" | "\<not> more" "tok = CHR ''a''" "\<not> argc + 1 < MAXARGS" by metis
    then show ?thesis using less.prems(2) sf by cases (subst eqn, simp add: parses_def)+
  next
    case True
    have "gettoken s1 = (CHR ''a'', q, eq, s2)" using g True by simp
    then have "word_ok s1 (q, eq)" using no_nul_suffix [OF st(1) assms(1)] by (rule gettoken_word)
    then have w: "word_ok t (q, eq)" using st(1) by (rule word_ok_suffix)
    have st_ok: "cmd_ok t (store_arg (q, eq) c)" "simple_args (store_arg (q, eq) c) = Some (argc + 1)"
      using store_arg_ok [OF less.prems(3) _ less.prems(2) w] store_arg_args [OF less.prems(3)] True by simp_all
    note R = parseredirs_ok [OF assms(1) st(2) st_ok(1), unfolded st_ok(2)]
    have "parses t s (andthen (parseredirs (store_arg (q, eq) c) s2) (\<lambda>(ret, ps). parseargs (argc + 1) ret ps))"
    proof (cases "parseredirs (store_arg (q, eq) c) s2")
      case (Ret x)
      obtain c' s' where xx: "x = (c', s')" by (cases x)
      then have c': "cmd_ok t c'" "suffix s' s2" "simple_args c' = Some (argc + 1)" using R Ret by simp_all
      have s': "suffix s' t" "suffix s' s" using c'(2) st(2) sf(2) suffix_order.trans by blast+
      have "MAXARGS - (argc + 1) < MAXARGS - argc" using True by auto
      then have "parses t s' (parseargs (argc + 1) c' s')" using s'(1) c'(1,3) by (rule less.hyps)
      then have "parses t s (parseargs (argc + 1) c' s')" using s'(2) by (rule parses_suffix)
      then show ?thesis using Ret xx by (simp add: andthen_def)
    qed (use R in \<open>simp_all add: andthen_def parses_def\<close>)
    then show ?thesis using True by (subst eqn) simp
  qed
qed

lemma parses_andthen:
  assumes "parses t s r" and "\<And>c s'. cmd_ok t c \<Longrightarrow> suffix s' s \<Longrightarrow> parses t s (f (c, s'))"
  shows "parses t s (andthen r f)"
  using assms by (cases r) (auto simp: parses_def andthen_def)

lemma parses_simps [simp]:
  "parses t s (Ret (c, s')) \<longleftrightarrow> cmd_ok t c \<and> suffix s' s" "parses t s (Panicked m) \<longleftrightarrow> m \<in> messages"
  by (simp_all add: parses_def)

lemma parses_redirs: "CHR 0x00 \<notin> set t \<Longrightarrow> suffix s t \<Longrightarrow> cmd_ok t c \<Longrightarrow> parses t s (parseredirs c s)"
  using parseredirs_ok [of t s c] unfolding parses_def by (cases "parseredirs c s") auto

lemma peek_gettoken:
  assumes "peek toks s = (True, s1)" and "gettoken s1 = (tok, q, eq, s2)"
  shows "suffix s2 s" and "length s2 < length s"
  using one_token [OF assms] gettoken_rest [OF assms(2)] peek_rest [OF assms(1)] by (auto intro: suffix_order.trans)

definition good :: "string \<Rightarrow> (string \<Rightarrow> (word_ptrs cmd \<times> string) result) \<Rightarrow> nat \<Rightarrow> bool" where
  "good t parse k \<longleftrightarrow> (\<forall>s. suffix s t \<longrightarrow> length s < k \<longrightarrow> parses t s (parse s))"

lemma goodD: "good t parse k \<Longrightarrow> suffix s t \<Longrightarrow> length s < k \<Longrightarrow> parses t s (parse s)"
  by (simp add: good_def)

lemma good_mono: "good t parse k \<Longrightarrow> j \<le> k \<Longrightarrow> good t parse j"
  by (auto simp: good_def)

lemma parses_Nil [simp]: "cmd_ok t (EXEC [])"
  by (simp add: cmd_ok_def MAXARGS_def)

lemma parseblock_ok:
  assumes "CHR 0x00 \<notin> set t" and "suffix s t" and "good t parse (length s)"
  shows "parses t s (parseblock parse s)"
proof -
  obtain opened s1 where p: "peek ''('' s = (opened, s1)" by (cases "peek ''('' s")
  obtain tok q eq s2 where g: "gettoken s1 = (tok, q, eq, s2)" by (cases "gettoken s1")
  note eqn = parseblock_def [of parse s, unfolded p Let_def prod.case g]
  show ?thesis
  proof (cases opened)
    case True
    have s2: "suffix s2 s" "length s2 < length s" using peek_gettoken [OF _ g] p True by simp_all
    then have "suffix s2 t" using assms(2) by (metis suffix_order.trans)
    then have "parses t s (parse s2)" using parses_suffix [OF goodD [OF assms(3) _ s2(2)] s2(1)] by simp
    moreover have "parses t s (let (closed, ps) = peek '')'' s' in
        if \<not> closed then Panicked ''syntax - missing )'' else let (_, _, _, ps) = gettoken ps in parseredirs c ps)"
      if c: "cmd_ok t c" "suffix s' s" for c s'
    proof -
      obtain closed s3 where p: "peek '')'' s' = (closed, s3)" by (cases "peek '')'' s'")
      obtain tok q eq s4 where g: "gettoken s3 = (tok, q, eq, s4)" by (cases "gettoken s3")
      have "suffix s4 s" using peek_rest [OF p] gettoken_rest [OF g] c(2) by (metis suffix_order.trans)
      moreover have "suffix s4 t" using calculation assms(2) by (metis suffix_order.trans)
      ultimately have "parses t s (parseredirs c s4)"
        using parses_redirs [OF assms(1) _ c(1)] parses_suffix by blast
      then show ?thesis by (simp add: p g)
    qed
    ultimately show ?thesis using True unfolding eqn Let_def by (simp add: parses_andthen)
  qed (simp add: eqn)
qed

lemma parseexec_ok:
  assumes "CHR 0x00 \<notin> set t" and "suffix s t" and "good t parse (length s)"
  shows "parses t s (parseexec parse s)"
proof -
  obtain opened s1 where p: "peek ''('' s = (opened, s1)" by (cases "peek ''('' s")
  note eqn = parseexec_def [of parse s, unfolded p Let_def prod.case]
  have s1: "suffix s1 s" "length s1 \<le> length s" using peek_rest [OF p] suffix_length_le by blast+
  have s1t: "suffix s1 t" using s1(1) assms(2) by (metis suffix_order.trans)
  show ?thesis
  proof (cases opened)
    case True
    then show ?thesis
      using parses_suffix [OF parseblock_ok [OF assms(1) s1t good_mono [OF assms(3) s1(2)]] s1(1)] by (simp add: eqn)
  next
    case False
    note R = parseredirs_ok [OF assms(1) s1t parses_Nil]
    have "parses t s (andthen (parseredirs (EXEC []) s1) (\<lambda>(ret, ps). parseargs 0 ret ps))"
    proof (cases "parseredirs (EXEC []) s1")
      case (Ret x)
      obtain c s' where x: "x = (c, s')" by (cases x)
      then have c: "cmd_ok t c" "suffix s' s1" "simple_args c = Some 0" using R Ret by simp_all
      have "suffix s' t" using c(2) s1t by (metis suffix_order.trans)
      then have "parses t s' (parseargs 0 c s')" using parseargs_ok [OF assms(1) _ c(1,3)] by blast
      moreover have "suffix s' s" using c(2) s1(1) by (metis suffix_order.trans)
      ultimately show ?thesis using Ret x parses_suffix by (simp add: andthen_def)
    qed (use R in \<open>simp_all add: andthen_def\<close>)
    then show ?thesis using False by (simp add: eqn)
  qed
qed

lemma parsepipe_ok:
  assumes "CHR 0x00 \<notin> set t"
  shows "suffix s t \<Longrightarrow> good t parse (length s) \<Longrightarrow> length s < n \<Longrightarrow> parses t s (parsepipe parse n s)"
proof (induction n arbitrary: s)
  case (Suc n)
  have "parses t s (let (more, ps) = peek ''|'' s' in
      if more then let (_, _, _, ps) = gettoken ps in andthen (parsepipe parse n ps) (\<lambda>(right, ps). Ret (PIPE c right, ps))
      else Ret (c, ps))" if c: "cmd_ok t c" "suffix s' s" for c s'
  proof -
    obtain more s1 where p: "peek ''|'' s' = (more, s1)" by (cases "peek ''|'' s'")
    obtain tok q eq s2 where g: "gettoken s1 = (tok, q, eq, s2)" by (cases "gettoken s1")
    show ?thesis
    proof (cases more)
      case True
      have s2: "suffix s2 s'" "length s2 < length s'" using peek_gettoken [OF _ g] p True by simp_all
      then have s2s: "suffix s2 s" "length s2 < length s" using c(2) suffix_length_le [OF c(2)] by (auto intro: suffix_order.trans)
      then have "suffix s2 t" using Suc.prems(1) by (metis suffix_order.trans)
      then have "parses t s2 (parsepipe parse n s2)"
        using Suc.IH good_mono [OF Suc.prems(2)] s2s Suc.prems(3) by simp
      then have "parses t s (parsepipe parse n s2)" using s2s(1) by (rule parses_suffix)
      then have "parses t s (andthen (parsepipe parse n s2) (\<lambda>(right, ps). Ret (PIPE c right, ps)))"
        by (rule parses_andthen) (use c in \<open>simp add: cmd_ok_def ball_Un\<close>)
      then show ?thesis using True by (simp add: p g)
    next
      case False
      have "suffix s1 s" using peek_rest [OF p] c(2) by (metis suffix_order.trans)
      then show ?thesis using False c by (simp add: p)
    qed
  qed
  then show ?case using parseexec_ok [OF assms Suc.prems(1,2)] by (simp add: parses_andthen)
qed simp

lemma parseback_ok: "cmd_ok t c \<Longrightarrow> cmd_ok t (fst (parseback c s)) \<and> suffix (snd (parseback c s)) s"
proof (induction "length s" arbitrary: c s rule: less_induct)
  case less
  obtain more s1 where p: "peek ''&'' s = (more, s1)" by (cases "peek ''&'' s")
  obtain tok q eq s2 where g: "gettoken s1 = (tok, q, eq, s2)" by (cases "gettoken s1")
  note eqn = parseback.simps [of c s, unfolded p Let_def prod.case g]
  show ?case
  proof (cases more)
    case True
    have s2: "suffix s2 s" "length s2 < length s" using peek_gettoken [OF _ g] p True by simp_all
    have "cmd_ok t (BACK c)" using less.prems by (simp add: cmd_ok_def)
    then show ?thesis using less.hyps [OF s2(2)] s2(1) True by (subst (1 2) eqn) (auto intro: suffix_order.trans)
  next
    case False
    then show ?thesis using less.prems peek_rest [OF p] by (subst (1 2) eqn) simp
  qed
qed

lemma parseline_ok:
  assumes "CHR 0x00 \<notin> set t"
  shows "suffix s t \<Longrightarrow> length s < n \<Longrightarrow> parses t s (parseline n s)"
proof (induction n arbitrary: s)
  case (Suc n)
  have gd: "good t (parseline n) n" using Suc.IH by (simp add: good_def)
  have "parses t s (let (c, ps) = parseback c s'; (more, ps) = peek '';'' ps in
      if more then let (_, _, _, ps) = gettoken ps in andthen (parseline n ps) (\<lambda>(right, ps). Ret (LIST c right, ps))
      else Ret (c, ps))" if c: "cmd_ok t c" "suffix s' s" for c s'
  proof -
    obtain b s0 where b: "parseback c s' = (b, s0)" by (cases "parseback c s'")
    obtain more s1 where p: "peek '';'' s0 = (more, s1)" by (cases "peek '';'' s0")
    obtain tok q eq s2 where g: "gettoken s1 = (tok, q, eq, s2)" by (cases "gettoken s1")
    have bo: "cmd_ok t b" "suffix s0 s'" using parseback_ok [OF c(1), of s'] b by simp_all
    then have s0: "suffix s0 s" using c(2) by (metis suffix_order.trans)
    show ?thesis
    proof (cases more)
      case True
      have s2: "suffix s2 s0" "length s2 < length s0" using peek_gettoken [OF _ g] p True by simp_all
      then have s2s: "suffix s2 s" "length s2 < length s" using s0 suffix_length_le [OF s0] by (auto intro: suffix_order.trans)
      then have "suffix s2 t" using Suc.prems(1) by (metis suffix_order.trans)
      then have "parses t s2 (parseline n s2)" using Suc.IH s2s Suc.prems(2) by simp
      then have "parses t s (parseline n s2)" using s2s(1) by (rule parses_suffix)
      then have "parses t s (andthen (parseline n s2) (\<lambda>(right, ps). Ret (LIST b right, ps)))"
        by (rule parses_andthen) (use bo in \<open>simp add: cmd_ok_def ball_Un\<close>)
      then show ?thesis using True by (simp add: b p g)
    next
      case False
      have "suffix s1 s" using peek_rest [OF p] s0 by (metis suffix_order.trans)
      then show ?thesis using False bo by (simp add: b p)
    qed
  qed
  moreover have "parses t s (parsepipe (parseline n) (Suc n) s)"
    by (rule parsepipe_ok [OF assms Suc.prems(1) good_mono [OF gd]]) (use Suc.prems(2) in simp_all)
  ultimately show ?case by (simp add: parses_andthen del: parsepipe.simps)
qed simp

definition word_of :: "word_ptrs \<Rightarrow> string" where
  "word_of w = take (length (fst w) - length (snd w)) (fst w)"

definition string_at :: "string \<Rightarrow> nat \<Rightarrow> string" where
  "string_at m i = takeWhile (\<lambda>c. c \<noteq> CHR 0x00) (drop i m)"

text \<open>The string that a word pointer denotes in the buffer \<open>m\<close> of the line \<open>s\<close> when the command is run.\<close>

definition read_word :: "string \<Rightarrow> string \<Rightarrow> word_ptrs \<Rightarrow> string" where
  "read_word s m w = string_at m (length s - length (fst w))"

lemma fold_nul:
  "length (fold (\<lambda>(q, eq) m. m[length s - length eq := z]) ws m) = length m"
  "i < length m \<Longrightarrow> fold (\<lambda>(q, eq) m. m[length s - length eq := z]) ws m ! i
     = (if \<exists>w \<in> set ws. i = length s - length (snd w) then z else m ! i)"
  by (induction ws arbitrary: m) (auto simp: nth_list_update split: prod.splits)

lemma nth_update_inside: "j < length xs \<Longrightarrow> xs[i := x] ! j = (if i = j then x else xs ! j)"
  by (cases "i = j") simp_all

lemma length_nulterminate [simp]: "length (nulterminate s c m) = length m"
  by (induction c arbitrary: m) (simp_all add: fold_nul)

lemma nulterminate_nth:
  "i < length m \<Longrightarrow> nulterminate s c m ! i
     = (if \<exists>w \<in> set_cmd c. i = length s - length (snd w) then CHR 0x00 else m ! i)"
proof (induction c arbitrary: m)
  case (REDIR c f mode fd)
  have "i < length (nulterminate s c m)" using REDIR.prems by simp
  then show ?case using REDIR.IH [OF REDIR.prems] by (simp only: nulterminate.simps nth_update_inside) auto
qed (auto simp: fold_nul)

lemma word_okE:
  assumes "word_ok s w"
  obtains u where "s = u @ word_of w @ snd w" "length s - length (fst w) = length u"
    "word_of w \<noteq> []" "\<forall>c \<in> set (word_of w). ordinary_char c" "snd w = [] \<or> \<not> ordinary_char (hd (snd w))"
proof -
  obtain u v where "fst w = v @ snd w" "s = u @ fst w" "v \<noteq> []" "\<forall>c \<in> set v. ordinary_char c"
    "snd w = [] \<or> \<not> ordinary_char (hd (snd w))" using assms unfolding word_ok_def by blast
  moreover have "word_of w = v" using calculation(1) by (simp add: word_of_def)
  ultimately show ?thesis using that by simp
qed

lemma string_at_word:
  assumes "\<And>i. i < length v \<Longrightarrow> m ! (k + i) = v ! i" and "m ! (k + length v) = CHR 0x00" and "k + length v < length m"
    and "CHR 0x00 \<notin> set v"
  shows "string_at m k = v"
proof -
  have "drop k m = v @ CHR 0x00 # drop (k + length v + 1) m"
  proof (rule nth_equalityI)
    fix i assume i: "i < length (drop k m)"
    show "drop k m ! i = (v @ CHR 0x00 # drop (k + length v + 1) m) ! i"
    proof (cases "i \<le> length v")
      case True
      then show ?thesis using assms(1) [of i] assms(2,3) i by (auto simp: nth_append)
    next
      case False
      then have "k + length v + 1 + (i - length v - 1) = k + i" by simp
      then show ?thesis using False i assms(3) by (simp add: nth_append nth_Cons')
    qed
  qed (use assms(3) in simp)
  then show ?thesis using assms(4) by (simp add: string_at_def takeWhile_append2 takeWhile_append)
qed

lemma nulterminate_words:
  assumes "\<forall>w \<in> set_cmd c. word_ok s w" and w: "w \<in> set_cmd c"
  shows "read_word s (nulterminate s c (s @ [CHR 0x00])) w = word_of w"
proof -
  let ?m = "nulterminate s c (s @ [CHR 0x00])"
  obtain u where u: "s = u @ word_of w @ snd w" "length s - length (fst w) = length u"
    "\<forall>c \<in> set (word_of w). ordinary_char c" using assms w by (metis word_okE)
  have len: "length u + length (word_of w) = length s - length (snd w)"
    using arg_cong [OF u(1), of length] by simp
  have keep: "?m ! (length u + i) = word_of w ! i" if i: "i < length (word_of w)" for i
  proof -
    have at: "s ! (length u + i) = word_of w ! i" by (subst u(1)) (simp add: nth_append i)
    have "length u + i \<noteq> length s - length (snd w')" if w': "w' \<in> set_cmd c" for w'
    proof
      assume e: "length u + i = length s - length (snd w')"
      obtain u' where u': "s = (u' @ word_of w') @ snd w'" "snd w' = [] \<or> \<not> ordinary_char (hd (snd w'))"
        using assms(1) w' by (metis word_okE append.assoc)
      have l: "length u + i < length s" using arg_cong [OF u(1), of length] i by simp
      have k: "length u + i = length (u' @ word_of w')" using e arg_cong [OF u'(1), of length] by simp
      then have ne: "snd w' \<noteq> []" using l arg_cong [OF u'(1), of length] by auto
      then have "s ! (length u + i) = hd (snd w')" by (subst u'(1), subst k) (simp only: nth_append_length_plus hd_conv_nth nth_append_length nth_append, simp add: hd_conv_nth)
      then show False using u'(2) ne at u(3) i by (metis nth_mem)
    qed
    moreover have "length u + i < length s" using arg_cong [OF u(1), of length] i by simp
    ultimately show ?thesis using at by (auto simp: nulterminate_nth nth_append)
  qed
  have "length u + length (word_of w) < length ?m" using arg_cong [OF u(1), of length] by (simp add: nulterminate_nth)
  moreover have "?m ! (length u + length (word_of w)) = CHR 0x00" using w len by (subst nulterminate_nth) auto
  moreover have "CHR 0x00 \<notin> set (word_of w)" using u(3) by (auto simp: ordinary_char_def)
  ultimately show ?thesis unfolding read_word_def u(2) using keep by (intro string_at_word)
qed

lemma parsecmd_ok:
  assumes "CHR 0x00 \<notin> set s"
  shows "returns (parsecmd s) (\<lambda>(c, m). cmd_ok s c \<and> m = nulterminate s c (s @ [CHR 0x00]))"
proof -
  have "parses s s (parseline (Suc (length s)) s)" using assms by (intro parseline_ok) simp_all
  then show ?thesis
    unfolding parsecmd_def parses_def by (rule returns_andthen) (auto simp: Let_def split: prod.splits)
qed

text \<open>C33.  The shell's parser is total and type-correct.  For every input line the recursive descent ends,
  either with one of its five error messages or with a command in which every argument vector fits into
  MAXARGS entries with its terminating null pointer, and every word, read as a C string from the line buffer after
  nulterminate has written its NUL bytes, is the maximal run of ordinary characters that the scanner
  found: no NUL byte lands inside another word.\<close>

theorem parsecmd_type_correct:
  assumes "CHR 0x00 \<notin> set s"
  shows "case parsecmd s of
      Stuck \<Rightarrow> False
    | Panicked msg \<Rightarrow> msg \<in> messages
    | Ret (c, m) \<Rightarrow> args_ok c \<and> (\<forall>w \<in> set_cmd c. word_ok s w \<and> read_word s m w = word_of w)"
  using parsecmd_ok [OF assms] nulterminate_words [of _ s] by (auto simp: returns_def cmd_ok_def split: result.splits)

theorem parsecmd_type_correct_witness:
  "case parsecmd ''grep x*<in|(wc;echo ok)>>out&'' of
      Stuck \<Rightarrow> False
    | Panicked msg \<Rightarrow> msg \<in> messages
    | Ret (c, m) \<Rightarrow> args_ok c \<and> (\<forall>w \<in> set_cmd c. word_ok ''grep x*<in|(wc;echo ok)>>out&'' w
        \<and> read_word ''grep x*<in|(wc;echo ok)>>out&'' m w = word_of w)"
  by (rule parsecmd_type_correct) simp

section \<open>Reading back a printed command\<close>

definition redir_sign :: "int \<Rightarrow> string" where
  "redir_sign mode = (if mode = 0 then ''<'' else if mode = 0x601 then ''>'' else ''>>'')"

definition paren :: "bool \<Rightarrow> string \<Rightarrow> string" where
  "paren b s = (if b then ''('' @ s @ '')'' else s)"

text \<open>A command as text: level 0 is a list, 1 a background command, 2 a pipeline and 3 a simple command or a block;
  parentheses stand only where a command of a lower level is used at a higher one.\<close>

primrec unparse :: "string cmd \<Rightarrow> nat \<Rightarrow> string" where
  "unparse (EXEC args) k = concat (map (\<lambda>w. w @ '' '') args)"
| "unparse (REDIR c f mode fd) k = unparse c 3 @ redir_sign mode @ f @ '' ''"
| "unparse (PIPE l r) k = paren (k > 2) (unparse l 3 @ ''|'' @ unparse r 2)"
| "unparse (LIST l r) k = paren (k > 0) (unparse l 1 @ '';'' @ unparse r 0)"
| "unparse (BACK c) k = paren (k > 1) (unparse c 1 @ ''&'')"

definition wordy :: "string \<Rightarrow> bool" where
  "wordy w \<longleftrightarrow> w \<noteq> [] \<and> (\<forall>c \<in> set w. ordinary_char c)"

primrec modes_ok :: "'w cmd \<Rightarrow> bool" where
  "modes_ok (EXEC args) = True"
| "modes_ok (REDIR c f mode fd) = (modes_ok c \<and> (mode, fd) \<in> {(0, 0), (0x601, 1), (0x201, 1)})"
| "modes_ok (PIPE l r) = (modes_ok l \<and> modes_ok r)"
| "modes_ok (LIST l r) = (modes_ok l \<and> modes_ok r)"
| "modes_ok (BACK c) = modes_ok c"

definition printable :: "string cmd \<Rightarrow> bool" where
  "printable c \<longleftrightarrow> args_ok c \<and> modes_ok c \<and> (\<forall>w \<in> set_cmd c. wordy w)"

lemma printable_simps [simp]:
  "printable (EXEC args) \<longleftrightarrow> length args < MAXARGS \<and> (\<forall>w \<in> set args. wordy w)"
  "printable (REDIR c f mode fd) \<longleftrightarrow> printable c \<and> wordy f \<and> (mode, fd) \<in> {(0, 0), (0x601, 1), (0x201, 1)}"
  "printable (PIPE l r) \<longleftrightarrow> printable l \<and> printable r"
  "printable (LIST l r) \<longleftrightarrow> printable l \<and> printable r"
  "printable (BACK c) \<longleftrightarrow> printable c"
  by (auto simp: printable_def)

subsection \<open>Tokens of a printed command\<close>

definition starts :: "string \<Rightarrow> string \<Rightarrow> bool" where
  "starts toks s \<longleftrightarrow> (case skip s of [] \<Rightarrow> True | c # _ \<Rightarrow> c \<in> set toks)"

lemma peek_in: "CHR 0x00 \<notin> set toks \<Longrightarrow> peek toks s = (skip s \<noteq> [] \<and> hd (skip s) \<in> set toks, skip s)"
  by (auto simp: peek_def Let_def in_strchr split: list.splits)

lemma starts_mono: "starts xs s \<Longrightarrow> set xs \<subseteq> set ys \<Longrightarrow> starts ys s"
  by (auto simp: starts_def split: list.splits)

lemma starts_not: "starts toks s \<Longrightarrow> set toks \<inter> set xs = {} \<Longrightarrow> \<not> (skip s \<noteq> [] \<and> hd (skip s) \<in> set xs)"
  by (auto simp: starts_def split: list.splits)

lemma peek_skip [simp]: "peek toks (skip s) = peek toks s"
  by (simp add: peek_def)

lemma parseredirs_skip: "parseredirs c (skip s) = parseredirs c s"
  by (subst (1 2) parseredirs.simps) simp

lemma parseexec_skip: "parseexec parse (skip s) = parseexec parse s"
  by (simp add: parseexec_def)

lemma parsepipe_skip: "parsepipe parse n (skip s) = parsepipe parse n s"
  by (cases n) (simp_all add: parseexec_skip)

lemma parseline_skip: "parseline n (skip s) = parseline n s"
  by (cases n) (simp_all add: parsepipe_skip del: parsepipe.simps)

lemma symbol_not_blank: "c \<in> set ''|();&<>'' \<Longrightarrow> strchr whitespace c = None"
  by (subst in_strchr) (auto simp: whitespace_def)

lemma skip_symbol: "c \<in> set ''|();&<>'' \<Longrightarrow> skip (c # s) = c # s"
  using symbol_not_blank by (simp only: skip.simps) simp

lemma gettoken_symbol:
  assumes "c \<in> set ''|();&<''"
  shows "gettoken (c # s) = (c, c # s, s, skip s)"
proof -
  have "skip (c # s) = c # s" using assms by (intro skip_symbol) auto
  then show ?thesis unfolding gettoken_def Let_def by (simp only: list.case assms if_True prod.case)
qed

lemma wordyE:
  assumes "wordy w"
  obtains x w' where "w = x # w'" "skip (w @ s) = w @ s" "ordinary_char x"
  using assms by (cases w) (auto simp: wordy_def ordinary_char_def)

lemma blank [simp]: "strchr whitespace (CHR '' '') = Some whitespace"
  by (simp add: whitespace_def)

lemma end_of_word_wordy: "\<forall>c \<in> set w. ordinary_char c \<Longrightarrow> end_of_word (w @ CHR '' '' # s) = CHR '' '' # s"
  by (induction w) (simp_all add: ordinary_char_def)

lemma ordinary_not_symbol: "ordinary_char c \<Longrightarrow> c \<notin> set ''|();&<>''"
  by (auto simp: ordinary_char_def strchr_symbols)

lemma gettoken_wordy:
  assumes "wordy w"
  shows "gettoken (w @ CHR '' '' # s) = (CHR ''a'', w @ CHR '' '' # s, CHR '' '' # s, skip s)"
proof -
  obtain x w' where w: "w = x # w'" "skip (w @ CHR '' '' # s) = w @ CHR '' '' # s" "ordinary_char x"
    using assms by (rule wordyE)
  have n: "x \<notin> set ''|();&<'' \<and> x \<noteq> CHR ''>''" using ordinary_not_symbol [OF w(3)] by auto
  have e: "end_of_word (w @ CHR '' '' # s) = CHR '' '' # s" using assms by (intro end_of_word_wordy) (simp add: wordy_def)
  have "w @ CHR '' '' # s = x # (w' @ CHR '' '' # s)" using w(1) by simp
  then show ?thesis
    unfolding gettoken_def Let_def w(2) e by (simp only: list.case n if_False prod.case) (simp add: e)
qed

lemma peek_wordy: "wordy w \<Longrightarrow> set toks \<subseteq> set ''|();&<>'' \<Longrightarrow> peek toks (w @ s) = (False, w @ s)"
proof -
  assume w: "wordy w" and t: "set toks \<subseteq> set ''|();&<>''"
  obtain x w' where x: "w = x # w'" "skip (w @ s) = w @ s" "ordinary_char x" using w by (rule wordyE)
  have "CHR 0x00 \<notin> set toks" "x \<notin> set toks" using t ordinary_not_symbol [OF x(3)] by auto
  then show ?thesis using x by (simp add: peek_in)
qed

lemma word_of_append [simp]: "word_of (w @ s, s) = w"
  by (simp add: word_of_def)

subsection \<open>Levels\<close>

text \<open>What is left to do after a simple command or a block: the redirections and, for a simple command, more arguments.\<close>

definition finish :: "word_ptrs cmd \<Rightarrow> string \<Rightarrow> (word_ptrs cmd \<times> string) result" where
  "finish c s =
     (case simple_args c of
        Some a \<Rightarrow> andthen (parseredirs c s) (\<lambda>(r, ps). parseargs a r ps)
      | None \<Rightarrow> parseredirs c s)"

lemma redirs_stop: "starts ''|)&;'' s \<Longrightarrow> parseredirs c s = Ret (c, skip s)"
proof -
  assume "starts ''|)&;'' s"
  then have "peek ''<>'' s = (False, skip s)" by (subst peek_in) (auto simp: starts_def split: list.splits)
  then show ?thesis by (subst parseredirs.simps) simp
qed

lemma args_stop: "starts ''|)&;'' s \<Longrightarrow> parseargs a c s = Ret (c, skip s)"
proof (cases "skip s")
  case Nil
  then have "peek ''|)&;'' s = (False, [])" by (simp add: peek_def)
  then show ?thesis using Nil by (subst parseargs.simps) (simp add: gettoken_def)
next
  case (Cons c t)
  assume "starts ''|)&;'' s"
  then have "peek ''|)&;'' s = (True, skip s)" using Cons by (subst peek_in) (simp_all add: starts_def)
  then show ?thesis by (subst parseargs.simps) simp
qed

lemma finish_stop:
  assumes "starts ''|)&;'' s"
  shows "finish c s = Ret (c, skip s)"
proof -
  have "starts ''|)&;'' (skip s)" using assms by (simp add: starts_def)
  then show ?thesis
    using assms by (auto simp: finish_def andthen_def redirs_stop args_stop split: option.splits)
qed

lemma redirs_word:
  assumes "wordy f" and "(mode, fd) \<in> {(0, 0), (0x601, 1), (0x201, 1)}"
  shows "parseredirs c (redir_sign mode @ f @ CHR '' '' # s) = parseredirs (REDIR c (f @ CHR '' '' # s, CHR '' '' # s) mode fd) s"
proof -
  let ?f = "f @ CHR '' '' # s"
  obtain x f' where x: "f = x # f'" "skip ?f = ?f" "ordinary_char x" using assms(1) by (rule wordyE)
  have gt: "x \<noteq> CHR ''>''" using ordinary_not_symbol [OF x(3)] by auto
  note w = gettoken_wordy [OF assms(1), of s]
  have step: "parseredirs c (r # t) = (if tok = CHR ''<'' then parseredirs (REDIR c (?f, CHR '' '' # s) 0 0) (skip s)
      else if tok = CHR ''>'' then parseredirs (REDIR c (?f, CHR '' '' # s) 0x601 1) (skip s)
      else parseredirs (REDIR c (?f, CHR '' '' # s) 0x201 1) (skip s))"
    if r: "r = CHR ''<'' \<or> r = CHR ''>''" and g: "gettoken (r # t) = (tok, r # t, ?f, ?f)"
      and tok: "tok = CHR ''<'' \<or> tok = CHR ''>'' \<or> tok = CHR ''+''" for r t tok
  proof -
    have "skip (r # t) = r # t" using r by (intro skip_symbol) auto
    then have "peek ''<>'' (r # t) = (True, r # t)" using r by (subst peek_in) auto
    then show ?thesis using tok by (subst parseredirs.simps) (auto simp: g w)
  qed
  have lt: "gettoken (CHR ''<'' # ?f) = (CHR ''<'', CHR ''<'' # ?f, ?f, ?f)" using x(2) by (subst gettoken_symbol) simp_all
  have sk: "skip (CHR ''>'' # t) = CHR ''>'' # t" for t by (rule skip_symbol) simp
  have g1: "gettoken (CHR ''>'' # ?f) = (CHR ''>'', CHR ''>'' # ?f, ?f, ?f)"
    unfolding gettoken_def sk Let_def using x gt by simp
  have g2: "gettoken (CHR ''>'' # CHR ''>'' # ?f) = (CHR ''+'', CHR ''>'' # CHR ''>'' # ?f, ?f, ?f)"
    unfolding gettoken_def sk Let_def using x(2) by simp
  consider "mode = 0" "fd = 0" | "mode = 0x601" "fd = 1" | "mode = 0x201" "fd = 1" using assms(2) by auto
  then show ?thesis
  proof cases
    case 1
    then show ?thesis using step [OF _ lt] by (simp add: redir_sign_def parseredirs_skip)
  next
    case 2
    then show ?thesis using step [OF _ g1] by (simp add: redir_sign_def parseredirs_skip)
  next
    case 3
    then show ?thesis using step [OF _ g2] by (simp add: redir_sign_def parseredirs_skip)
  qed
qed

lemma finish_redir:
  assumes "wordy f" and "(mode, fd) \<in> {(0, 0), (0x601, 1), (0x201, 1)}"
  shows "finish c (redir_sign mode @ f @ CHR '' '' # s) = finish (REDIR c (f @ CHR '' '' # s, CHR '' '' # s) mode fd) s"
  by (simp only: finish_def redirs_word [OF assms] simple_args.simps)

lemma finish_args:
  "\<forall>w \<in> set ws. wordy w \<Longrightarrow> length args + length ws < MAXARGS \<Longrightarrow>
   \<exists>args'. map word_of args' = ws \<and> finish (EXEC args) (concat (map (\<lambda>w. w @ '' '') ws) @ s) = finish (EXEC (args @ args')) s"
proof (induction ws arbitrary: args)
  case (Cons w ws)
  let ?t = "concat (map (\<lambda>w. w @ '' '') ws) @ s"
  let ?w = "(w @ CHR '' '' # ?t, CHR '' '' # ?t)"
  have w: "wordy w" using Cons.prems(1) by simp
  have p: "peek ''<>'' (w @ CHR '' '' # ?t) = (False, w @ CHR '' '' # ?t)"
    "peek ''|)&;'' (w @ CHR '' '' # ?t) = (False, w @ CHR '' '' # ?t)" by (rule peek_wordy [OF w]; simp)+
  have "parseargs (length args) (EXEC args) (w @ CHR '' '' # ?t)
      = andthen (parseredirs (EXEC (args @ [?w])) ?t) (\<lambda>(r, ps). parseargs (length (args @ [?w])) r ps)"
    using Cons.prems(2) by (subst parseargs.simps) (simp add: p(2) gettoken_wordy [OF w] parseredirs_skip)
  moreover have "parseredirs (EXEC args) (w @ CHR '' '' # ?t) = Ret (EXEC args, w @ CHR '' '' # ?t)"
    by (subst parseredirs.simps) (simp add: p(1))
  ultimately have "finish (EXEC args) (w @ CHR '' '' # ?t) = finish (EXEC (args @ [?w])) ?t"
    by (simp add: finish_def andthen_def)
  moreover obtain args' where "map word_of args' = ws" "finish (EXEC (args @ [?w])) ?t = finish (EXEC ((args @ [?w]) @ args')) s"
    using Cons.IH [of "args @ [?w]"] Cons.prems by auto
  ultimately show ?case by (intro exI [of _ "?w # args'"]) simp
qed simp

text \<open>What a printed command is read as, level by level, in front of a rest that cannot continue it.\<close>

definition reads_exec :: "string cmd \<Rightarrow> bool" where
  "reads_exec c \<longleftrightarrow> (\<forall>n s. length (unparse c 3 @ s) \<le> n \<longrightarrow> starts ''|)&;<>'' s \<longrightarrow>
     (\<exists>c'. map_cmd word_of c' = c \<and> parseexec (parseline n) (unparse c 3 @ s) = finish c' s))"

definition reads_pipe :: "string cmd \<Rightarrow> bool" where
  "reads_pipe c \<longleftrightarrow> (\<forall>n k s. length (unparse c 2 @ s) \<le> n \<longrightarrow> length (unparse c 2 @ s) < k \<longrightarrow> starts '')&;'' s \<longrightarrow>
     (\<exists>c'. map_cmd word_of c' = c \<and> parsepipe (parseline n) k (unparse c 2 @ s) = Ret (c', skip s)))"

definition reads_back :: "string cmd \<Rightarrow> bool" where
  "reads_back c \<longleftrightarrow> (\<forall>n s. length (unparse c 1 @ s) \<le> n \<longrightarrow> starts '')&;'' s \<longrightarrow>
     (\<exists>c' b t. map_cmd word_of c' = c \<and> parsepipe (parseline n) (Suc n) (unparse c 1 @ s) = Ret (b, t)
       \<and> parseback b t = parseback c' (skip s)))"

definition reads_line :: "string cmd \<Rightarrow> bool" where
  "reads_line c \<longleftrightarrow> (\<forall>n s. length (unparse c 0 @ s) < n \<longrightarrow> starts '')'' s \<longrightarrow>
     (\<exists>c'. map_cmd word_of c' = c \<and> parseline n (unparse c 0 @ s) = Ret (c', skip s)))"

lemma starts_symbol: "c \<in> set ''|();&<>'' \<Longrightarrow> starts toks (c # s) \<longleftrightarrow> c \<in> set toks"
  unfolding starts_def by (subst skip_symbol) simp_all

lemma peek_symbol: "c \<in> set ''|();&<>'' \<Longrightarrow> CHR 0x00 \<notin> set toks \<Longrightarrow> peek toks (c # s) = (c \<in> set toks, c # s)"
  by (subst peek_in) (simp_all add: skip_symbol del: skip.simps)

lemma peek_starts: "starts xs s \<Longrightarrow> set xs \<inter> set toks = {} \<Longrightarrow> CHR 0x00 \<notin> set toks \<Longrightarrow> peek toks s = (False, skip s)"
  using starts_not [of xs s toks] by (simp add: peek_in)

lemma back_stop: "starts '');'' s \<Longrightarrow> parseback c s = (c, skip s)"
  by (subst parseback.simps) (simp add: peek_starts)

lemma back_amp: "parseback c (CHR ''&'' # s) = parseback (BACK c) (skip s)"
  by (subst parseback.simps) (simp add: peek_symbol gettoken_symbol)

lemma simple_args_map [simp]: "simple_args (map_cmd f c) = simple_args c"
  by (induction c) simp_all

lemma reads_block:
  assumes "reads_line c" and "unparse c 3 = ''('' @ unparse c 0 @ '')''" and "simple_args c = None"
  shows "reads_exec c"
  unfolding reads_exec_def
proof (intro allI impI)
  fix n s assume n: "length (unparse c 3 @ s) \<le> n"
  let ?t = "unparse c 0 @ CHR '')'' # s"
  have "length ?t < n" using n by (simp add: assms(2))
  moreover have "starts '')'' (CHR '')'' # s)" by (simp add: starts_symbol)
  ultimately obtain c' where c': "map_cmd word_of c' = c" "parseline n ?t = Ret (c', skip (CHR '')'' # s))"
    using assms(1) unfolding reads_line_def by blast
  have "simple_args c' = None" using assms(3) simple_args_map [of word_of c'] c'(1) by simp
  moreover have "parseexec (parseline n) (CHR ''('' # ?t) = parseredirs c' (skip s)"
    using c'(2) by (simp add: parseexec_def parseblock_def peek_symbol gettoken_symbol parseline_skip andthen_def skip_symbol del: skip.simps)
  ultimately have "parseexec (parseline n) (unparse c 3 @ s) = finish c' s"
    by (simp add: assms(2) finish_def parseredirs_skip)
  then show "\<exists>c'. map_cmd word_of c' = c \<and> parseexec (parseline n) (unparse c 3 @ s) = finish c' s" using c'(1) by blast
qed

lemma reads_exec_pipe:
  assumes "reads_exec c" and "unparse c 2 = unparse c 3"
  shows "reads_pipe c"
  unfolding reads_pipe_def
proof (intro allI impI)
  fix n k s assume n: "length (unparse c 2 @ s) \<le> n" "length (unparse c 2 @ s) < k" and s: "starts '')&;'' s"
  have "starts ''|)&;<>'' s" using s by (rule starts_mono) auto
  then obtain c' where c': "map_cmd word_of c' = c" "parseexec (parseline n) (unparse c 3 @ s) = finish c' s"
    using assms(1) n(1) unfolding assms(2) reads_exec_def by blast
  have "starts ''|)&;'' s" using s by (rule starts_mono) auto
  then have "parseexec (parseline n) (unparse c 2 @ s) = Ret (c', skip s)" using c'(2) finish_stop assms(2) by simp
  moreover have "peek ''|'' s = (False, skip s)" using s by (rule peek_starts) simp_all
  moreover obtain j where "k = Suc j" using n(2) by (cases k) simp_all
  ultimately have "parsepipe (parseline n) k (unparse c 2 @ s) = Ret (c', skip s)" by (simp add: andthen_def)
  then show "\<exists>c'. map_cmd word_of c' = c \<and> parsepipe (parseline n) k (unparse c 2 @ s) = Ret (c', skip s)"
    using c'(1) by blast
qed

lemma reads_pipe_back:
  assumes "reads_pipe c" and "unparse c 1 = unparse c 2"
  shows "reads_back c"
  unfolding reads_back_def
proof (intro allI impI)
  fix n s assume n: "length (unparse c 1 @ s) \<le> n" and s: "starts '')&;'' s"
  then have "length (unparse c 2 @ s) \<le> n" "length (unparse c 2 @ s) < Suc n" using assms(2) by simp_all
  from assms(1) [unfolded reads_pipe_def, rule_format, OF this s]
  show "\<exists>c' b t. map_cmd word_of c' = c \<and> parsepipe (parseline n) (Suc n) (unparse c 1 @ s) = Ret (b, t)
      \<and> parseback b t = parseback c' (skip s)" unfolding assms(2) by blast
qed

lemma reads_back_line:
  assumes "reads_back c" and "unparse c 0 = unparse c 1"
  shows "reads_line c"
  unfolding reads_line_def
proof (intro allI impI)
  fix n s assume n: "length (unparse c 0 @ s) < n" and s: "starts '')'' s"
  obtain j where j: "n = Suc j" using n by (cases n) simp_all
  have "starts '')&;'' s" using s by (rule starts_mono) auto
  moreover have "length (unparse c 1 @ s) \<le> j" using n assms(2) j by simp
  ultimately obtain c' b t where c': "map_cmd word_of c' = c" "parsepipe (parseline j) (Suc j) (unparse c 0 @ s) = Ret (b, t)"
      "parseback b t = parseback c' (skip s)"
    using assms(1) unfolding reads_back_def assms(2) by blast
  have "starts '');'' s" using s by (rule starts_mono) auto
  then have "parseback b t = (c', skip s)" using c'(3) back_stop [of "skip s"] by (simp add: starts_def)
  moreover have "peek '';'' s = (False, skip s)" using s by (rule peek_starts) simp_all
  ultimately have "parseline n (unparse c 0 @ s) = Ret (c', skip s)"
    by (simp only: j parseline.simps c'(2) andthen_def result.case prod.case Let_def peek_skip if_False)
  then show "\<exists>c'. map_cmd word_of c' = c \<and> parseline n (unparse c 0 @ s) = Ret (c', skip s)" using c'(1) by blast
qed

lemma reads_EXEC:
  assumes "printable (EXEC ws)"
  shows "reads_exec (EXEC ws)"
  unfolding reads_exec_def
proof (intro allI impI)
  fix n s assume s: "starts ''|)&;<>'' s"
  let ?t = "unparse (EXEC ws) 3 @ s"
  obtain args where a: "map word_of args = ws" "finish (EXEC []) ?t = finish (EXEC args) s"
    using finish_args [of ws "[]" s] assms by auto
  have "peek ''('' ?t = (False, skip ?t)"
  proof (cases ws)
    case Nil
    then show ?thesis using peek_starts [OF s, of "''(''"] by simp
  next
    case (Cons w ws')
    then have w: "wordy w" using assms by simp
    have "skip (w @ z) = w @ z" for z using w by (rule wordyE)
    then show ?thesis using Cons peek_wordy [OF w, of "''(''"] by simp
  qed
  then have "parseexec (parseline n) ?t = finish (EXEC args) s"
    using a(2) by (simp add: parseexec_def parseredirs_skip finish_def)
  then show "\<exists>c'. map_cmd word_of c' = EXEC ws \<and> parseexec (parseline n) ?t = finish c' s"
    using a(1) by (intro exI [of _ "EXEC args"]) simp
qed

lemma reads_REDIR:
  assumes "reads_exec c" and "printable (REDIR c f mode fd)"
  shows "reads_exec (REDIR c f mode fd)"
  unfolding reads_exec_def
proof (intro allI impI)
  fix n s assume n: "length (unparse (REDIR c f mode fd) 3 @ s) \<le> n"
  let ?s = "redir_sign mode @ f @ CHR '' '' # s"
  have m: "wordy f" "(mode, fd) \<in> {(0, 0), (0x601, 1), (0x201, 1)}" using assms(2) by simp_all
  have "starts ''|)&;<>'' ?s" by (simp add: redir_sign_def starts_symbol)
  moreover have "length (unparse c 3 @ ?s) \<le> n" using n by simp
  ultimately obtain c' where c': "map_cmd word_of c' = c" "parseexec (parseline n) (unparse c 3 @ ?s) = finish c' ?s"
    using assms(1) unfolding reads_exec_def by blast
  have "parseexec (parseline n) (unparse (REDIR c f mode fd) 3 @ s)
      = finish (REDIR c' (f @ CHR '' '' # s, CHR '' '' # s) mode fd) s"
    using c'(2) by (simp add: finish_redir [OF m])
  then show "\<exists>c'. map_cmd word_of c' = REDIR c f mode fd \<and> parseexec (parseline n) (unparse (REDIR c f mode fd) 3 @ s) = finish c' s"
    using c'(1) by (intro exI [of _ "REDIR c' (f @ CHR '' '' # s, CHR '' '' # s) mode fd"]) simp
qed

lemma reads_PIPE:
  assumes "reads_exec l" and "reads_pipe r"
  shows "reads_pipe (PIPE l r)"
  unfolding reads_pipe_def
proof (intro allI impI)
  fix n k s assume n: "length (unparse (PIPE l r) 2 @ s) \<le> n" "length (unparse (PIPE l r) 2 @ s) < k" and s: "starts '')&;'' s"
  let ?r = "unparse r 2 @ s"
  obtain j where j: "k = Suc j" using n(2) by (cases k) simp_all
  have st: "starts toks (CHR ''|'' # ?r) \<longleftrightarrow> CHR ''|'' \<in> set toks" for toks by (rule starts_symbol) simp
  have "starts ''|)&;<>'' (CHR ''|'' # ?r)" "length (unparse l 3 @ CHR ''|'' # ?r) \<le> n"
    using n(1) by (simp_all add: st paren_def)
  then obtain l' where l': "map_cmd word_of l' = l" "parseexec (parseline n) (unparse l 3 @ CHR ''|'' # ?r) = finish l' (CHR ''|'' # ?r)"
    using assms(1) unfolding reads_exec_def by blast
  have e: "parseexec (parseline n) (unparse l 3 @ CHR ''|'' # ?r) = Ret (l', CHR ''|'' # ?r)"
    unfolding l'(2) by (subst finish_stop) (simp_all add: st skip_symbol del: skip.simps)
  have "length ?r \<le> n" "length ?r < j" using n j by (simp_all add: paren_def)
  then obtain r' where r': "map_cmd word_of r' = r" "parsepipe (parseline n) j ?r = Ret (r', skip s)"
    using assms(2) s unfolding reads_pipe_def by blast
  have "parsepipe (parseline n) k (unparse l 3 @ CHR ''|'' # ?r) = Ret (PIPE l' r', skip s)"
    unfolding j parsepipe.simps e andthen_def result.case prod.case
    using r'(2) by (simp add: peek_symbol gettoken_symbol parsepipe_skip del: parsepipe.simps)
  then show "\<exists>c'. map_cmd word_of c' = PIPE l r \<and> parsepipe (parseline n) k (unparse (PIPE l r) 2 @ s) = Ret (c', skip s)"
    using l'(1) r'(1) by (intro exI [of _ "PIPE l' r'"]) (simp add: paren_def del: parsepipe.simps)
qed

lemma reads_BACK:
  assumes "reads_back c"
  shows "reads_back (BACK c)"
  unfolding reads_back_def
proof (intro allI impI)
  fix n s assume n: "length (unparse (BACK c) 1 @ s) \<le> n"
  have "starts '')&;'' (CHR ''&'' # s)" by (subst starts_symbol) simp_all
  moreover have "length (unparse c 1 @ CHR ''&'' # s) \<le> n" using n by (simp add: paren_def)
  ultimately obtain c' b t where c': "map_cmd word_of c' = c"
      "parsepipe (parseline n) (Suc n) (unparse c 1 @ CHR ''&'' # s) = Ret (b, t)"
      "parseback b t = parseback c' (skip (CHR ''&'' # s))"
    using assms unfolding reads_back_def by blast
  have "skip (CHR ''&'' # s) = CHR ''&'' # s" by (rule skip_symbol) simp
  then have "parseback b t = parseback (BACK c') (skip s)" using c'(3) back_amp by simp
  moreover have "unparse (BACK c) 1 @ s = unparse c 1 @ CHR ''&'' # s" by (simp add: paren_def)
  ultimately show "\<exists>c' b t. map_cmd word_of c' = BACK c \<and> parsepipe (parseline n) (Suc n) (unparse (BACK c) 1 @ s) = Ret (b, t)
      \<and> parseback b t = parseback c' (skip s)"
    using c'(1,2) by (intro exI [of _ "BACK c'"] exI [of _ b] exI [of _ t]) (simp del: parsepipe.simps)
qed

lemma reads_LIST:
  assumes "reads_back l" and "reads_line r"
  shows "reads_line (LIST l r)"
  unfolding reads_line_def
proof (intro allI impI)
  fix n s assume n: "length (unparse (LIST l r) 0 @ s) < n" and s: "starts '')'' s"
  let ?r = "unparse r 0 @ s"
  obtain j where j: "n = Suc j" using n by (cases n) simp_all
  have st: "starts toks (CHR '';'' # ?r) \<longleftrightarrow> CHR '';'' \<in> set toks" for toks by (rule starts_symbol) simp
  have sk: "skip (CHR '';'' # ?r) = CHR '';'' # ?r" by (rule skip_symbol) simp
  have "starts '')&;'' (CHR '';'' # ?r)" "length (unparse l 1 @ CHR '';'' # ?r) \<le> j"
    using n j by (simp_all add: st paren_def)
  then obtain l' b t where l': "map_cmd word_of l' = l"
      "parsepipe (parseline j) (Suc j) (unparse l 1 @ CHR '';'' # ?r) = Ret (b, t)"
      "parseback b t = parseback l' (skip (CHR '';'' # ?r))"
    using assms(1) unfolding reads_back_def by blast
  have b: "parseback b t = (l', CHR '';'' # ?r)" unfolding l'(3) sk by (subst back_stop) (simp_all add: st sk del: skip.simps)
  have "length ?r < j" using n j by (simp add: paren_def)
  then obtain r' where r': "map_cmd word_of r' = r" "parseline j ?r = Ret (r', skip s)"
    using assms(2) s unfolding reads_line_def by blast
  have p: "peek '';'' (CHR '';'' # ?r) = (True, CHR '';'' # ?r)" by (subst peek_symbol) simp_all
  have g: "gettoken (CHR '';'' # ?r) = (CHR '';'', CHR '';'' # ?r, ?r, skip ?r)" by (rule gettoken_symbol) simp
  have "parseline n (unparse l 1 @ CHR '';'' # ?r) = Ret (LIST l' r', skip s)"
    by (simp only: j parseline.simps l'(2) b p g r'(2) andthen_def result.case prod.case Let_def if_True parseline_skip)
  then show "\<exists>c'. map_cmd word_of c' = LIST l r \<and> parseline n (unparse (LIST l r) 0 @ s) = Ret (c', skip s)"
    using l'(1) r'(1) by (intro exI [of _ "LIST l' r'"]) (simp add: paren_def del: parseline.simps)
qed

lemma reads_all: "printable c \<Longrightarrow> reads_exec c \<and> reads_pipe c \<and> reads_back c \<and> reads_line c"
proof (induction c)
  case (EXEC ws)
  then show ?case using reads_EXEC reads_exec_pipe reads_pipe_back reads_back_line by (metis unparse.simps(1))
next
  case (REDIR c f mode fd)
  then show ?case using reads_REDIR reads_exec_pipe reads_pipe_back reads_back_line by (metis unparse.simps(2) printable_simps(2))
next
  case (PIPE l r)
  then have "reads_pipe (PIPE l r)" by (simp add: reads_PIPE)
  moreover from this have "reads_back (PIPE l r)" by (rule reads_pipe_back) (simp add: paren_def)
  moreover from this have "reads_line (PIPE l r)" by (rule reads_back_line) (simp add: paren_def)
  moreover from this have "reads_exec (PIPE l r)" by (rule reads_block) (simp_all add: paren_def)
  ultimately show ?case by blast
next
  case (LIST l r)
  then have "reads_line (LIST l r)" by (simp add: reads_LIST)
  moreover from this have "reads_exec (LIST l r)" by (rule reads_block) (simp_all add: paren_def)
  moreover from this have "reads_pipe (LIST l r)" by (rule reads_exec_pipe) (simp add: paren_def)
  moreover from this have "reads_back (LIST l r)" by (rule reads_pipe_back) (simp add: paren_def)
  ultimately show ?case by blast
next
  case (BACK c)
  then have "reads_back (BACK c)" by (simp add: reads_BACK)
  moreover from this have "reads_line (BACK c)" by (rule reads_back_line) (simp add: paren_def)
  moreover from this have "reads_exec (BACK c)" by (rule reads_block) (simp_all add: paren_def)
  moreover from this have "reads_pipe (BACK c)" by (rule reads_exec_pipe) (simp add: paren_def)
  ultimately show ?case by blast
qed

lemma unparse_no_nul: "printable c \<Longrightarrow> CHR 0x00 \<notin> set (unparse c k)"
  by (induction c arbitrary: k) (auto simp: paren_def redir_sign_def wordy_def ordinary_char_def)

text \<open>C32.  The shell reads a command as it is written.  Every command tree, printed with the shell's operators and with
  parentheses only where its precedences need them (a list binds weaker than a background command, that
  weaker than a pipeline, that weaker than redirections), is parsed back to the same tree, with the
  same words in the line buffer.\<close>

theorem parsecmd_reads_back:
  assumes "printable c"
  shows "\<exists>c' m. parsecmd (unparse c 0) = Ret (c', m) \<and> map_cmd (read_word (unparse c 0) m) c' = c"
proof -
  let ?s = "unparse c 0"
  have nul: "CHR 0x00 \<notin> set ?s" using assms by (rule unparse_no_nul)
  have "starts '')'' []" by (simp add: starts_def)
  then obtain c' where c': "map_cmd word_of c' = c" "parseline (Suc (length ?s)) ?s = Ret (c', [])"
    using reads_all [OF assms] unfolding reads_line_def
    by (metis append_Nil2 lessI skip.simps(1))
  let ?m = "nulterminate ?s c' (?s @ [CHR 0x00])"
  have p: "parsecmd ?s = Ret (c', ?m)" using c'(2) by (simp add: parsecmd_def andthen_def peek_def del: parseline.simps)
  have "cmd_ok ?s c'" using parsecmd_ok [OF nul] p by simp
  then have "map_cmd (read_word ?s ?m) c' = map_cmd word_of c'"
    by (intro cmd.map_cong0 nulterminate_words) (simp_all add: cmd_ok_def)
  then show ?thesis using p c'(1) by blast
qed

theorem parsecmd_reads_back_witness:
  "\<exists>c' m. parsecmd ''ls |wc -l >out &;(cd x ;echo ok &)<in '' = Ret (c', m)
     \<and> map_cmd (read_word ''ls |wc -l >out &;(cd x ;echo ok &)<in '' m) c'
       = LIST (BACK (PIPE (EXEC [''ls'']) (REDIR (EXEC [''wc'', ''-l'']) ''out'' 0x601 1)))
           (REDIR (LIST (EXEC [''cd'', ''x'']) (BACK (EXEC [''echo'', ''ok'']))) ''in'' 0 0)"
  (is "\<exists>c' m. _ \<and> _ = ?c")
proof -
  have "printable ?c" by (simp add: MAXARGS_def wordy_def ordinary_char_def whitespace_def symbols_def)
  moreover have "unparse ?c 0 = ''ls |wc -l >out &;(cd x ;echo ok &)<in ''" by (simp add: paren_def redir_sign_def)
  ultimately show ?thesis using parsecmd_reads_back [of ?c] by simp
qed

end
