(* ===== verification/Spec2Isabelle.thy ===== *)
theory Spec2Isabelle
  imports Wakeup Inode Syscall Virtio Kprintf Grep Sh
begin

text \<open>
  Verification of the xv6 RISC-V kernel with a multi-level feedback queue scheduler and page
  swapping (\<^verbatim>\<open>src/kernel\<close>).

  \<^bold>\<open>The program and its parts.\<close>  The kernel runs on several CPUs.  Processes enter it through traps
  (\<^verbatim>\<open>trap.c\<close>), which dispatch system calls (\<^verbatim>\<open>syscall.c\<close>, \<^verbatim>\<open>sysproc.c\<close>, \<^verbatim>\<open>sysfile.c\<close>).  Process
  calls create, end and schedule processes (\<^verbatim>\<open>proc.c\<close>, \<^verbatim>\<open>exec.c\<close>).  Memory calls and page faults change
  page tables (\<^verbatim>\<open>vm.c\<close>) over a page allocator (\<^verbatim>\<open>kalloc.c\<close>), evicting pages to a swap area when
  memory is short.  File calls go through open files and pipes (\<^verbatim>\<open>file.c\<close>, \<^verbatim>\<open>pipe.c\<close>) to the console
  (\<^verbatim>\<open>console.c\<close>, \<^verbatim>\<open>uart.c\<close>) or to the file system (\<^verbatim>\<open>fs.c\<close>), which reads and writes
  blocks through a write-ahead log (\<^verbatim>\<open>log.c\<close>) and a buffer cache (\<^verbatim>\<open>bio.c\<close>).  Spin locks and sleep locks
  (\<^verbatim>\<open>spinlock.c\<close>, \<^verbatim>\<open>sleeplock.c\<close>) protect all of it.

  \<^bold>\<open>How code is modelled.\<close>  The C integer types are words of their width, \<^verbatim>\<open>int\<close> is \<^typ>\<open>int\<close>.  The
  global state is a record that each component extends with its own variables (\<open>lock_state\<close>,
  \<open>sched_state\<close>, \<open>mem_state\<close>, \<open>bio_state\<close>, \<open>log_state\<close>, \<open>fs_state\<close>, \<open>cons_state\<close>, \<open>file_state\<close>, \<open>proc_state\<close>,
  \<open>trap_state\<close>); operations are polymorphic in later extensions.  A statement is a function into
  \<^typ>\<open>'a option\<close> chained by the option monad; \<^term>\<open>None\<close> means that it does not return (a panic, an array
  access out of bounds, a wait inside the file system).  Pointers to entries of static tables are
  indices, physical memory is a function from addresses to bytes, and page tables and the free list
  live in it.  Loops whose termination is a theorem, not a syntactic fact, are partial functions
  into option; fuel is used only in the shell's parser.  System calls that may sleep return an \<open>outcome\<close>.

  \<^bold>\<open>The theories.\<close>
  \<^item> \<open>Prelude\<close>: machine types, statements, total correctness \<open>runs\<close>, loops.
  \<^item> \<open>Spinlock\<close> (\<^verbatim>\<open>spinlock.c\<close>): the atomic steps of acquire and release, interleaved across CPUs;
    mutual exclusion in every reachable state.  The locale \<open>lock_spec\<close> is the contract of a
    lock, interpreted on the code and on the abstract lock set that the other theories use.
  \<^item> \<open>Sched\<close> (\<^verbatim>\<open>proc.c\<close>, scheduling): run queues (locale \<open>bounded_fifo\<close>), dispatch, ticks, boost, sleep, wakeup,
    kill.  No process runs on two CPUs and there is no overtaking inside a queue.  While the queues hold exactly the
    runnable processes (\<open>ready_exact\<close>), a turn without a boost dispatches the head of the highest non-empty level.
    Ticks and wakeups keep that state; a boost also queues the processes that run on other CPUs, and \<open>kkill\<close> leaves a
    sleeper that it wakes in no queue, where it waits for the next boost.
  \<^item> \<open>Wakeup\<close> (\<^verbatim>\<open>proc.c\<close>, sleep and wakeup): the actions of a sleeping process and of any number of wakers, interleaved across CPUs.  A
    waker that takes the condition lock after the sleeper held it does not miss the sleeper.
  \<^item> \<open>Riscv\<close>, \<open>Cstring\<close>, \<open>Physmem\<close> (\<^verbatim>\<open>riscv.h\<close>, \<^verbatim>\<open>memlayout.h\<close>, \<^verbatim>\<open>string.c\<close>): address arithmetic, page-table
    entries, the memory and string routines, words in byte memory.
  \<^item> \<open>Kalloc\<close> (\<^verbatim>\<open>kalloc.c\<close>, eviction in \<^verbatim>\<open>vm.c\<close>): the free list as a pool of distinct pages (locale
    \<open>page_pool\<close>), boot, freeing and allocating, the clock algorithm.
  \<^item> \<open>Vm\<close> (\<^verbatim>\<open>vm.c\<close>): page tables as maps from pages to entries, growing, copying and freeing address
    spaces, page faults and swap-in, copies between kernel and user memory.
  \<^item> \<open>Bio\<close>, \<open>Log\<close>, \<open>Fs\<close> (\<^verbatim>\<open>sleeplock.c\<close>, \<^verbatim>\<open>bio.c\<close>, \<^verbatim>\<open>log.c\<close>, \<^verbatim>\<open>fs.c\<close>): sleep locks, the buffer cache, transactions
    and recovery, blocks, inodes, directories and paths.  Path elements are those of the path split at
    its slashes.
  \<^item> \<open>Journal\<close> (\<^verbatim>\<open>bio.c\<close>, \<^verbatim>\<open>log.c\<close>): the contract of the buffer cache (locale \<open>block_cache\<close>) and crash safety:
    after a crash at any point of a commit, recovery leaves all of the transaction or nothing of it.
    A commit returns exactly when a buffer is free.  Disk writes of single blocks are taken to be atomic and to happen in program order.
  \<^item> \<open>Inode\<close> (\<^verbatim>\<open>fs.c\<close>): \<open>iupdate\<close> and \<open>ilock\<close> over the contract of the buffer cache; an inode written under the log
    reads back as it was.
  \<^item> \<open>Virtio\<close> (\<^verbatim>\<open>virtio_disk.c\<close>): descriptors, requests and completion.  The device is a relation that says
    what an answer to the oldest outstanding request may change.  For a call on an idle queue with three free descriptors, an answer with status 0
    gives the transfer that \<open>Bio\<close> assumes of the disk, and after an error status the interrupt handler does not return.
  \<^item> \<open>Console\<close>, \<open>File\<close> (\<^verbatim>\<open>console.c\<close>, \<^verbatim>\<open>uart.c\<close>, \<^verbatim>\<open>pipe.c\<close>, \<^verbatim>\<open>file.c\<close>): the line discipline refines an abstract one;
    pipes are bounded queues across the wrap-around of their counters.
  \<^item> \<open>Proc\<close>, \<open>Exec\<close>, \<open>Sysfile\<close>, \<open>Syscall\<close> (\<^verbatim>\<open>proc.c\<close>, \<^verbatim>\<open>exec.c\<close>, \<^verbatim>\<open>sysfile.c\<close>, \<^verbatim>\<open>sysproc.c\<close>, \<^verbatim>\<open>syscall.c\<close>, \<^verbatim>\<open>trap.c\<close>): process
    creation, exit and wait, program loading, all system calls, trap entry and return.
  \<^item> \<open>Ulib\<close>, \<open>Grep\<close> (\<^verbatim>\<open>user/ulib.c\<close>, \<^verbatim>\<open>user/printf.c\<close>, \<^verbatim>\<open>user/grep.c\<close>): strings, memory, number conversion and formatted
    output of the user library; the pattern matcher against the language of a pattern, and that grep
    prints the matching lines up to the first line that does not fit its buffer, however its input arrives.
  \<^item> \<open>Kprintf\<close> (\<^verbatim>\<open>kernel/printf.c\<close>): printf and panic; until the kernel has panicked, what appears on the console
    is what the user library's formatter gives.  After a panic the serial output, and with it printf and the echo of the
    console, does not return.
  \<^item> \<open>Sh\<close> (\<^verbatim>\<open>user/sh.c\<close>): the command parser of the shell.  It returns on every line, its words survive the
    NUL bytes written behind other words, and a printed command tree is read back.  The bound on the
    recursion depth is one more than the length of the line.

  \<^bold>\<open>Not modelled.\<close>  Assembly and boot (\<^verbatim>\<open>entry.S\<close>, \<^verbatim>\<open>start.c\<close>, \<^verbatim>\<open>main.c\<close>, \<^verbatim>\<open>swtch.S\<close>, \<^verbatim>\<open>trampoline.S\<close>, \<^verbatim>\<open>kernelvec.S\<close>),
  the interrupt controller, \<^verbatim>\<open>mkfs\<close> and the other user programs.  Context switches are represented by the state in which the
  scheduler or the process resumes.
\<close>

end
